(* ===== verification/Vex_Prelude.thy ===== *)
theory Vex_Prelude
  imports Main "HOL-Library.Word"
begin

text \<open>
  Shared vocabulary of the development: the machine-integer widths the kernel
  uses, the error codes its functions return, the alignment macros of
  \<^verbatim>\<open>kernel/include/vex/compiler.h\<close> and the page helpers of
  \<^verbatim>\<open>kernel/include/vex/page.h\<close>, and the generic word and list facts that several
  components rest on.

  Conventions. A function that returns 0 or a negative error code in C returns
  a value of the sum type \<open>'a result\<close> here, \<open>Inl\<close> holding the error. Sizes and
  indices (\<^verbatim>\<open>size_t\<close>) are \<open>nat\<close> where the code's own guards keep them far from
  \<open>2 ^ 64\<close>, and words where wrap-around or the bit pattern matters. Reading a C
  array outside its bounds is undefined in C and unspecified (\<open>xs ! i\<close>) here; the
  theorems carry the bound as a hypothesis or an invariant.
\<close>

unbundle bit_operations_syntax

type_synonym u8 = "8 word"
type_synonym u16 = "16 word"
type_synonym u32 = "32 word"
type_synonym u64 = "64 word"

datatype errno =
    EACCES | EAGAIN | EBADF | EBUSY | ECHILD | EEXIST | EFAULT | EFBIG | EINTR | EINVAL | EIO
  | EISDIR | ELOOP | EMFILE | EMLINK | ENAMETOOLONG | ENODATA | ENODEV | ENOENT | ENOEXEC
  | ENOMEM | ENOSPC | ENOSYS | ENOTDIR | ENOTEMPTY | ENOTSUP | ENOTTY | EOVERFLOW | EPERM | ERANGE
  | EROFS | ESPIPE | ESRCH | ETIMEDOUT | EUCLEAN | EXDEV

type_synonym 'a result = "errno + 'a"

named_theorems bit_word \<open>characterisations of word operations bit by bit\<close>

lemma and_push_bit_1_eq [bit_word]: "(w AND push_bit j 1 \<noteq> 0) = bit w j" for w :: "'a::len word"
  by (rule bit_iff_and_push_bit_not_eq_0 [symmetric])

lemma and_eq_mask_iff [bit_word]: "(w AND m = m) = (\<forall>k. bit m k \<longrightarrow> bit w k)" for w m :: "'a::len word"
  by (metis bit_and_iff bit_eq_iff)

lemma and_eq_0_iff [bit_word]: "(w AND m = 0) = (\<forall>k. bit m k \<longrightarrow> \<not> bit w k)" for w m :: "'a::len word"
  by (auto simp: bit_eq_iff bit_simps dest: bit_imp_le_length)

lemma and_not_eq_0_iff [bit_word]: "(a AND NOT b = 0) = (\<forall>k. bit a k \<longrightarrow> bit b k)" for a b :: "'a::len word"
  by (auto simp: bit_eq_iff bit_simps dest: bit_imp_le_length)

lemma bit_less_pow: "unat w < 2 ^ n \<Longrightarrow> bit w k \<Longrightarrow> k < n" for w :: "'a::len word"
  using take_bit_nat_eq_self [of "unat w" n] bit_take_bit_iff [of n "unat w" k]
  by (simp add: bit_unsigned_iff bit_imp_le_length)

lemma unat_u64_less: "unat (w :: u64) < 2 ^ 64"
  by (rule order_less_le_trans [OF unsigned_less]) simp

lemma unat_u32_less: "unat (w :: u32) < 2 ^ 32"
  by (rule order_less_le_trans [OF unsigned_less]) simp

subsection \<open>Alignment\<close>

definition align_ceil :: "u64 \<Rightarrow> u64 \<Rightarrow> u64" where
  "align_ceil x align = (x + (align - 1)) AND NOT (align - 1)"

definition align_floor :: "u64 \<Rightarrow> u64 \<Rightarrow> u64" where
  "align_floor x align = x AND NOT (align - 1)"

definition PAGE_SIZE :: u64 where
  "PAGE_SIZE = 4096"

definition page_align :: "u64 \<Rightarrow> u64" where
  "page_align address = align_floor address PAGE_SIZE"

definition page_align_up :: "u64 \<Rightarrow> u64" where
  "page_align_up address = align_ceil address PAGE_SIZE"

definition page_count :: "u64 \<Rightarrow> u64" where
  "page_count len = align_ceil len PAGE_SIZE div PAGE_SIZE"

definition page_offset :: "u64 \<Rightarrow> u64" where
  "page_offset address = address AND (PAGE_SIZE - 1)"

lemma and_not_mask_eq: "x AND NOT (mask k) = push_bit k (drop_bit k x)" for x :: "'a::len word"
  by (auto simp: bit_eq_iff bit_simps)

lemma unat_and_not_mask: "unat (x AND NOT (mask k)) = unat x div 2 ^ k * 2 ^ k" for x :: "'a::len word"
proof -
  have le: "unat x div 2 ^ k * 2 ^ k < 2 ^ LENGTH('a)"
    by (rule le_less_trans [OF div_times_less_eq_dividend unsigned_less])
  have "unat (x AND NOT (mask k)) = take_bit LENGTH('a) (push_bit k (drop_bit k (unat x)))"
    by (simp add: and_not_mask_eq unsigned_push_bit_eq unat_drop_bit_eq)
  also have "\<dots> = unat x div 2 ^ k * 2 ^ k"
    using le by (simp add: push_bit_eq_mult drop_bit_eq_div take_bit_nat_eq_self)
  finally show ?thesis .
qed

lemma unat_and_mask: "unat (x AND mask k) = unat x mod 2 ^ k" for x :: "'a::len word"
  by (metis take_bit_eq_mask take_bit_eq_mod unsigned_take_bit_eq)

lemma page_mask: "(4096 :: u64) - 1 = mask 12"
  by (simp add: mask_eq_exp_minus_1)

lemma unat_page_align: "unat (page_align a) = unat a div 4096 * 4096"
  using unat_and_not_mask [of a 12]
  by (simp add: page_align_def align_floor_def PAGE_SIZE_def page_mask [simplified])

lemma unat_page_offset: "unat (page_offset a) = unat a mod 4096"
  using unat_and_mask [of a 12]
  by (simp add: page_offset_def PAGE_SIZE_def page_mask [simplified])

lemma unat_page_align_up:
  assumes "unat a + 4095 < 2 ^ 64"
  shows "unat (page_align_up a) = (unat a + 4095) div 4096 * 4096"
proof -
  have "unat (a + 4095) = unat a + 4095"
    using assms by (simp add: unat_word_ariths)
  then show ?thesis
    using unat_and_not_mask [of "a + 4095" 12]
    by (simp add: page_align_up_def align_ceil_def PAGE_SIZE_def page_mask [simplified])
qed

lemma unat_page_count:
  assumes "unat n + 4095 < 2 ^ 64"
  shows "unat (page_count n) = (unat n + 4095) div 4096"
proof -
  have "unat (page_count n) = unat (page_align_up n) div 4096"
    by (simp add: page_count_def page_align_up_def PAGE_SIZE_def unat_div)
  then show ?thesis
    using unat_page_align_up [OF assms] by simp
qed

end
