(* ===== verification/Bitmap.thy ===== *)
theory Bitmap
  imports Vex_Prelude
begin

text \<open>
  The bit array of \<^verbatim>\<open>kernel/libk/bitmap.c\<close> and \<^verbatim>\<open>kernel/include/vex/bitmap.h\<close>. A
  bitmap is an array of 32-bit chunks whose bits are numbered from the most
  significant one: bit \<open>n\<close> is bit \<open>31 - n mod 32\<close> of chunk \<open>n div 32\<close>. The range
  operations work a chunk at a time with two edge masks; the lemmas show that
  they do what a loop over the single bits would do. The locale \<open>range_bits\<close> is
  the contract the page allocator builds on.
\<close>

type_synonym bitmap = "u32 list"

abbreviation (input) BITMAP_CHUNK_BITS :: nat where
  "BITMAP_CHUNK_BITS \<equiv> 32"

definition BITMAP_BIT :: "nat \<Rightarrow> u32" where
  "BITMAP_BIT b = push_bit b 1"

definition BITMAP_MASK_CLEAR :: u32 where
  "BITMAP_MASK_CLEAR = 0"

definition BITMAP_MASK_SET :: u32 where
  "BITMAP_MASK_SET = 0xFFFFFFFF"

definition mask_from :: "nat \<Rightarrow> u32" where
  "mask_from bitmod = drop_bit bitmod BITMAP_MASK_SET"

definition mask_upto :: "nat \<Rightarrow> u32" where
  "mask_upto bitmod = push_bit (BITMAP_CHUNK_BITS - 1 - bitmod) BITMAP_MASK_SET"

definition bitmap_bytecount :: "u64 \<Rightarrow> u64" where
  "bitmap_bytecount bits = align_ceil bits 32 div 8"

definition bitmap_chunkcount :: "u64 \<Rightarrow> u64" where
  "bitmap_chunkcount bits = align_ceil bits 32 div 8 div 4"

definition bitmap_isset :: "bitmap \<Rightarrow> nat \<Rightarrow> bool" where
  "bitmap_isset bitmap n =
     (let bdiv = n div BITMAP_CHUNK_BITS; bmod = n mod BITMAP_CHUNK_BITS
      in bitmap ! bdiv AND BITMAP_BIT (BITMAP_CHUNK_BITS - bmod - 1) \<noteq> 0)"

definition bitmap_clear :: "bitmap \<Rightarrow> nat \<Rightarrow> bitmap" where
  "bitmap_clear bitmap n =
     (let bdiv = n div BITMAP_CHUNK_BITS; bmod = n mod BITMAP_CHUNK_BITS
      in bitmap[bdiv := bitmap ! bdiv AND NOT (BITMAP_BIT (BITMAP_CHUNK_BITS - bmod - 1))])"

definition bitmap_set :: "bitmap \<Rightarrow> nat \<Rightarrow> bitmap" where
  "bitmap_set bitmap n =
     (let bdiv = n div BITMAP_CHUNK_BITS; bmod = n mod BITMAP_CHUNK_BITS
      in bitmap[bdiv := bitmap ! bdiv OR BITMAP_BIT (BITMAP_CHUNK_BITS - bmod - 1)])"

text \<open>
  The middle chunks of a range: \<open>chunks_all\<close> is the loop that returns 0 at the
  first chunk that differs from the value it looks for, \<open>chunks_fill\<close> the loop
  that stores one value, both over \<open>i, \<dots>, idx_b - 1\<close>.
\<close>

function chunks_all :: "bitmap \<Rightarrow> u32 \<Rightarrow> nat \<Rightarrow> nat \<Rightarrow> bool" where
  "chunks_all bitmap v i idx_b =
     (if i < idx_b then (if bitmap ! i \<noteq> v then False else chunks_all bitmap v (i + 1) idx_b) else True)"
  by pat_completeness auto
termination
  by (relation "measure (\<lambda>(_, _, i, idx_b). idx_b - i)") auto

function chunks_fill :: "bitmap \<Rightarrow> u32 \<Rightarrow> nat \<Rightarrow> nat \<Rightarrow> bitmap" where
  "chunks_fill bitmap v i idx_b =
     (if i < idx_b then chunks_fill (bitmap[i := v]) v (i + 1) idx_b else bitmap)"
  by pat_completeness auto
termination
  by (relation "measure (\<lambda>(_, _, i, idx_b). idx_b - i)") auto

declare chunks_all.simps [simp del] chunks_fill.simps [simp del]

definition bitmap_range_isset :: "bitmap \<Rightarrow> nat \<Rightarrow> nat \<Rightarrow> bool" where
  "bitmap_range_isset bitmap bit_a bit_b =
     (let idx_a = bit_a div BITMAP_CHUNK_BITS;
          idx_b = bit_b div BITMAP_CHUNK_BITS;
          mask_a = mask_from (bit_a mod BITMAP_CHUNK_BITS);
          mask_b = mask_upto (bit_b mod BITMAP_CHUNK_BITS);
          (mask_a, mask_b) =
            (if idx_a = idx_b then (mask_a AND mask_b, mask_a AND mask_b) else (mask_a, mask_b))
      in if bitmap ! idx_a AND mask_a \<noteq> mask_a then False
         else if \<not> chunks_all bitmap BITMAP_MASK_SET (idx_a + 1) idx_b then False
         else if bitmap ! idx_b AND mask_b \<noteq> mask_b then False
         else True)"

definition bitmap_range_isclear :: "bitmap \<Rightarrow> nat \<Rightarrow> nat \<Rightarrow> bool" where
  "bitmap_range_isclear bitmap bit_a bit_b =
     (let idx_a = bit_a div BITMAP_CHUNK_BITS;
          idx_b = bit_b div BITMAP_CHUNK_BITS;
          mask_a = mask_from (bit_a mod BITMAP_CHUNK_BITS);
          mask_b = mask_upto (bit_b mod BITMAP_CHUNK_BITS);
          (mask_a, mask_b) =
            (if idx_a = idx_b then (mask_a AND mask_b, mask_a AND mask_b) else (mask_a, mask_b))
      in if bitmap ! idx_a AND mask_a \<noteq> 0 then False
         else if \<not> chunks_all bitmap BITMAP_MASK_CLEAR (idx_a + 1) idx_b then False
         else if bitmap ! idx_b AND mask_b \<noteq> 0 then False
         else True)"

definition bitmap_range_clear :: "bitmap \<Rightarrow> nat \<Rightarrow> nat \<Rightarrow> bitmap" where
  "bitmap_range_clear bitmap bit_a bit_b =
     (let idx_a = bit_a div BITMAP_CHUNK_BITS;
          idx_b = bit_b div BITMAP_CHUNK_BITS;
          mask_a = mask_from (bit_a mod BITMAP_CHUNK_BITS);
          mask_b = mask_upto (bit_b mod BITMAP_CHUNK_BITS)
      in if idx_a = idx_b then bitmap[idx_a := bitmap ! idx_a AND NOT (mask_a AND mask_b)]
         else
           let bitmap = bitmap[idx_a := bitmap ! idx_a AND NOT mask_a];
               bitmap = chunks_fill bitmap BITMAP_MASK_CLEAR (idx_a + 1) idx_b
           in bitmap[idx_b := bitmap ! idx_b AND NOT mask_b])"

definition bitmap_range_set :: "bitmap \<Rightarrow> nat \<Rightarrow> nat \<Rightarrow> bitmap" where
  "bitmap_range_set bitmap bit_a bit_b =
     (let idx_a = bit_a div BITMAP_CHUNK_BITS;
          idx_b = bit_b div BITMAP_CHUNK_BITS;
          mask_a = mask_from (bit_a mod BITMAP_CHUNK_BITS);
          mask_b = mask_upto (bit_b mod BITMAP_CHUNK_BITS)
      in if idx_a = idx_b then bitmap[idx_a := bitmap ! idx_a OR (mask_a AND mask_b)]
         else
           let bitmap = bitmap[idx_a := bitmap ! idx_a OR mask_a];
               bitmap = chunks_fill bitmap BITMAP_MASK_SET (idx_a + 1) idx_b
           in bitmap[idx_b := bitmap ! idx_b OR mask_b])"

subsection \<open>Single bits\<close>

lemma bitmap_isset_bit: "bitmap_isset b n = bit (b ! (n div 32)) (31 - n mod 32)"
  unfolding bitmap_isset_def BITMAP_BIT_def Let_def and_push_bit_1_eq by (simp add: diff_right_commute)

lemma bit_mask_set: "bit BITMAP_MASK_SET k = (k < 32)"
proof -
  have "BITMAP_MASK_SET = mask 32"
    by (simp add: BITMAP_MASK_SET_def mask_eq_exp_minus_1)
  show ?thesis
    unfolding \<open>BITMAP_MASK_SET = mask 32\<close> by (auto simp: bit_simps)
qed

lemma bit_mask_from: "m < 32 \<Longrightarrow> p < 32 \<Longrightarrow> bit (mask_from m) (31 - p) = (m \<le> p)"
  by (auto simp: mask_from_def bit_mask_set bit_simps)

lemma bit_mask_upto: "m < 32 \<Longrightarrow> p < 32 \<Longrightarrow> bit (mask_upto m) (31 - p) = (p \<le> m)"
  by (auto simp: mask_upto_def bit_mask_set bit_simps)

lemma length_bitmap_set [simp]: "length (bitmap_set b n) = length b"
  by (simp add: bitmap_set_def Let_def)

lemma length_bitmap_clear [simp]: "length (bitmap_clear b n) = length b"
  by (simp add: bitmap_clear_def Let_def)

lemma bit_position_eq: "31 - n mod 32 = 31 - k mod 32 \<Longrightarrow> n div 32 = k div 32 \<Longrightarrow> n = (k :: nat)"
  using mod_less_divisor [of 32 n] mod_less_divisor [of 32 k] mult_div_mod_eq [of 32 n] mult_div_mod_eq [of 32 k]
  by linarith

lemma bitmap_isset_set:
  assumes "n < 32 * length b" "k < 32 * length b"
  shows "bitmap_isset (bitmap_set b n) k = (k = n \<or> bitmap_isset b k)"
proof -
  have "n div 32 < length b" "k div 32 < length b"
    using assms by auto
  then show ?thesis
    by (auto simp: bitmap_isset_bit bitmap_set_def BITMAP_BIT_def Let_def nth_list_update bit_simps
        dest: bit_position_eq [OF sym])
qed

lemma bitmap_isset_clear:
  assumes "n < 32 * length b" "k < 32 * length b"
  shows "bitmap_isset (bitmap_clear b n) k = (k \<noteq> n \<and> bitmap_isset b k)"
proof -
  have "n div 32 < length b" "k div 32 < length b"
    using assms by auto
  then show ?thesis
    by (auto simp: bitmap_isset_bit bitmap_clear_def BITMAP_BIT_def Let_def nth_list_update bit_simps
        dest: bit_position_eq [OF sym])
qed

subsection \<open>The chunk loops\<close>

lemma chunks_all_iff: "chunks_all b v i j = (\<forall>k. i \<le> k \<and> k < j \<longrightarrow> b ! k = v)"
proof (induction b v i j rule: chunks_all.induct)
  case (1 b v i j)
  then show ?case
    by (subst chunks_all.simps) (auto simp: Suc_le_eq nat_less_le)
qed

lemma length_chunks_fill [simp]: "length (chunks_fill b v i j) = length b"
  by (induction b v i j rule: chunks_fill.induct) (subst chunks_fill.simps, simp)

lemma nth_chunks_fill:
  "j \<le> length b \<Longrightarrow> k < length b \<Longrightarrow> chunks_fill b v i j ! k = (if i \<le> k \<and> k < j then v else b ! k)"
proof (induction b v i j rule: chunks_fill.induct)
  case (1 b v i j)
  then show ?case
    by (subst chunks_fill.simps) (auto simp: nth_list_update)
qed

subsection \<open>The range operations, bit by bit\<close>

lemma all_bits_msb_first: "(\<forall>k. bit m k \<longrightarrow> Q k) = (\<forall>p<32. bit m (31 - p) \<longrightarrow> Q (31 - p))" for m :: u32
proof
  assume R: "\<forall>p<32. bit m (31 - p) \<longrightarrow> Q (31 - p)"
  show "\<forall>k. bit m k \<longrightarrow> Q k"
  proof (intro allI impI)
    fix k
    assume k: "bit m k"
    then have "k < 32"
      using bit_imp_le_length [of m k] by simp
    then show "Q k"
      using R [rule_format, of "31 - k"] k by simp
  qed
qed auto

lemma chunk_order: "r < 32 \<Longrightarrow> p < 32 \<Longrightarrow> (32 * q + r \<le> 32 * i + p) = (q < i \<or> (i = q \<and> r \<le> p))" for p :: nat
  by arith

lemma range_chunks:
  fixes a z :: nat
  assumes "a \<le> z"
  shows "(\<forall>n. a \<le> n \<and> n \<le> z \<longrightarrow> P (n div 32) (n mod 32)) \<longleftrightarrow>
    (if a div 32 = z div 32 then \<forall>p<32. a mod 32 \<le> p \<and> p \<le> z mod 32 \<longrightarrow> P (a div 32) p
     else (\<forall>p<32. a mod 32 \<le> p \<longrightarrow> P (a div 32) p) \<and>
       (\<forall>i. a div 32 < i \<and> i < z div 32 \<longrightarrow> (\<forall>p<32. P i p)) \<and>
       (\<forall>p<32. p \<le> z mod 32 \<longrightarrow> P (z div 32) p))"
    (is "?L = ?R")
proof -
  have L: "?L = (\<forall>i. \<forall>p<32. a \<le> 32 * i + p \<and> 32 * i + p \<le> z \<longrightarrow> P i p)"
  proof
    assume ?L
    show "\<forall>i. \<forall>p<32. a \<le> 32 * i + p \<and> 32 * i + p \<le> z \<longrightarrow> P i p"
    proof (intro allI impI)
      fix i p :: nat
      assume "p < 32" "a \<le> 32 * i + p \<and> 32 * i + p \<le> z"
      then show "P i p"
        using \<open>?L\<close> [rule_format, of "32 * i + p"] by simp
    qed
  next
    assume R: "\<forall>i. \<forall>p<32. a \<le> 32 * i + p \<and> 32 * i + p \<le> z \<longrightarrow> P i p"
    show ?L
    proof (intro allI impI)
      fix n
      assume "a \<le> n \<and> n \<le> z"
      then show "P (n div 32) (n mod 32)"
        using R [rule_format, of "n mod 32" "n div 32"] by simp
    qed
  qed
  have order: "(a \<le> 32 * i + p \<longleftrightarrow> a div 32 < i \<or> (i = a div 32 \<and> a mod 32 \<le> p)) \<and>
      (32 * i + p \<le> z \<longleftrightarrow> i < z div 32 \<or> (i = z div 32 \<and> p \<le> z mod 32))" if "p < 32" for i p
    using that chunk_order [of "a mod 32" p "a div 32" i] chunk_order [of p "z mod 32" i "z div 32"] by auto
  have "a div 32 \<le> z div 32"
    using assms by (rule div_le_mono)
  then show ?thesis
    unfolding L by (cases "a div 32 = z div 32") (auto simp: order)
qed

lemma chunk_mask_bits:
  assumes "m < 32"
  shows "(\<forall>k. bit (mask_from m) k \<longrightarrow> Q k) = (\<forall>p<32. m \<le> p \<longrightarrow> Q (31 - p))"
    and "(\<forall>k. bit (mask_upto m) k \<longrightarrow> Q k) = (\<forall>p<32. p \<le> m \<longrightarrow> Q (31 - p))"
  using assms by (auto simp: all_bits_msb_first bit_mask_from bit_mask_upto)

lemma chunk_masks_bits:
  assumes "m < 32" "m' < 32"
  shows "(\<forall>k. bit (mask_from m AND mask_upto m') k \<longrightarrow> Q k) =
    (\<forall>p<32. m \<le> p \<and> p \<le> m' \<longrightarrow> Q (31 - p))"
  using assms unfolding all_bits_msb_first [of "mask_from m AND mask_upto m'"]
  by (auto simp: bit_mask_from bit_mask_upto bit_and_iff)

lemma chunk_set_bits: "(w = BITMAP_MASK_SET) = (\<forall>p<32. bit w (31 - p))"
proof -
  have "(w = BITMAP_MASK_SET) = (\<forall>k. bit BITMAP_MASK_SET k \<longrightarrow> bit w k)"
    by (auto simp: bit_eq_iff bit_mask_set)
  then show ?thesis
    unfolding all_bits_msb_first by (auto simp: bit_mask_set)
qed

lemma chunk_clear_bits: "(w = BITMAP_MASK_CLEAR) = (\<forall>p<32. \<not> bit w (31 - p))"
proof -
  have "(w = BITMAP_MASK_CLEAR) = (\<forall>k. bit BITMAP_MASK_SET k \<longrightarrow> \<not> bit w k)"
    by (auto simp: bit_eq_iff bit_mask_set BITMAP_MASK_CLEAR_def dest: bit_imp_le_length)
  then show ?thesis
    unfolding all_bits_msb_first by (auto simp: bit_mask_set)
qed

lemma chunk_test_set:
  assumes "m < 32" "m' < 32"
  shows "(w AND mask_from m = mask_from m) = (\<forall>p<32. m \<le> p \<longrightarrow> bit w (31 - p))"
    and "(w AND mask_upto m = mask_upto m) = (\<forall>p<32. p \<le> m \<longrightarrow> bit w (31 - p))"
    and "(w AND (mask_from m AND mask_upto m') = mask_from m AND mask_upto m') =
      (\<forall>p<32. m \<le> p \<and> p \<le> m' \<longrightarrow> bit w (31 - p))"
  using chunk_mask_bits [OF assms(1), of "bit w"] chunk_masks_bits [OF assms, of "bit w"]
  unfolding and_eq_mask_iff by simp_all

lemma chunk_test_clear:
  assumes "m < 32" "m' < 32"
  shows "(w AND mask_from m = 0) = (\<forall>p<32. m \<le> p \<longrightarrow> \<not> bit w (31 - p))"
    and "(w AND mask_upto m = 0) = (\<forall>p<32. p \<le> m \<longrightarrow> \<not> bit w (31 - p))"
    and "(w AND (mask_from m AND mask_upto m') = 0) =
      (\<forall>p<32. m \<le> p \<and> p \<le> m' \<longrightarrow> \<not> bit w (31 - p))"
  using chunk_mask_bits [OF assms(1), of "\<lambda>k. \<not> bit w k"] chunk_masks_bits [OF assms, of "\<lambda>k. \<not> bit w k"]
  unfolding and_eq_0_iff by simp_all

lemma mod_32_less: "n mod 32 < 32" for n :: nat
  by simp

lemma bitmap_range_isset_iff:
  assumes "bit_a \<le> bit_b"
  shows "bitmap_range_isset b bit_a bit_b = (\<forall>n. bit_a \<le> n \<and> n \<le> bit_b \<longrightarrow> bitmap_isset b n)"
  unfolding bitmap_isset_bit range_chunks [OF assms, of "\<lambda>i p. bit (b ! i) (31 - p)"]
    bitmap_range_isset_def Let_def chunks_all_iff chunk_set_bits
  by (cases "bit_a div 32 = bit_b div 32")
    (simp_all add: chunk_test_set [OF mod_32_less mod_32_less] Suc_le_eq conj_comms, auto)

lemma bitmap_range_isclear_iff:
  assumes "bit_a \<le> bit_b"
  shows "bitmap_range_isclear b bit_a bit_b = (\<forall>n. bit_a \<le> n \<and> n \<le> bit_b \<longrightarrow> \<not> bitmap_isset b n)"
  unfolding bitmap_isset_bit range_chunks [OF assms, of "\<lambda>i p. \<not> bit (b ! i) (31 - p)"]
    bitmap_range_isclear_def Let_def chunks_all_iff chunk_clear_bits
  by (cases "bit_a div 32 = bit_b div 32")
    (simp_all add: chunk_test_clear [OF mod_32_less mod_32_less] Suc_le_eq conj_comms, auto)

lemma length_bitmap_range_set [simp]: "length (bitmap_range_set b bit_a bit_b) = length b"
  by (simp add: bitmap_range_set_def Let_def)

lemma length_bitmap_range_clear [simp]: "length (bitmap_range_clear b bit_a bit_b) = length b"
  by (simp add: bitmap_range_clear_def Let_def)

lemma in_range_chunks:
  fixes a z n :: nat
  shows "(a \<le> n \<and> n \<le> z) \<longleftrightarrow>
    (a div 32 < n div 32 \<or> (n div 32 = a div 32 \<and> a mod 32 \<le> n mod 32)) \<and>
    (n div 32 < z div 32 \<or> (z div 32 = n div 32 \<and> n mod 32 \<le> z mod 32))"
  using chunk_order [of "a mod 32" "n mod 32" "a div 32" "n div 32"]
    chunk_order [of "n mod 32" "z mod 32" "n div 32" "z div 32"] by simp

lemma bitmap_isset_range_set:
  assumes "bit_a \<le> bit_b" "bit_b < 32 * length b" "n < 32 * length b"
  shows "bitmap_isset (bitmap_range_set b bit_a bit_b) n = (bitmap_isset b n \<or> (bit_a \<le> n \<and> n \<le> bit_b))"
proof -
  have len: "bit_a div 32 < length b" "bit_b div 32 < length b" "n div 32 < length b"
    and le: "bit_a div 32 \<le> bit_b div 32"
    using assms by (auto simp: div_le_mono)
  show ?thesis
    unfolding in_range_chunks bitmap_isset_bit
    using len le by (cases "bit_a div 32 = bit_b div 32")
      (auto simp: bitmap_range_set_def Let_def nth_list_update nth_chunks_fill bit_or_iff bit_and_iff
        bit_mask_from bit_mask_upto bit_mask_set)
qed

lemma bitmap_isset_range_clear:
  assumes "bit_a \<le> bit_b" "bit_b < 32 * length b" "n < 32 * length b"
  shows "bitmap_isset (bitmap_range_clear b bit_a bit_b) n = (bitmap_isset b n \<and> \<not> (bit_a \<le> n \<and> n \<le> bit_b))"
proof -
  have len: "bit_a div 32 < length b" "bit_b div 32 < length b" "n div 32 < length b"
    and le: "bit_a div 32 \<le> bit_b div 32"
    using assms by (auto simp: div_le_mono)
  show ?thesis
    unfolding in_range_chunks bitmap_isset_bit
    using len le by (cases "bit_a div 32 = bit_b div 32")
      (auto simp: bitmap_range_clear_def Let_def nth_list_update nth_chunks_fill bit_not_iff bit_and_iff bit_or_iff
        less_imp_diff_less bit_mask_from bit_mask_upto BITMAP_MASK_CLEAR_def)
qed

subsection \<open>The contract of a bit array with range operations\<close>

text \<open>
  The abstract view is the set of the indices whose bit is set. A client that
  reserves and releases runs of bits needs only these laws.
\<close>

locale range_bits =
  fixes bits :: "'b \<Rightarrow> nat set"
    and cap :: "'b \<Rightarrow> nat"
    and isset :: "'b \<Rightarrow> nat \<Rightarrow> nat \<Rightarrow> bool"
    and set_range :: "'b \<Rightarrow> nat \<Rightarrow> nat \<Rightarrow> 'b"
    and clear_range :: "'b \<Rightarrow> nat \<Rightarrow> nat \<Rightarrow> 'b"
  assumes bits_bound: "bits b \<subseteq> {..<cap b}"
    and isset_iff: "a \<le> z \<Longrightarrow> z < cap b \<Longrightarrow> isset b a z = ({a..z} \<subseteq> bits b)"
    and bits_set_range: "a \<le> z \<Longrightarrow> z < cap b \<Longrightarrow> bits (set_range b a z) = bits b \<union> {a..z}"
    and bits_clear_range: "a \<le> z \<Longrightarrow> z < cap b \<Longrightarrow> bits (clear_range b a z) = bits b - {a..z}"
    and cap_set_range: "cap (set_range b a z) = cap b"
    and cap_clear_range: "cap (clear_range b a z) = cap b"
begin

lemma finite_bits: "finite (bits b)"
  using bits_bound finite_lessThan by (rule finite_subset)

lemma card_clear_range:
  assumes "a \<le> z" "z < cap b" "{a..z} \<subseteq> bits b"
  shows "card (bits (clear_range b a z)) + (z + 1 - a) = card (bits b)"
proof -
  have "card (bits b - {a..z}) = card (bits b) - card {a..z}"
    by (rule card_Diff_subset) (use assms in auto)
  moreover have "card {a..z} \<le> card (bits b)"
    using assms(3) by (rule card_mono [OF finite_bits])
  ultimately show ?thesis
    using assms by (simp add: bits_clear_range)
qed

lemma card_set_range:
  assumes "a \<le> z" "z < cap b" "{a..z} \<inter> bits b = {}"
  shows "card (bits (set_range b a z)) = card (bits b) + (z + 1 - a)"
proof -
  have "card (bits b \<union> {a..z}) = card (bits b) + card {a..z}"
    by (rule card_Un_disjoint) (use assms finite_bits in auto)
  then show ?thesis
    using assms by (simp add: bits_set_range)
qed

lemma set_clear_range:
  assumes "a \<le> z" "z < cap b" "{a..z} \<subseteq> bits b"
  shows "bits (set_range (clear_range b a z) a z) = bits b"
  using assms by (auto simp: bits_set_range bits_clear_range cap_clear_range)

end

definition bitmap_bits :: "bitmap \<Rightarrow> nat set" where
  "bitmap_bits b = {n. n < 32 * length b \<and> bitmap_isset b n}"

interpretation bm: range_bits bitmap_bits "\<lambda>b. 32 * length b" bitmap_range_isset bitmap_range_set
  bitmap_range_clear
  by unfold_locales
    (auto simp: bitmap_bits_def bitmap_range_isset_iff bitmap_isset_range_set bitmap_isset_range_clear)

end
