(* ===== verification/Pdma.thy ===== *)
theory Pdma
  imports Bitmap
begin

text \<open>
  The allocator of physically contiguous pages below 16 MiB,
  \<^verbatim>\<open>kernel/mm/pdma.c\<close>. A set bit of the bitmap is a free page. The state record
  holds the four static variables of the file; the spinlock makes each
  operation atomic, so an operation is one function on the state. Physical
  addresses and page numbers are \<open>nat\<close>: the guard on \<^verbatim>\<open>pdma_numpages\<close> keeps them
  below the 16 MiB the allocator tracks.
\<close>

record pdma =
  pdma_bitmap :: bitmap
  pdma_numpages :: nat
  pdma_numused :: u64
  pdma_lastpage :: nat

abbreviation (input) page_bytes :: nat where
  "page_bytes \<equiv> 4096"

function find_free_range :: "bitmap \<Rightarrow> nat \<Rightarrow> nat \<Rightarrow> nat \<Rightarrow> nat option" where
  "find_free_range bitmap page final num_pages =
     (if page \<le> final then
        if bitmap_range_isset bitmap page (page + num_pages - 1) then Some page
        else find_free_range bitmap (page + 1) final num_pages
      else None)"
  by pat_completeness auto
termination
  by (relation "measure (\<lambda>(_, page, final, _). Suc final - page)") auto

declare find_free_range.simps [simp del]

definition pdma_alloc_phys :: "nat \<Rightarrow> pdma \<Rightarrow> nat \<times> pdma" where
  "pdma_alloc_phys num_pages s =
     (if num_pages = 0 \<or> num_pages > pdma_numpages s then (0, s)
      else
        let last_start = pdma_numpages s - num_pages;
            hint = (if pdma_lastpage s \<le> last_start then pdma_lastpage s else 0);
            page = find_free_range (pdma_bitmap s) hint last_start num_pages;
            page = (if page = None \<and> hint > 0
                    then find_free_range (pdma_bitmap s) 0 (hint - 1) num_pages else page)
        in case page of
             None \<Rightarrow> (0, s)
           | Some page \<Rightarrow>
               (page * page_bytes,
                s\<lparr>pdma_bitmap := bitmap_range_clear (pdma_bitmap s) page (page + num_pages - 1),
                  pdma_lastpage := page + num_pages,
                  pdma_numused := pdma_numused s + of_nat num_pages\<rparr>))"

definition pdma_free_phys :: "nat \<Rightarrow> nat \<Rightarrow> pdma \<Rightarrow> pdma" where
  "pdma_free_phys phys num_pages s =
     (let page = phys div page_bytes
      in if phys \<noteq> 0 \<and> num_pages \<noteq> 0 then
           s\<lparr>pdma_bitmap := bitmap_range_set (pdma_bitmap s) page (page + num_pages - 1),
             pdma_numused := pdma_numused s - of_nat num_pages,
             pdma_lastpage := page\<rparr>
         else s)"

text \<open>The virtual variants go through the direct map at the offset \<open>hhdm\<close>; address 0 is the null pointer.\<close>

definition pdma_alloc_virt :: "nat \<Rightarrow> nat \<Rightarrow> pdma \<Rightarrow> nat \<times> pdma" where
  "pdma_alloc_virt hhdm num_pages s =
     (case pdma_alloc_phys num_pages s of
        (address, s') \<Rightarrow> if address = 0 then (0, s') else (address + hhdm, s'))"

definition pdma_free_virt :: "nat \<Rightarrow> nat \<Rightarrow> nat \<Rightarrow> pdma \<Rightarrow> pdma" where
  "pdma_free_virt hhdm virt num_pages s =
     (if virt \<noteq> 0 then pdma_free_phys (virt - hhdm) num_pages s else s)"

subsection \<open>Invariant and the search loop\<close>

definition pdma_free_pages :: "pdma \<Rightarrow> nat set" where
  "pdma_free_pages s = bitmap_bits (pdma_bitmap s)"

text \<open>
  The bitmap covers exactly the tracked pages, and page 0 is never free: address 0
  is how the allocator reports failure.
\<close>

definition pdma_inv :: "pdma \<Rightarrow> bool" where
  "pdma_inv s \<longleftrightarrow> 32 * length (pdma_bitmap s) = pdma_numpages s \<and> 0 \<notin> pdma_free_pages s"

lemma find_free_range_Some:
  assumes "find_free_range b first final n = Some page"
  shows "first \<le> page \<and> page \<le> final \<and> bitmap_range_isset b page (page + n - 1)"
  using assms
proof (induction b first final n rule: find_free_range.induct)
  case (1 b page' final n)
  then show ?case
    by (subst (asm) (2) find_free_range.simps) (auto split: if_splits)
qed

lemma find_free_range_None:
  assumes "find_free_range b first final n = None" "first \<le> page" "page \<le> final"
  shows "\<not> bitmap_range_isset b page (page + n - 1)"
  using assms
proof (induction b first final n rule: find_free_range.induct)
  case (1 b page' final n)
  then show ?case
    by (subst (asm) (2) find_free_range.simps) (auto split: if_splits simp: Suc_le_eq nat_less_le)
qed

lemma pdma_run_isset_iff:
  assumes "pdma_inv s" "0 < n" "page + n \<le> pdma_numpages s"
  shows "bitmap_range_isset (pdma_bitmap s) page (page + n - 1) = ({page..<page + n} \<subseteq> pdma_free_pages s)"
proof -
  have "{page..page + n - 1} = {page..<page + n}" "page \<le> page + n - 1"
      "page + n - 1 < 32 * length (pdma_bitmap s)"
    using assms by (auto simp: pdma_inv_def)
  then show ?thesis
    using bm.isset_iff by (simp add: pdma_free_pages_def)
qed

definition pdma_search :: "bitmap \<Rightarrow> nat \<Rightarrow> nat \<Rightarrow> nat \<Rightarrow> nat option" where
  "pdma_search b hint last_start n =
     (let page = find_free_range b hint last_start n
      in if page = None \<and> 0 < hint then find_free_range b 0 (hint - 1) n else page)"

lemma pdma_search_Some:
  "pdma_search b hint last_start n = Some page \<Longrightarrow> hint \<le> last_start \<Longrightarrow>
    page \<le> last_start \<and> bitmap_range_isset b page (page + n - 1)"
  by (auto simp: pdma_search_def Let_def split: if_splits dest!: find_free_range_Some)

lemma pdma_search_None:
  assumes "pdma_search b hint last_start n = None" "page \<le> last_start"
  shows "\<not> bitmap_range_isset b page (page + n - 1)"
proof (cases "hint \<le> page")
  case True
  then show ?thesis
    using assms find_free_range_None [of b hint last_start n page]
    by (simp add: pdma_search_def Let_def split: if_splits)
next
  case False
  then show ?thesis
    using assms find_free_range_None [of b 0 "hint - 1" n page]
    by (auto simp: pdma_search_def Let_def split: if_splits)
qed

lemma pdma_alloc_phys_cases:
  assumes inv: "pdma_inv s" and alloc: "pdma_alloc_phys n s = (addr, s')"
  obtains (fail) "addr = 0" "s' = s"
      "\<And>page. 0 < n \<Longrightarrow> page + n \<le> pdma_numpages s \<Longrightarrow> \<not> {page..<page + n} \<subseteq> pdma_free_pages s"
    | (ok) page where "addr = page * 4096" "0 < n" "page + n \<le> pdma_numpages s"
      "{page..<page + n} \<subseteq> pdma_free_pages s"
      "s' = s\<lparr>pdma_bitmap := bitmap_range_clear (pdma_bitmap s) page (page + n - 1),
              pdma_lastpage := page + n, pdma_numused := pdma_numused s + of_nat n\<rparr>"
proof (cases "n = 0 \<or> pdma_numpages s < n")
  case True
  then show ?thesis
    using alloc fail by (auto simp: pdma_alloc_phys_def)
next
  case n: False
  let ?b = "pdma_bitmap s"
  let ?last = "pdma_numpages s - n"
  let ?hint = "if pdma_lastpage s \<le> ?last then pdma_lastpage s else 0"
  have bound: "page \<le> ?last \<longleftrightarrow> page + n \<le> pdma_numpages s" for page
    using n by auto
  have alloc': "pdma_alloc_phys n s = (case pdma_search ?b ?hint ?last n of None \<Rightarrow> (0, s)
      | Some page \<Rightarrow> (page * 4096, s\<lparr>pdma_bitmap := bitmap_range_clear ?b page (page + n - 1),
           pdma_lastpage := page + n, pdma_numused := pdma_numused s + of_nat n\<rparr>))"
    unfolding pdma_alloc_phys_def pdma_search_def Let_def by (simp only: n if_False)
  show ?thesis
  proof (cases "pdma_search ?b ?hint ?last n")
    case None
    then show ?thesis
      using fail alloc alloc' pdma_search_None [OF None] pdma_run_isset_iff [OF inv] bound by auto
  next
    case (Some page)
    then have "page \<le> ?last \<and> bitmap_range_isset ?b page (page + n - 1)"
      by (rule pdma_search_Some) simp
    then show ?thesis
      using ok [of page] alloc alloc' Some n pdma_run_isset_iff [OF inv, of n page] bound by auto
  qed
qed

lemma pdma_free_pages_clear:
  assumes "pdma_inv s" "0 < n" "page + n \<le> pdma_numpages s"
  shows "bitmap_bits (bitmap_range_clear (pdma_bitmap s) page (page + n - 1)) =
    pdma_free_pages s - {page..<page + n}"
proof -
  have "{page..page + n - 1} = {page..<page + n}"
    using assms by auto
  then show ?thesis
    using assms bm.bits_clear_range [of page "page + n - 1" "pdma_bitmap s"]
    by (auto simp: pdma_free_pages_def pdma_inv_def)
qed

lemma pdma_free_pages_set:
  assumes "pdma_inv s" "0 < n" "page + n \<le> pdma_numpages s"
  shows "bitmap_bits (bitmap_range_set (pdma_bitmap s) page (page + n - 1)) =
    pdma_free_pages s \<union> {page..<page + n}"
proof -
  have "{page..page + n - 1} = {page..<page + n}"
    using assms by auto
  then show ?thesis
    using assms bm.bits_set_range [of page "page + n - 1" "pdma_bitmap s"]
    by (auto simp: pdma_free_pages_def pdma_inv_def)
qed

text \<open>
  The pages of a block that starts at the physical address \<open>addr\<close>.
\<close>

definition block_pages :: "nat \<Rightarrow> nat \<Rightarrow> nat set" where
  "block_pages addr n = {addr div 4096..<addr div 4096 + n}"

lemma pdma_alloc_ok:
  assumes "pdma_inv s" "pdma_alloc_phys n s = (addr, s')" "addr \<noteq> 0"
  shows "pdma_inv s' \<and> 0 < n \<and> addr mod 4096 = 0 \<and> addr div 4096 + n \<le> pdma_numpages s \<and>
    pdma_numpages s' = pdma_numpages s \<and> block_pages addr n \<subseteq> pdma_free_pages s \<and>
    pdma_free_pages s' = pdma_free_pages s - block_pages addr n \<and>
    pdma_numused s' = pdma_numused s + of_nat n"
proof (rule pdma_alloc_phys_cases [OF assms(1,2)])
  fix page
  assume "addr = page * 4096" "0 < n" "page + n \<le> pdma_numpages s"
    "{page..<page + n} \<subseteq> pdma_free_pages s"
    "s' = s\<lparr>pdma_bitmap := bitmap_range_clear (pdma_bitmap s) page (page + n - 1),
            pdma_lastpage := page + n, pdma_numused := pdma_numused s + of_nat n\<rparr>"
  then show ?thesis
    using assms(1) pdma_free_pages_clear [OF assms(1), of n page]
    by (simp add: pdma_inv_def block_pages_def pdma_free_pages_def)
qed (use assms(3) in simp)

lemma pdma_free_ok:
  assumes "pdma_inv s" "addr mod 4096 = 0" "addr \<noteq> 0" "0 < n" "addr div 4096 + n \<le> pdma_numpages s"
  shows "pdma_inv (pdma_free_phys addr n s)"
    and "pdma_free_pages (pdma_free_phys addr n s) = pdma_free_pages s \<union> block_pages addr n"
    and "pdma_numused (pdma_free_phys addr n s) = pdma_numused s - of_nat n"
    and "pdma_numpages (pdma_free_phys addr n s) = pdma_numpages s"
proof -
  have "0 < addr div 4096"
    using assms(2,3) by (metis add_0_right bot_nat_0.not_eq_extremum mult_0_right mult_div_mod_eq)
  then show "pdma_inv (pdma_free_phys addr n s)"
    "pdma_free_pages (pdma_free_phys addr n s) = pdma_free_pages s \<union> block_pages addr n"
    "pdma_numused (pdma_free_phys addr n s) = pdma_numused s - of_nat n"
    "pdma_numpages (pdma_free_phys addr n s) = pdma_numpages s"
    using assms pdma_free_pages_set [OF assms(1,4,5)]
    by (auto simp: pdma_free_phys_def Let_def pdma_inv_def block_pages_def pdma_free_pages_def)
qed

subsection \<open>Histories of allocations and releases\<close>

text \<open>
  A history pairs the allocator with the blocks its callers hold. Callers may
  allocate at any time, and release a block they hold.
\<close>

type_synonym block = "nat \<times> nat"

inductive pdma_reach :: "pdma \<Rightarrow> pdma \<Rightarrow> block list \<Rightarrow> bool" for s\<^sub>0 where
  start: "pdma_reach s\<^sub>0 s\<^sub>0 []"
| alloc: "pdma_reach s\<^sub>0 s live \<Longrightarrow> pdma_alloc_phys n s = (addr, s') \<Longrightarrow> addr \<noteq> 0 \<Longrightarrow>
    pdma_reach s\<^sub>0 s' ((addr, n) # live)"
| refused: "pdma_reach s\<^sub>0 s live \<Longrightarrow> pdma_alloc_phys n s = (0, s') \<Longrightarrow> pdma_reach s\<^sub>0 s' live"
| release: "pdma_reach s\<^sub>0 s (xs @ (addr, n) # ys) \<Longrightarrow>
    pdma_reach s\<^sub>0 (pdma_free_phys addr n s) (xs @ ys)"

definition held_pages :: "block list \<Rightarrow> nat set" where
  "held_pages live = (\<Union>(addr, n)\<in>set live. block_pages addr n)"

definition disjoint_blocks :: "block list \<Rightarrow> bool" where
  "disjoint_blocks live =
     sorted_wrt (\<lambda>(a, n) (b, m). block_pages a n \<inter> block_pages b m = {}) live"

definition valid_block :: "pdma \<Rightarrow> block \<Rightarrow> bool" where
  "valid_block s = (\<lambda>(addr, n). addr \<noteq> 0 \<and> addr mod 4096 = 0 \<and> 0 < n \<and> addr div 4096 + n \<le> pdma_numpages s)"

definition pdma_history_inv :: "pdma \<Rightarrow> pdma \<Rightarrow> block list \<Rightarrow> bool" where
  "pdma_history_inv s\<^sub>0 s live \<longleftrightarrow>
     pdma_inv s \<and> pdma_numpages s = pdma_numpages s\<^sub>0 \<and> (\<forall>b\<in>set live. valid_block s b) \<and>
     disjoint_blocks live \<and> pdma_free_pages s \<inter> held_pages live = {} \<and>
     pdma_free_pages s \<union> held_pages live = pdma_free_pages s\<^sub>0 \<and>
     pdma_numused s = pdma_numused s\<^sub>0 + of_nat (\<Sum>(addr, n)\<leftarrow>live. n)"

lemma held_pages_simps [simp]:
  "held_pages [] = {}"
  "held_pages ((addr, n) # live) = block_pages addr n \<union> held_pages live"
  "held_pages (xs @ ys) = held_pages xs \<union> held_pages ys"
  by (auto simp: held_pages_def)

lemma disjoint_blocks_Cons:
  "disjoint_blocks ((addr, n) # live) \<longleftrightarrow> block_pages addr n \<inter> held_pages live = {} \<and> disjoint_blocks live"
  by (auto simp: disjoint_blocks_def held_pages_def)

lemma disjoint_blocks_remove:
  assumes "disjoint_blocks (xs @ (addr, n) # ys)"
  shows "disjoint_blocks (xs @ ys)" and "block_pages addr n \<inter> held_pages (xs @ ys) = {}"
  using assms by (auto simp: disjoint_blocks_def sorted_wrt_append held_pages_def)

lemma pdma_alloc_refused:
  assumes "pdma_inv s" "pdma_alloc_phys n s = (0, s')"
  shows "s' = s"
proof (rule pdma_alloc_phys_cases [OF assms])
  fix page
  assume page: "0 = page * 4096" "0 < n" "{page..<page + n} \<subseteq> pdma_free_pages s"
  then have "0 \<in> pdma_free_pages s" by auto
  then show ?thesis
    using assms(1) by (simp add: pdma_inv_def)
qed

lemma valid_block_cong: "pdma_numpages s' = pdma_numpages s \<Longrightarrow> valid_block s' b = valid_block s b"
  by (simp add: valid_block_def)

lemma pdma_history_alloc:
  assumes "pdma_history_inv s\<^sub>0 s live" "pdma_alloc_phys n s = (addr, s')" "addr \<noteq> 0"
  shows "pdma_history_inv s\<^sub>0 s' ((addr, n) # live)"
  using assms(1) pdma_alloc_ok [OF _ assms(2,3)]
  by (auto simp: pdma_history_inv_def valid_block_def disjoint_blocks_Cons assms(3))

lemma pdma_history_release:
  assumes "pdma_history_inv s\<^sub>0 s (xs @ (addr, n) # ys)"
  shows "pdma_history_inv s\<^sub>0 (pdma_free_phys addr n s) (xs @ ys)"
proof -
  have inv: "pdma_inv s" and valid: "valid_block s (addr, n)"
    and disj: "disjoint_blocks (xs @ (addr, n) # ys)"
    using assms by (auto simp: pdma_history_inv_def)
  have valid': "addr mod 4096 = 0" "addr \<noteq> 0" "0 < n" "addr div 4096 + n \<le> pdma_numpages s"
    using valid by (auto simp: valid_block_def)
  show ?thesis
    using assms pdma_free_ok [OF inv valid'] disjoint_blocks_remove [OF disj]
      valid_block_cong [OF pdma_free_ok(4) [OF inv valid']]
    by (auto simp: pdma_history_inv_def)
qed

lemma pdma_reach_inv:
  assumes "pdma_reach s\<^sub>0 s live" "pdma_inv s\<^sub>0"
  shows "pdma_history_inv s\<^sub>0 s live"
  using assms
proof (induction rule: pdma_reach.induct)
  case start
  then show ?case
    by (simp add: pdma_history_inv_def disjoint_blocks_def)
next
  case (refused s live n s')
  then show ?case
    using pdma_alloc_refused [of s n s'] by (auto simp: pdma_history_inv_def)
qed (auto intro: pdma_history_alloc pdma_history_release)

subsection \<open>Properties\<close>

text \<open>
  A small allocator state for the witnesses: 32 tracked pages, all but page 0 free.
\<close>

definition pdma_example :: pdma where
  "pdma_example = \<lparr>pdma_bitmap = [0x7FFFFFFF], pdma_numpages = 32, pdma_numused = 0, pdma_lastpage = 0\<rparr>"

lemma pdma_example_inv: "pdma_inv pdma_example"
  by (simp add: pdma_inv_def pdma_example_def pdma_free_pages_def bitmap_bits_def bitmap_isset_bit)

text \<open>
  C23: an allocation that returns a non-zero address has found \<open>n\<close> contiguous pages,
  page-aligned and inside the tracked range, every one of them free before; afterwards
  exactly these pages have left the free set and the used count has grown by \<open>n\<close>.
\<close>

theorem pdma_alloc_sound:
  assumes "pdma_inv s" "pdma_alloc_phys n s = (addr, s')" "addr \<noteq> 0"
  shows "0 < n \<and> addr mod 4096 = 0 \<and> addr div 4096 + n \<le> pdma_numpages s \<and>
    block_pages addr n \<subseteq> pdma_free_pages s \<and>
    pdma_free_pages s' = pdma_free_pages s - block_pages addr n \<and>
    pdma_numused s' = pdma_numused s + of_nat n \<and> pdma_inv s'"
  using pdma_alloc_ok [OF assms] by blast

theorem pdma_alloc_sound_witness:
  "case pdma_alloc_phys 3 pdma_example of (addr, s') \<Rightarrow>
     addr = 4096 \<and> block_pages addr 3 \<subseteq> pdma_free_pages pdma_example \<and> pdma_inv s'"
proof -
  have a: "pdma_alloc_phys 3 pdma_example =
      (4096, pdma_example\<lparr>pdma_bitmap := [0x0FFFFFFF], pdma_lastpage := 4, pdma_numused := 3\<rparr>)"
    by code_simp
  show ?thesis
    using pdma_alloc_sound [OF pdma_example_inv a] by (simp add: a)
qed

text \<open>
  C24: the search from the hint and its wrap-around miss nothing: whenever some run of
  \<open>n\<close> free pages exists, the allocation succeeds.
\<close>

theorem pdma_alloc_complete:
  assumes "pdma_inv s" "0 < n" "{page..<page + n} \<subseteq> pdma_free_pages s"
  shows "fst (pdma_alloc_phys n s) \<noteq> 0"
proof -
  have "page + n - 1 \<in> pdma_free_pages s"
    using assms(2,3) by auto
  then have le: "page + n \<le> pdma_numpages s"
    using assms(1,2) by (auto simp: pdma_inv_def pdma_free_pages_def bitmap_bits_def)
  obtain addr s' where r: "pdma_alloc_phys n s = (addr, s')"
    by fastforce
  show ?thesis
  proof (rule pdma_alloc_phys_cases [OF assms(1) r])
    fix page'
    assume "addr = page' * 4096" "{page'..<page' + n} \<subseteq> pdma_free_pages s"
    moreover have "page' \<in> {page'..<page' + n}"
      using assms(2) by simp
    moreover have "page' \<noteq> 0"
      using calculation(2,3) assms(1) unfolding pdma_inv_def by (metis subsetD)
    ultimately show ?thesis
      by (simp add: r)
  qed (use assms le in blast)
qed

theorem pdma_alloc_complete_witness: "fst (pdma_alloc_phys 31 pdma_example) \<noteq> 0"
proof -
  have "bitmap_range_isset [0x7FFFFFFF] 1 31"
    by code_simp
  then have "{1..<1 + 31} \<subseteq> pdma_free_pages pdma_example"
    using bm.isset_iff [of 1 31 "[0x7FFFFFFF]"] by (auto simp: pdma_free_pages_def pdma_example_def)
  then show ?thesis
    using pdma_alloc_complete [OF pdma_example_inv, of 31 1] by simp
qed

text \<open>
  C10: over any history of allocations, refusals and releases, the blocks callers hold
  are pairwise disjoint and disjoint from the free pages, together they make up the
  initially free pages (none leaks), and the used count is the total size of the held
  blocks (in 64-bit arithmetic).
\<close>

theorem pdma_no_double_allocation:
  assumes "pdma_reach s\<^sub>0 s live" "pdma_inv s\<^sub>0"
  shows "disjoint_blocks live \<and> pdma_free_pages s \<inter> held_pages live = {} \<and>
    pdma_free_pages s \<union> held_pages live = pdma_free_pages s\<^sub>0 \<and>
    pdma_numused s = pdma_numused s\<^sub>0 + of_nat (\<Sum>(addr, n)\<leftarrow>live. n)"
  using pdma_reach_inv [OF assms] by (simp add: pdma_history_inv_def)

theorem pdma_no_double_allocation_witness:
  "\<exists>s. pdma_reach pdma_example s [(16384, 2), (4096, 3)] \<and> disjoint_blocks [(16384, 2), (4096, 3)] \<and>
     pdma_numused s = 5"
proof -
  define s1 where "s1 = pdma_example\<lparr>pdma_bitmap := [0x0FFFFFFF], pdma_lastpage := 4, pdma_numused := 3\<rparr>"
  define s2 where "s2 = pdma_example\<lparr>pdma_bitmap := [0x03FFFFFF], pdma_lastpage := 6, pdma_numused := 5\<rparr>"
  have "pdma_alloc_phys 3 pdma_example = (4096, s1)"
    unfolding s1_def by code_simp
  then have "pdma_reach pdma_example s1 [(4096, 3)]"
    by (rule pdma_reach.alloc [OF pdma_reach.start]) simp
  moreover have "pdma_alloc_phys 2 s1 = (16384, s2)"
    unfolding s1_def s2_def by code_simp
  ultimately have r: "pdma_reach pdma_example s2 [(16384, 2), (4096, 3)]"
    by (rule pdma_reach.alloc) simp
  show ?thesis
    using r pdma_no_double_allocation [OF r pdma_example_inv] by (auto simp: s2_def)
qed

text \<open>
  releasing a block right after allocating it gives back the free pages and the
  used count of the state before.
\<close>

theorem pdma_free_alloc:
  assumes "pdma_inv s" "pdma_alloc_phys n s = (addr, s')" "addr \<noteq> 0"
  shows "pdma_free_pages (pdma_free_phys addr n s') = pdma_free_pages s \<and>
    pdma_numused (pdma_free_phys addr n s') = pdma_numused s \<and> pdma_inv (pdma_free_phys addr n s')"
proof -
  note ok = pdma_alloc_ok [OF assms]
  then have "pdma_inv s'" "addr mod 4096 = 0" "0 < n" "addr div 4096 + n \<le> pdma_numpages s'"
    by auto
  then show ?thesis
    using ok pdma_free_ok [of s' addr n] assms(3) by auto
qed

theorem pdma_free_alloc_witness:
  "case pdma_alloc_phys 3 pdma_example of (addr, s') \<Rightarrow> addr = 4096 \<and>
     pdma_free_pages (pdma_free_phys addr 3 s') = pdma_free_pages pdma_example"
proof -
  have a: "pdma_alloc_phys 3 pdma_example =
      (4096, pdma_example\<lparr>pdma_bitmap := [0x0FFFFFFF], pdma_lastpage := 4, pdma_numused := 3\<rparr>)"
    by code_simp
  show ?thesis
    using pdma_free_alloc [OF pdma_example_inv a] by (simp add: a)
qed

end
