(* ===== verification/Radix.thy ===== *)
theory Radix
  imports Vex_Prelude
begin

text \<open>
  The radix tree of \<^verbatim>\<open>kernel/libk/radix.c\<close>, which maps 64-bit indices to items with
  six index bits per level. A slot is a null pointer, an item, or a node with its 64
  slots and its count of used slots. \<^verbatim>\<open>slab_alloc\<close> may fail; as an insertion returns at
  the first failure, all its behaviours are covered by the number \<open>mem\<close> of allocations
  that succeed before one fails. Freeing a node is dropping it.

  The locale \<open>index_map\<close> is the contract of the tree, a partial map from indices to
  items; its interpretation at the end is the refinement of that map by the tree.
\<close>

datatype 'a slot = Null | Item 'a | Node (slots: "'a slot list") (count: nat)

record 'a radix_tree =
  root :: "'a slot"
  height :: nat

abbreviation (input) RADIX_SHIFT :: nat where
  "RADIX_SHIFT \<equiv> 6"

abbreviation (input) RADIX_SLOTS :: nat where
  "RADIX_SLOTS \<equiv> 64"

definition RADIX_MASK :: u64 where
  "RADIX_MASK = 63"

definition fits :: "nat \<Rightarrow> u64 \<Rightarrow> bool" where
  "fits h index = (let bits = h * RADIX_SHIFT in bits \<ge> 64 \<or> drop_bit bits index = 0)"

definition slot_of :: "nat \<Rightarrow> u64 \<Rightarrow> nat" where
  "slot_of level index = unat (drop_bit ((level - 1) * RADIX_SHIFT) index AND RADIX_MASK)"

text \<open>A node fresh from \<^verbatim>\<open>slab_alloc\<close>, which zeroes what it returns.\<close>

definition new_node :: "'a slot" where
  "new_node = Node (replicate RADIX_SLOTS Null) 0"

definition radix_init :: "'a radix_tree" where
  "radix_init = \<lparr>root = Null, height = 0\<rparr>"

definition radix_deinit :: "'a radix_tree \<Rightarrow> 'a radix_tree" where
  "radix_deinit tree = radix_init"

text \<open>The descent of \<^verbatim>\<open>radix_lookup\<close> from a node at \<open>level\<close>.\<close>

fun lookup_from :: "nat \<Rightarrow> 'a slot \<Rightarrow> u64 \<Rightarrow> 'a slot" where
  "lookup_from level node index =
     (if level > 1 then
        let node = slots node ! slot_of level index
        in if node = Null then Null else lookup_from (level - 1) node index
      else slots node ! unat (index AND RADIX_MASK))"

declare lookup_from.simps [simp del]

definition item_of :: "'a slot \<Rightarrow> 'a option" where
  "item_of s = (case s of Item x \<Rightarrow> Some x | _ \<Rightarrow> None)"

definition radix_lookup :: "'a radix_tree \<Rightarrow> u64 \<Rightarrow> 'a option" where
  "radix_lookup tree index =
     (if root tree = Null \<or> \<not> fits (height tree) index then None
      else item_of (lookup_from (height tree) (root tree) index))"

text \<open>The loop that picks the height of a first node, and the one that grows the tree.\<close>

function first_height :: "nat \<Rightarrow> u64 \<Rightarrow> nat" where
  "first_height h index = (if \<not> fits h index then first_height (h + 1) index else h)"
  by pat_completeness auto
termination
  by (relation "measure (\<lambda>(h, _). 64 - h)") (auto simp: fits_def Let_def)

function grow :: "nat \<Rightarrow> 'a radix_tree \<Rightarrow> u64 \<Rightarrow> nat result \<times> 'a radix_tree" where
  "grow mem tree index =
     (if \<not> fits (height tree) index then
        if mem = 0 then (Inl ENOMEM, tree)
        else grow (mem - 1) (tree\<lparr>root := Node ((slots new_node)[0 := root tree]) 1,
                                  height := height tree + 1\<rparr>) index
      else (Inr mem, tree))"
  by pat_completeness auto
termination
  by (relation "measure fst") auto

declare first_height.simps [simp del] grow.simps [simp del]

text \<open>The descent of \<^verbatim>\<open>radix_insert\<close>; the updated node is what the writes through the pointers leave.\<close>

fun insert_from :: "nat \<Rightarrow> nat \<Rightarrow> 'a slot \<Rightarrow> u64 \<Rightarrow> 'a \<Rightarrow> unit result \<times> 'a slot" where
  "insert_from mem level node index item =
     (if level > 1 then
        let slot = slot_of level index; child = slots node ! slot
        in if child = Null then
             if mem = 0 then (Inl ENOMEM, node)
             else case insert_from (mem - 1) (level - 1) new_node index item of
                    (r, child) \<Rightarrow> (r, Node ((slots node)[slot := child]) (count node + 1))
           else case insert_from mem (level - 1) child index item of
                  (r, child) \<Rightarrow> (r, Node ((slots node)[slot := child]) (count node))
      else
        let slot = unat (index AND RADIX_MASK)
        in if slots node ! slot \<noteq> Null then (Inl EEXIST, node)
           else (Inr (), Node ((slots node)[slot := Item item]) (count node + 1)))"

declare insert_from.simps [simp del]

definition radix_insert :: "nat \<Rightarrow> 'a radix_tree \<Rightarrow> u64 \<Rightarrow> 'a \<Rightarrow> unit result \<times> 'a radix_tree" where
  "radix_insert mem tree index item =
     (let (r, tree) =
        (if root tree = Null then
           if mem = 0 then (Inl ENOMEM, tree)
           else (Inr (mem - 1), tree\<lparr>root := new_node, height := first_height 1 index\<rparr>)
         else (Inr mem, tree))
      in case r of Inl e \<Rightarrow> (Inl e, tree) | Inr mem \<Rightarrow>
        (case grow mem tree index of
           (Inl e, tree) \<Rightarrow> (Inl e, tree)
         | (Inr mem, tree) \<Rightarrow>
             (case insert_from mem (height tree) (root tree) index item of
                (r, node) \<Rightarrow> (r, tree\<lparr>root := node\<rparr>))))"

text \<open>
  The descent of \<^verbatim>\<open>radix_remove\<close> and its way back: the flag says that the loop which
  unlinks empty nodes is still running when it reaches the caller's level.
\<close>

fun remove_from :: "nat \<Rightarrow> 'a slot \<Rightarrow> u64 \<Rightarrow> 'a option \<times> 'a slot \<times> bool" where
  "remove_from level node index =
     (if level > 1 then
        let slot = slot_of level index; child = slots node ! slot
        in if child = Null then (None, node, False)
           else case remove_from (level - 1) child index of
                  (r, child, unlink) \<Rightarrow>
                    if r = None then (None, node, False)
                    else if unlink \<and> count child = 0 then
                      (r, Node ((slots node)[slot := Null]) (count node - 1), True)
                    else (r, Node ((slots node)[slot := child]) (count node), False)
      else
        let slot = unat (index AND RADIX_MASK)
        in case slots node ! slot of
             Item item \<Rightarrow> (Some item, Node ((slots node)[slot := Null]) (count node - 1), True)
           | _ \<Rightarrow> (None, node, False))"

declare remove_from.simps [simp del]

function shrink :: "'a radix_tree \<Rightarrow> 'a radix_tree" where
  "shrink tree =
     (if height tree > 1 \<and> count (root tree) = 1 \<and> slots (root tree) ! 0 \<noteq> Null
      then shrink (tree\<lparr>root := slots (root tree) ! 0, height := height tree - 1\<rparr>)
      else tree)"
  by pat_completeness auto
termination
  by (relation "measure height") auto

declare shrink.simps [simp del]

definition radix_remove :: "'a radix_tree \<Rightarrow> u64 \<Rightarrow> 'a option \<times> 'a radix_tree" where
  "radix_remove tree index =
     (if root tree = Null \<or> \<not> fits (height tree) index then (None, tree)
      else case remove_from (height tree) (root tree) index of
             (None, _, _) \<Rightarrow> (None, tree)
           | (Some item, node, _) \<Rightarrow>
               if count node = 0 then (Some item, radix_init)
               else (Some item, shrink (tree\<lparr>root := node\<rparr>)))"

lemma size_list_drop: "size_list f (drop n xs) \<le> size_list f xs"
  by (induction xs arbitrary: n) (auto simp: drop_Cons split: nat.split intro: le_SucI trans_le_add2)

text \<open>
  \<^verbatim>\<open>gather_subtree\<close> stores at most \<open>lim\<close> items with their indices; its output arrays are
  the returned list.
\<close>

function (sequential) gather_subtree :: "nat \<Rightarrow> 'a slot \<Rightarrow> u64 \<Rightarrow> u64 \<Rightarrow> nat \<Rightarrow> (u64 \<times> 'a) list"
  and gather_slots :: "nat \<Rightarrow> 'a slot list \<Rightarrow> nat \<Rightarrow> u64 \<Rightarrow> u64 \<Rightarrow> nat \<Rightarrow> (u64 \<times> 'a) list" where
  "gather_subtree level (Node ss n) base start lim =
     (let span_bits = (level - 1) * RADIX_SHIFT
      in if start > base then
           let slot = drop_bit span_bits (start - base)
           in if slot \<ge> 64 then []
              else gather_slots level (drop (unat slot) ss) (unat slot) base start lim
         else gather_slots level ss 0 base start lim)"
| "gather_subtree level Null base start lim = []"
| "gather_subtree level (Item x) base start lim = []"
| "gather_slots level [] i base start lim = []"
| "gather_slots level (s # ss) i base start lim =
     (if lim = 0 then []
      else if s = Null then gather_slots level ss (i + 1) base start lim
      else
        let span_bits = (level - 1) * RADIX_SHIFT;
            child_base = base + push_bit span_bits (of_nat i);
            found = (if level > 1 then gather_subtree (level - 1) s child_base start lim
                     else case s of Item x \<Rightarrow> [(child_base, x)] | _ \<Rightarrow> [])
        in found @ gather_slots level ss (i + 1) base start (lim - length found))"

  by pat_completeness auto
termination
  by (relation "measure (case_sum (\<lambda>(_, s, _). size s) (\<lambda>(_, ss, _). size_list size ss))")
    (auto simp: less_Suc_eq_le intro: size_list_drop)

definition radix_gather :: "'a radix_tree \<Rightarrow> u64 \<Rightarrow> nat \<Rightarrow> (u64 \<times> 'a) list" where
  "radix_gather tree start lim =
     (if root tree = Null \<or> lim = 0 \<or> \<not> fits (height tree) start then []
      else gather_subtree (height tree) (root tree) 0 start lim)"

subsection \<open>Digits of an index\<close>

definition digit :: "nat \<Rightarrow> nat \<Rightarrow> nat" where
  "digit level i = i div 64 ^ (level - 1) mod 64"

lemma digit_less [simp]: "digit level i < 64"
  by (simp add: digit_def)

lemma digit_1: "digit (Suc 0) i = i mod 64"
  by (simp add: digit_def)

lemma mask_63: "(63 :: u64) = mask 6"
  by (simp add: mask_eq_exp_minus_1)

lemma pow_64: "(64 :: nat) ^ n = 2 ^ (n * 6)"
proof -
  have "(2 :: nat) ^ (n * 6) = (2 ^ 6) ^ n"
    by (metis mult.commute power_mult)
  then show ?thesis by simp
qed

lemma slot_of_digit: "slot_of level index = digit level (unat index)"
proof -
  have "unat (drop_bit ((level - 1) * 6) index) = unat index div 64 ^ (level - 1)"
    by (simp only: unat_drop_bit_eq) (simp add: drop_bit_eq_div pow_64)
  then show ?thesis
    using unat_and_mask [of "drop_bit ((level - 1) * 6) index" 6]
    unfolding slot_of_def RADIX_MASK_def mask_63 digit_def by simp
qed

lemma low_slot_digit: "unat (index AND RADIX_MASK) = digit (Suc 0) (unat index)"
  using unat_and_mask [of index 6] by (simp add: RADIX_MASK_def mask_63 digit_def del: mask_numeral)

lemma fits_iff: "fits h index = (unat index < 64 ^ h)"
proof (cases "h * 6 \<ge> 64")
  case True
  then have "(2 :: nat) ^ 64 \<le> 64 ^ h"
    unfolding pow_64 by (intro power_increasing) auto
  then show ?thesis
    using True unat_u64_less [of index] by (simp add: fits_def)
next
  case False
  have "(drop_bit (h * 6) index = 0) = (unat (drop_bit (h * 6) index) = 0)"
    by (simp add: unsigned_eq_0_iff)
  also have "\<dots> = (unat index < 64 ^ h)"
    by (simp only: unat_drop_bit_eq) (simp add: drop_bit_eq_div pow_64 div_eq_0_iff)
  finally show ?thesis
    using False by (simp add: fits_def)
qed

lemma digits_eq:
  assumes "1 < level"
  shows "(i mod 64 ^ level = j mod 64 ^ level) =
    (digit level i = digit level j \<and> i mod 64 ^ (level - 1) = j mod 64 ^ (level - 1))"
proof -
  have pow: "(64 :: nat) ^ level = 64 ^ (level - 1) * 64"
    using assms by (metis One_nat_def Suc_pred less_imp_le_nat mult.commute not_less_eq_eq not_one_le_zero power_Suc zero_less_iff_neq_zero)
  have split: "i mod 64 ^ level = 64 ^ (level - 1) * digit level i + i mod 64 ^ (level - 1)" for i :: nat
    unfolding pow digit_def by (rule mod_mult2_eq)
  have lt: "i mod 64 ^ (level - 1) < 64 ^ (level - 1)" for i :: nat
    by simp
  show ?thesis
  proof
    assume eq: "i mod 64 ^ level = j mod 64 ^ level"
    have "i mod 64 ^ level mod 64 ^ (level - 1) = i mod 64 ^ (level - 1)"
      "j mod 64 ^ level mod 64 ^ (level - 1) = j mod 64 ^ (level - 1)"
      by (simp_all add: split)
    then have low: "i mod 64 ^ (level - 1) = j mod 64 ^ (level - 1)"
      using eq by simp
    then show "digit level i = digit level j \<and> i mod 64 ^ (level - 1) = j mod 64 ^ (level - 1)"
      using eq unfolding split by simp
  qed (simp add: split)
qed

subsection \<open>Well-formed trees\<close>

fun wf_node :: "nat \<Rightarrow> 'a slot \<Rightarrow> bool" where
  "wf_node level (Node ss n) \<longleftrightarrow>
     0 < level \<and> length ss = 64 \<and> n = length (filter (\<lambda>s. s \<noteq> Null) ss) \<and>
     (\<forall>s\<in>set ss. s = Null \<or> (if level = 1 then \<exists>x. s = Item x else wf_node (level - 1) s))"
| "wf_node level Null = False"
| "wf_node level (Item x) = False"

fun node_map :: "nat \<Rightarrow> 'a slot \<Rightarrow> nat \<Rightarrow> 'a option" where
  "node_map level node i =
     (if level > 1 then
        let s = slots node ! digit level i in if s = Null then None else node_map (level - 1) s i
      else item_of (slots node ! digit 1 i))"

declare node_map.simps [simp del] wf_node.simps [simp del]

lemma wf_node_slot:
  assumes "wf_node level (Node ss n)" "k < 64" "ss ! k \<noteq> Null"
  shows "level = 1 \<Longrightarrow> \<exists>x. ss ! k = Item x" "1 < level \<Longrightarrow> wf_node (level - 1) (ss ! k)"
  using assms nth_mem [of k ss] by (auto simp: wf_node.simps)

lemma wf_nodeE:
  assumes "wf_node level node"
  obtains ss where "node = Node ss (length (filter (\<lambda>s. s \<noteq> Null) ss))" "0 < level" "length ss = 64"
    "\<And>k. k < 64 \<Longrightarrow> ss ! k \<noteq> Null \<Longrightarrow> level = 1 \<Longrightarrow> \<exists>x. ss ! k = Item x"
    "\<And>k. k < 64 \<Longrightarrow> ss ! k \<noteq> Null \<Longrightarrow> 1 < level \<Longrightarrow> wf_node (level - 1) (ss ! k)"
proof (cases node)
  case (Node ss n)
  have all: "\<And>k. k < 64 \<Longrightarrow> ss ! k = Null \<or> (if level = 1 then \<exists>x. ss ! k = Item x else wf_node (level - 1) (ss ! k))"
    using assms Node by (auto simp: wf_node.simps)
  show ?thesis
    using assms Node all by (intro that [of ss]) (force simp: wf_node.simps)+
qed (use assms in \<open>auto simp: wf_node.simps\<close>)

lemma lookup_from_map:
  assumes "wf_node level node"
  shows "item_of (lookup_from level node index) = node_map level node (unat index)"
  using assms
proof (induction level arbitrary: node rule: less_induct)
  case (less level)
  from less.prems obtain ss where ss: "node = Node ss (length (filter (\<lambda>s. s \<noteq> Null) ss))"
    "\<And>k. k < 64 \<Longrightarrow> ss ! k \<noteq> Null \<Longrightarrow> 1 < level \<Longrightarrow> wf_node (level - 1) (ss ! k)"
    by (rule wf_nodeE) blast
  show ?case
    using less.IH [of "level - 1" "ss ! digit level (unat index)"] ss
    by (subst lookup_from.simps, subst node_map.simps)
      (auto simp: Let_def slot_of_digit low_slot_digit item_of_def)
qed

lemma length_filter_update:
  "k < length xs \<Longrightarrow> length (filter P (xs[k := v])) + (if P (xs ! k) then 1 else 0) =
     length (filter P xs) + (if P v then 1 else 0)"
proof (induction xs arbitrary: k)
  case (Cons x xs)
  then show ?case by (cases k) auto
qed simp

lemma length_filter_pos: "k < length xs \<Longrightarrow> P (xs ! k) \<Longrightarrow> 0 < length (filter P xs)"
  by (auto simp: filter_empty_conv dest: nth_mem)

lemma wf_node_update:
  assumes "wf_node level (Node ss n)" "k < 64"
    and v: "v = Null \<or> (if level = 1 then \<exists>x. v = Item x else wf_node (level - 1) v)"
    and m: "m + (if ss ! k = Null then 0 else 1) = n + (if v = Null then 0 else 1)"
  shows "wf_node level (Node (ss[k := v]) m)"
proof -
  have "length ss = 64" "n = length (filter (\<lambda>s. s \<noteq> Null) ss)"
    using assms(1) by (auto simp: wf_node.simps)
  then have "m = length (filter (\<lambda>s. s \<noteq> Null) (ss[k := v]))"
    using length_filter_update [of k ss "\<lambda>s. s \<noteq> Null" v] assms(2) m by (auto split: if_splits)
  moreover have "\<forall>s\<in>set (ss[k := v]). s = Null \<or> (if level = 1 then \<exists>x. s = Item x else wf_node (level - 1) s)"
    using assms(1,2) v by (auto simp: wf_node.simps all_set_conv_all_nth nth_list_update)
  ultimately show ?thesis
    using assms(1) by (simp add: wf_node.simps)
qed

lemma wf_new_node: "0 < level \<Longrightarrow> wf_node level new_node"
  by (simp add: new_node_def wf_node.simps)

lemma node_map_new_node [simp]: "node_map level new_node = (\<lambda>_. None)"
  by (rule ext, subst node_map.simps) (simp add: new_node_def item_of_def)

subsection \<open>Insertion below a node\<close>

lemma node_map_update:
  assumes "length ss = 64" "1 < level"
  shows "node_map level (Node (ss[digit level j := v]) m) i =
    (if digit level i = digit level j then (if v = Null then None else node_map (level - 1) v i)
     else node_map level (Node ss n) i)"
  using assms by (subst (1 3) node_map.simps) (auto simp: Let_def nth_list_update)

lemma node_map_update_leaf:
  assumes "length ss = 64"
  shows "node_map 1 (Node (ss[digit 1 j := v]) m) i =
    (if digit 1 i = digit 1 j then item_of v else node_map 1 (Node ss n) i)"
  using assms by (subst (1 2) node_map.simps) (auto simp: nth_list_update)

lemma node_map_child:
  "1 < level \<Longrightarrow> digit level i = digit level j \<Longrightarrow> ss ! digit level j = v \<Longrightarrow>
    node_map level (Node ss n) i = (if v = Null then None else node_map (level - 1) v i)"
  by (subst node_map.simps) (simp add: Let_def)

definition insert_ok :: "nat \<Rightarrow> nat \<Rightarrow> 'a slot \<Rightarrow> nat \<Rightarrow> 'a \<Rightarrow> unit result \<Rightarrow> 'a slot \<Rightarrow> bool" where
  "insert_ok mem level node j item r node' \<longleftrightarrow>
     wf_node level node' \<and>
     (case r of Inr _ \<Rightarrow> node_map level node j = None
      | Inl e \<Rightarrow> (e = ENOMEM \<and> mem + 1 < level) \<or> (e = EEXIST \<and> node_map level node j \<noteq> None)) \<and>
     (\<forall>i. node_map level node' i =
        (if r = Inr () \<and> i mod 64 ^ level = j mod 64 ^ level then Some item else node_map level node i))"

lemma insert_ok_leaf:
  assumes wf: "wf_node 1 (Node ss n)"
  shows "case insert_from mem 1 (Node ss n) index item of (r, node') \<Rightarrow>
    insert_ok mem 1 (Node ss n) (unat index) item r node'"
proof -
  let ?j = "digit 1 (unat index)"
  have len: "length ss = 64"
    using wf by (simp add: wf_node.simps)
  have j: "node_map 1 (Node ss n) (unat index) = item_of (ss ! ?j)"
    by (subst node_map.simps) simp
  have digit: "i mod 64 ^ 1 = k mod 64 ^ 1 \<longleftrightarrow> digit 1 i = digit 1 k" for i k :: nat
    by (simp add: digit_def)
  show ?thesis
  proof (cases "ss ! ?j = Null")
    case True
    have "wf_node 1 (Node (ss[?j := Item item]) (n + 1))"
      using wf_node_update [OF wf digit_less, of "Item item" "n + 1" 1 "unat index"] True by simp
    then show ?thesis
      using True j digit by (subst insert_from.simps)
        (simp add: Let_def low_slot_digit insert_ok_def node_map_update_leaf [OF len, where n = n, simplified] item_of_def)
  next
    case False
    then have "\<exists>x. ss ! ?j = Item x"
      using wf_node_slot(1) [OF wf digit_less] by simp
    then show ?thesis
      using False wf j by (subst insert_from.simps)
        (auto simp: Let_def low_slot_digit insert_ok_def item_of_def)
  qed
qed

lemma insert_ok_inner:
  assumes wf: "wf_node level (Node ss n)" and level: "1 < level" and child': "child' \<noteq> Null"
    and ok: "insert_ok mem' (level - 1) child (unat index) item r child'"
    and cases: "ss ! digit level (unat index) = child \<and> child \<noteq> Null \<and> mem' = mem \<and> m = n \<or>
      ss ! digit level (unat index) = Null \<and> child = new_node \<and> mem = mem' + 1 \<and> m = n + 1"
  shows "insert_ok mem level (Node ss n) (unat index) item r (Node (ss[digit level (unat index) := child']) m)"
proof -
  let ?j = "digit level (unat index)"
  have len: "length ss = 64"
    using wf by (simp add: wf_node.simps)
  have "wf_node (level - 1) child'"
    using ok by (simp add: insert_ok_def)
  then have wf': "wf_node level (Node (ss[?j := child']) m)"
    using level cases child' by (intro wf_node_update [OF wf]) auto
  have below: "node_map level (Node ss n) i = node_map (level - 1) child i" if "digit level i = ?j" for i
    using node_map_child [OF level that refl, of ss n] cases by auto
  have mp: "node_map level (Node (ss[?j := child']) m) i =
      (if r = Inr () \<and> i mod 64 ^ level = unat index mod 64 ^ level then Some item
       else node_map level (Node ss n) i)" for i
    using ok child' below unfolding node_map_update [OF len level, where n = n] digits_eq [OF level]
    by (auto simp: insert_ok_def)
  show ?thesis
    using wf' mp ok below [of "unat index"] cases level by (auto simp: insert_ok_def split: sum.splits)
qed

lemma insert_from_ok:
  assumes "wf_node level node"
  shows "case insert_from mem level node index item of (r, node') \<Rightarrow>
    insert_ok mem level node (unat index) item r node'"
  using assms
proof (induction level arbitrary: mem node rule: less_induct)
  case (less level)
  obtain ss n where node: "node = Node ss n"
    using less.prems by (meson wf_nodeE)
  note wf = less.prems [unfolded node]
  show ?case
  proof (cases "1 < level")
    case False
    then have "level = 1"
      using wf by (simp add: wf_node.simps)
    then show ?thesis
      using insert_ok_leaf wf node by simp
  next
    case level: True
    let ?j = "digit level (unat index)"
    have step: "insert_ok mem level (Node ss n) (unat index) item r (Node (ss[?j := child']) m)"
      if "wf_node (level - 1) child" "insert_from mem' (level - 1) child index item = (r, child')"
        "ss ! ?j = child \<and> child \<noteq> Null \<and> mem' = mem \<and> m = n \<or>
         ss ! ?j = Null \<and> child = new_node \<and> mem = mem' + 1 \<and> m = n + 1" for mem' child r child' m
    proof -
      have ok: "insert_ok mem' (level - 1) child (unat index) item r child'"
        using less.IH [of "level - 1" child mem'] that level by simp
      then have "child' \<noteq> Null"
        by (auto simp: insert_ok_def wf_node.simps)
      then show ?thesis
        using insert_ok_inner [OF wf level] ok that(3) by blast
    qed
    show ?thesis
    proof (cases "ss ! ?j = Null")
      case True
      then have none: "node_map level (Node ss n) (unat index) = None"
        using node_map_child [OF level refl True] by simp
      obtain r child' where rec: "insert_from (mem - 1) (level - 1) new_node index item = (r, child')"
        by fastforce
      have "insert_ok mem level (Node ss n) (unat index) item r (Node (ss[?j := child']) (n + 1))" if "0 < mem"
        using wf_new_node [of "level - 1"] level True that by (intro step [OF _ rec]) auto
      then show ?thesis
        using wf level True none node rec by (subst insert_from.simps)
          (simp add: Let_def slot_of_digit insert_ok_def [of 0])
    next
      case False
      then show ?thesis
        using step [of "ss ! ?j" mem] wf_node_slot(2) [OF wf digit_less False level] level node
        by (subst insert_from.simps) (auto simp: Let_def slot_of_digit split: prod.splits)
    qed
  qed
qed

subsection \<open>Removal below a node\<close>

definition remove_ok :: "nat \<Rightarrow> 'a slot \<Rightarrow> nat \<Rightarrow> 'a option \<Rightarrow> 'a slot \<Rightarrow> bool \<Rightarrow> bool" where
  "remove_ok level node j r node' unlink \<longleftrightarrow>
     r = node_map level node j \<and>
     (r \<noteq> None \<longrightarrow> wf_node level node' \<and> (unlink \<or> count node' \<noteq> 0) \<and>
       (\<forall>i. node_map level node' i =
          (if i mod 64 ^ level = j mod 64 ^ level then None else node_map level node i)))"

lemma remove_ok_leaf:
  assumes wf: "wf_node 1 (Node ss n)"
  shows "case remove_from 1 (Node ss n) index of (r, node', unlink) \<Rightarrow>
    remove_ok 1 (Node ss n) (unat index) r node' unlink"
proof -
  let ?j = "digit 1 (unat index)"
  have len: "length ss = 64" and n: "n = length (filter (\<lambda>s. s \<noteq> Null) ss)"
    using wf by (simp_all add: wf_node.simps)
  have j: "node_map 1 (Node ss n) (unat index) = item_of (ss ! ?j)"
    by (subst node_map.simps) simp
  have digit: "i mod 64 ^ 1 = k mod 64 ^ 1 \<longleftrightarrow> digit 1 i = digit 1 k" for i k :: nat
    by (simp add: digit_def)
  show ?thesis
  proof (cases "ss ! ?j")
    case (Item x)
    have "0 < n"
      unfolding n by (rule length_filter_pos [of ?j]) (use len Item in simp_all)
    then have "wf_node 1 (Node (ss[?j := Null]) (n - 1))"
      using wf_node_update [OF wf digit_less, of Null "n - 1" 1 "unat index"] Item by simp
    then show ?thesis
      using Item j digit by (subst remove_from.simps)
        (simp add: Let_def low_slot_digit remove_ok_def node_map_update_leaf [OF len, where n = n, simplified] item_of_def)
  next
    case (Node ss' n')
    then show ?thesis
      using wf_node_slot(1) [OF wf digit_less, of 1 "unat index"] by auto
  next
    case Null
    then show ?thesis
      using j by (subst remove_from.simps) (simp add: Let_def low_slot_digit remove_ok_def item_of_def)
  qed
qed

lemma wf_node_empty:
  assumes "wf_node level node" "count node = 0"
  shows "node_map level node i = None"
proof -
  obtain ss where node: "node = Node ss (length (filter (\<lambda>s. s \<noteq> Null) ss))" "length ss = 64"
    using assms(1) by (cases node) (auto simp: wf_node.simps)
  then have "\<forall>s\<in>set ss. s = Null"
    using assms(2) by (simp add: filter_empty_conv)
  then have "ss ! k = Null" if "k < 64" for k
    using that node(2) by simp
  then show ?thesis
    using node by (subst node_map.simps) (simp add: item_of_def)
qed

lemma remove_ok_inner:
  assumes wf: "wf_node level (Node ss n)" and level: "1 < level"
    and child: "ss ! digit level (unat index) = child" "child \<noteq> Null"
    and ok: "remove_ok (level - 1) child (unat index) (Some x) child' unlink"
    and v: "v = (if unlink \<and> count child' = 0 then Null else child')"
  shows "remove_ok level (Node ss n) (unat index) (Some x)
    (Node (ss[digit level (unat index) := v]) (if v = Null then n - 1 else n)) (unlink \<and> count child' = 0)"
proof -
  let ?j = "digit level (unat index)"
  let ?m = "if v = Null then n - 1 else n"
  have len: "length ss = 64" and n: "n = length (filter (\<lambda>s. s \<noteq> Null) ss)"
    using wf by (simp_all add: wf_node.simps)
  have wf_child: "wf_node (level - 1) child'"
    using ok by (simp add: remove_ok_def)
  then have v_Null: "v = Null \<longleftrightarrow> count child' = 0"
    using ok v by (auto simp: remove_ok_def wf_node.simps)
  have below: "node_map level (Node ss n) i = node_map (level - 1) child i" if "digit level i = ?j" for i
    using node_map_child [OF level that refl, of ss n] child by auto
  have child_map: "node_map (level - 1) child' i = (if i mod 64 ^ (level - 1) = unat index mod 64 ^ (level - 1)
      then None else node_map (level - 1) child i)" for i
    using ok by (simp add: remove_ok_def)
  have pos: "0 < n"
    unfolding n by (rule length_filter_pos [of ?j]) (simp_all add: len child)
  have wf': "wf_node level (Node (ss[?j := v]) ?m)"
    using level child v wf_child pos by (intro wf_node_update [OF wf]) auto
  have "node_map level (Node (ss[?j := v]) ?m) i =
      (if i mod 64 ^ level = unat index mod 64 ^ level then None else node_map level (Node ss n) i)" for i
    using v v_Null below [of i] child_map [of i] wf_node_empty [OF wf_child, of i]
    unfolding node_map_update [OF len level, where n = n] digits_eq [OF level] by (auto split: if_splits)
  moreover have "n \<noteq> 0" using pos by simp
  ultimately show ?thesis
    using wf' ok below [of "unat index"] v v_Null by (auto simp: remove_ok_def)
qed

lemma remove_from_ok:
  assumes "wf_node level node"
  shows "case remove_from level node index of (r, node', unlink) \<Rightarrow>
    remove_ok level node (unat index) r node' unlink"
  using assms
proof (induction level arbitrary: node rule: less_induct)
  case (less level)
  obtain ss n where node: "node = Node ss n"
    using less.prems by (meson wf_nodeE)
  note wf = less.prems [unfolded node]
  show ?case
  proof (cases "1 < level")
    case False
    then have "level = 1"
      using wf by (simp add: wf_node.simps)
    then show ?thesis
      using remove_ok_leaf wf node by simp
  next
    case level: True
    let ?j = "digit level (unat index)"
    show ?thesis
    proof (cases "ss ! ?j = Null")
      case True
      then show ?thesis
        using level node node_map_child [OF level refl True, of n]
        by (subst remove_from.simps) (simp add: Let_def slot_of_digit remove_ok_def)
    next
      case False
      obtain r child' unlink where rec: "remove_from (level - 1) (ss ! ?j) index = (r, child', unlink)"
        by (metis prod_cases3)
      have ok: "remove_ok (level - 1) (ss ! ?j) (unat index) r child' unlink"
        using less.IH [of "level - 1" "ss ! ?j"] wf_node_slot(2) [OF wf digit_less False level] level rec by simp
      then have "child' \<noteq> Null" if "r \<noteq> None"
        using that by (auto simp: remove_ok_def wf_node.simps)
      then show ?thesis
        using remove_ok_inner [OF wf level refl False, of "the r" child' unlink _] ok level node False rec
          node_map_child [OF level refl refl, of ss n "unat index"]
        by (subst remove_from.simps)
          (auto simp: Let_def slot_of_digit remove_ok_def [where r = None] split: option.splits if_splits)
    qed
  qed
qed

subsection \<open>Whole trees\<close>

definition wf_root :: "nat \<Rightarrow> 'a slot \<Rightarrow> bool" where
  "wf_root h node \<longleftrightarrow> wf_node h node \<and> h \<le> 11 \<and>
     (h = 11 \<longrightarrow> (\<forall>k. 16 \<le> k \<and> k < 64 \<longrightarrow> slots node ! k = Null))"

text \<open>
  The invariant of a tree. Eleven levels are \<^verbatim>\<open>RADIX_MAX_DEPTH\<close>, so the \<^verbatim>\<open>path\<close> array of
  \<^verbatim>\<open>radix_remove\<close> is never overrun; the topmost level of a full-height tree uses 16 slots.
\<close>

definition wf_radix :: "'a radix_tree \<Rightarrow> bool" where
  "wf_radix t \<longleftrightarrow> (root t = Null \<and> height t = 0) \<or> wf_root (height t) (root t)"

definition tree_map :: "nat \<Rightarrow> 'a slot \<Rightarrow> nat \<Rightarrow> 'a option" where
  "tree_map h node i = (if node = Null \<or> \<not> i < 64 ^ h then None else node_map h node i)"

lemma wf_root_not_Null: "wf_root h node \<Longrightarrow> node \<noteq> Null \<and> 0 < h \<and> h \<le> 11 \<and> wf_node h node"
  by (cases node) (auto simp: wf_root_def wf_node.simps)

lemma radix_lookup_map: "wf_radix t \<Longrightarrow> radix_lookup t index = tree_map (height t) (root t) (unat index)"
  by (auto simp: wf_radix_def radix_lookup_def tree_map_def fits_iff lookup_from_map wf_root_def)

lemma fits_11: "fits 11 index"
  using unat_u64_less [of index] by (simp add: fits_iff)

lemma digit_11: "digit 11 (unat index) < 16" for index :: u64
  using unat_u64_less [of index] by (simp add: digit_def div_less_iff_less_mult)

lemma first_height_fits: "fits (first_height h index) index \<and> h \<le> first_height h index \<and>
    first_height h index \<le> max h 11"
proof (induction h index rule: first_height.induct)
  case (1 h index)
  show ?case
  proof (cases "fits h index")
    case True
    then show ?thesis by (subst (1 2 3) first_height.simps) simp
  next
    case False
    then have "h < 11"
      using fits_11 by (metis fits_iff linorder_not_le order_less_le_trans one_le_numeral power_increasing)
    then show ?thesis
      using 1 False by (subst (1 2 3) first_height.simps) simp
  qed
qed

lemma digit_top: "i < 64 ^ Suc h \<Longrightarrow> digit (Suc h) i = i div 64 ^ h"
  by (simp add: digit_def div_less_iff_less_mult mult.commute)

lemma tree_map_grow:
  assumes "wf_root h node" "h < 11"
  shows "wf_root (Suc h) (Node ((slots new_node)[0 := node]) 1)"
    and "tree_map (Suc h) (Node ((slots new_node)[0 := node]) 1) = tree_map h node"
proof -
  let ?ss = "(replicate 64 Null)[0 := node]"
  note node = wf_root_not_Null [OF assms(1)]
  have "wf_node (Suc h) (Node (replicate 64 Null) 0)"
    using wf_new_node [of "Suc h"] by (simp add: new_node_def)
  then have "wf_node (Suc h) (Node ?ss 1)"
    using node by (intro wf_node_update) auto
  then show "wf_root (Suc h) (Node ((slots new_node)[0 := node]) 1)"
    using assms(2) by (auto simp: wf_root_def new_node_def nth_list_update)
  show "tree_map (Suc h) (Node ((slots new_node)[0 := node]) 1) = tree_map h node"
  proof
    fix i
    show "tree_map (Suc h) (Node ((slots new_node)[0 := node]) 1) i = tree_map h node i"
    proof (cases "i < 64 ^ Suc h")
      case True
      have "i div 64 ^ h < 64"
        using True by (simp add: div_less_iff_less_mult mult.commute)
      then show ?thesis
        using True node unfolding tree_map_def
        by (subst node_map.simps) (auto simp: new_node_def digit_top nth_list_update Let_def div_eq_0_iff)
    qed (auto simp: tree_map_def)
  qed
qed

lemma grow_ok:
  assumes "wf_root (height t) (root t)" "grow mem t index = (r, t')"
  shows "wf_root (height t') (root t') \<and> tree_map (height t') (root t') = tree_map (height t) (root t) \<and>
    (case r of Inr mem' \<Rightarrow> fits (height t') index \<and> mem = mem' + (height t' - height t) \<and> height t \<le> height t'
     | Inl e \<Rightarrow> e = ENOMEM \<and> mem < 11 - height t)"
  using assms
proof (induction mem t index arbitrary: r t' rule: grow.induct)
  case (1 mem t index)
  show ?case
  proof (cases "fits (height t) index")
    case True
    then show ?thesis
      using "1.prems" by (auto simp: grow.simps)
  next
    case False
    then have h: "height t < 11"
      using fits_11 wf_root_not_Null [OF "1.prems"(1)] by (metis order_le_imp_less_or_eq)
    note grown = tree_map_grow [OF "1.prems"(1) h]
    show ?thesis
    proof (cases "mem = 0")
      case True
      then show ?thesis
        using "1.prems" False h by (auto simp: grow.simps)
    next
      case mem: False
      let ?t = "t\<lparr>root := Node ((slots new_node)[0 := root t]) 1, height := height t + 1\<rparr>"
      have "grow (mem - 1) ?t index = (r, t')"
        using "1.prems"(2) False mem by (subst (asm) grow.simps) simp
      then show ?thesis
        using "1.IH" [OF False mem, of r t'] grown mem by (auto split: sum.splits)
    qed
  qed
qed

lemma insert_from_other_slots:
  "insert_from mem level node index item = (r, node') \<Longrightarrow> k \<noteq> digit level (unat index) \<Longrightarrow> 0 < level \<Longrightarrow>
    slots node' ! k = slots node ! k"
  by (subst (asm) insert_from.simps)
    (auto simp: Let_def slot_of_digit low_slot_digit split: if_splits prod.splits dest: Suc_lessI)

lemma remove_from_other_slots:
  "remove_from level node index = (r, node', u) \<Longrightarrow> k \<noteq> digit level (unat index) \<Longrightarrow> 0 < level \<Longrightarrow>
    slots node' ! k = slots node ! k"
  by (subst (asm) remove_from.simps)
    (auto simp: Let_def slot_of_digit low_slot_digit split: if_splits prod.splits slot.splits dest: Suc_lessI)

lemma mod_top: "i < 64 ^ h \<Longrightarrow> j < 64 ^ h \<Longrightarrow> (i mod 64 ^ h = j mod 64 ^ h) = (i = j)" for i j :: nat
  by simp

lemma insert_root_ok:
  assumes wf: "wf_root h node" and fit: "fits h index"
    and ins: "insert_from mem h node index item = (r, node')"
  shows "wf_root h node'"
    and "tree_map h node' i =
      (if r = Inr () \<and> i = unat index then Some item else tree_map h node i)"
    and "case r of Inr _ \<Rightarrow> tree_map h node (unat index) = None
      | Inl e \<Rightarrow> (e = ENOMEM \<and> mem + 1 < h) \<or> (e = EEXIST \<and> tree_map h node (unat index) \<noteq> None)"
proof -
  note node = wf_root_not_Null [OF wf]
  have ok: "insert_ok mem h node (unat index) item r node'"
    using insert_from_ok [of h node mem index item] node ins by simp
  have "slots node' ! k = Null" if "h = 11" "16 \<le> k" "k < 64" for k
    using insert_from_other_slots [OF ins, of k] that wf digit_11 [of index] by (auto simp: wf_root_def)
  then show root': "wf_root h node'"
    using ok node by (auto simp: wf_root_def insert_ok_def)
  show "tree_map h node' i = (if r = Inr () \<and> i = unat index then Some item else tree_map h node i)"
    using ok node wf_root_not_Null [OF root'] fit
    by (auto simp: tree_map_def insert_ok_def fits_iff)
  show "case r of Inr _ \<Rightarrow> tree_map h node (unat index) = None
      | Inl e \<Rightarrow> (e = ENOMEM \<and> mem + 1 < h) \<or> (e = EEXIST \<and> tree_map h node (unat index) \<noteq> None)"
    using ok node fit by (auto simp: tree_map_def insert_ok_def fits_iff split: sum.splits)
qed

lemma remove_root_ok:
  assumes wf: "wf_root h node" and fit: "fits h index"
    and rem: "remove_from h node index = (Some x, node', u)"
  shows "wf_root h node'"
    and "tree_map h node' i = (if i = unat index then None else tree_map h node i)"
    and "tree_map h node (unat index) = Some x"
proof -
  note node = wf_root_not_Null [OF wf]
  have ok: "remove_ok h node (unat index) (Some x) node' u"
    using remove_from_ok [of h node index] node rem by simp
  have "slots node' ! k = Null" if "h = 11" "16 \<le> k" "k < 64" for k
    using remove_from_other_slots [OF rem, of k] that wf digit_11 [of index] by (auto simp: wf_root_def)
  then show root': "wf_root h node'"
    using ok node by (auto simp: wf_root_def remove_ok_def)
  show "tree_map h node' i = (if i = unat index then None else tree_map h node i)"
    using ok node wf_root_not_Null [OF root'] fit
    by (auto simp: tree_map_def remove_ok_def fits_iff)
  show "tree_map h node (unat index) = Some x"
    using ok node fit by (auto simp: tree_map_def remove_ok_def fits_iff)
qed

lemma only_first_used:
  assumes "length (filter P xs) = 1" "P (xs ! 0)" "0 < k" "k < length xs"
  shows "\<not> P (xs ! k)"
proof (cases xs)
  case (Cons x ys)
  then have "filter P ys = []"
    using assms(1,2) by simp
  then show ?thesis
    using Cons assms(3,4) by (auto simp: filter_empty_conv nth_Cons')
qed (use assms in simp)

lemma tree_map_shrink:
  assumes wf: "wf_root h node" and h: "1 < h" and one: "count node = 1" "slots node ! 0 \<noteq> Null"
  shows "wf_root (h - 1) (slots node ! 0)"
    and "tree_map (h - 1) (slots node ! 0) = tree_map h node"
proof -
  note facts = wf_root_not_Null [OF wf]
  then obtain ss where node: "node = Node ss (length (filter (\<lambda>s. s \<noteq> Null) ss))" "length ss = 64"
    by (cases node) (auto simp: wf_node.simps)
  have child: "wf_node (h - 1) (ss ! 0)"
    using wf_node_slot(2) [of h ss _ 0] facts node one h by auto
  then show "wf_root (h - 1) (slots node ! 0)"
    using facts node h by (auto simp: wf_root_def)
  have null: "ss ! k = Null" if "0 < k" "k < 64" for k
    using only_first_used [of "\<lambda>s. s \<noteq> Null" ss k] one node that by auto
  show "tree_map (h - 1) (slots node ! 0) = tree_map h node"
  proof
    fix i
    have h': "h = Suc (h - 1)"
      using h by simp
    show "tree_map (h - 1) (slots node ! 0) i = tree_map h node i"
    proof (cases "i < 64 ^ h")
      case True
      then have dig: "digit h i = i div 64 ^ (h - 1)" "i div 64 ^ (h - 1) < 64"
        using h' digit_top [of i "h - 1"] digit_less [of h i] by auto
      show ?thesis
      proof (cases "i < 64 ^ (h - 1)")
        case small: True
        then have "digit h i = 0"
          using dig by simp
        then show ?thesis
          using True small one node h unfolding tree_map_def by (subst (2) node_map.simps) simp
      next
        case False
        then have "0 < digit h i"
          using dig by (simp add: div_greater_zero_iff)
        then show ?thesis
          using True False dig null [of "digit h i"] node h unfolding tree_map_def
          by (subst (2) node_map.simps) simp
      qed
    next
      case False
      moreover have "\<not> i < 64 ^ (h - 1)"
        using False power_increasing [of "h - 1" h "64 :: nat"] by linarith
      ultimately show ?thesis
        by (simp only: tree_map_def) simp
    qed
  qed
qed

lemma shrink_ok:
  assumes "wf_root (height t) (root t)"
  shows "wf_root (height (shrink t)) (root (shrink t)) \<and>
    tree_map (height (shrink t)) (root (shrink t)) = tree_map (height t) (root t)"
  using assms
proof (induction t rule: shrink.induct)
  case (1 t)
  show ?case
  proof (cases "1 < height t \<and> count (root t) = 1 \<and> slots (root t) ! 0 \<noteq> Null")
    case True
    then show ?thesis
      using "1.IH" tree_map_shrink [OF "1.prems"] by (subst (1 2 3 4) shrink.simps) simp
  next
    case False
    then show ?thesis
      using "1.prems" by (subst (1 2 3 4) shrink.simps) auto
  qed
qed

subsection \<open>The operations on trees\<close>

lemma wf_radix_init: "wf_radix radix_init"
  by (simp add: wf_radix_def radix_init_def)

lemma radix_lookup_init [simp]: "radix_lookup radix_init = Map.empty"
  by (rule ext) (simp add: radix_lookup_def radix_init_def)

lemma radix_insert_root:
  assumes wf: "wf_root (height t) (root t)"
    and ins: "(case grow mem t index of
           (Inl e, tree) \<Rightarrow> (Inl e, tree)
         | (Inr mem, tree) \<Rightarrow>
             (case insert_from mem (height tree) (root tree) index item of
                (r, node) \<Rightarrow> (r, tree\<lparr>root := node\<rparr>))) = (r, t')"
  shows "wf_root (height t') (root t') \<and>
    (\<forall>i. tree_map (height t') (root t') i =
      (if r = Inr () \<and> i = unat index then Some item else tree_map (height t) (root t) i)) \<and>
    (case r of Inr _ \<Rightarrow> tree_map (height t) (root t) (unat index) = None
      | Inl e \<Rightarrow> (e = ENOMEM \<and> mem < 20) \<or> (e = EEXIST \<and> tree_map (height t) (root t) (unat index) \<noteq> None))"
proof -
  obtain g t1 where g: "grow mem t index = (g, t1)"
    by fastforce
  note grown = grow_ok [OF wf g]
  show ?thesis
  proof (cases g)
    case (Inl e)
    then show ?thesis
      using grown ins g by (auto split: sum.splits)
  next
    case (Inr mem')
    obtain r' node where node: "insert_from mem' (height t1) (root t1) index item = (r', node)"
      by fastforce
    have t1: "wf_root (height t1) (root t1)" "fits (height t1) index" "height t1 \<le> 11"
      using grown Inr wf_root_not_Null by auto
    have res: "r = r'" "t' = t1\<lparr>root := node\<rparr>"
      using ins g Inr node by auto
    have mem: "mem = mem' + (height t1 - height t)" "height t \<le> height t1" "0 < height t"
      using grown Inr wf_root_not_Null [OF wf] by auto
    show ?thesis
      using insert_root_ok [OF t1(1,2) node] grown res t1(3) mem
      by (auto split: sum.splits)
  qed
qed

lemma radix_insert_map:
  assumes "wf_radix t" "radix_insert mem t index item = (r, t')"
  shows "wf_radix t' \<and>
    (\<forall>i. tree_map (height t') (root t') i =
      (if r = Inr () \<and> i = unat index then Some item else tree_map (height t) (root t) i)) \<and>
    (case r of Inr _ \<Rightarrow> tree_map (height t) (root t) (unat index) = None
      | Inl e \<Rightarrow> (e = ENOMEM \<and> mem < 21) \<or> (e = EEXIST \<and> tree_map (height t) (root t) (unat index) \<noteq> None))"
proof (cases "root t = Null")
  case True
  let ?h = "first_height 1 index"
  let ?t = "t\<lparr>root := new_node, height := ?h\<rparr>"
  have h: "0 < ?h" "?h \<le> 11"
    using first_height_fits [of 1 index] by auto
  have new: "wf_root (height ?t) (root ?t)"
    using h wf_new_node [of ?h] by (auto simp: wf_root_def new_node_def)
  have empty: "tree_map ?h new_node = tree_map (height t) (root t)"
    using True by (auto simp: tree_map_def)
  show ?thesis
  proof (cases "mem = 0")
    case mem: True
    then show ?thesis
      using assms True by (auto simp: radix_insert_def)
  next
    case False
    then show ?thesis
      using radix_insert_root [OF new, where mem = "mem - 1" and index = index and item = item and r = r and t' = t']
        assms(2) True empty
      by (auto simp: radix_insert_def wf_radix_def split: sum.splits)
  qed
next
  case False
  then have "wf_root (height t) (root t)"
    using assms(1) by (simp add: wf_radix_def)
  then show ?thesis
    using radix_insert_root [where t = t and mem = mem and index = index and item = item and r = r and t' = t'] assms(2) False
    by (auto simp: radix_insert_def wf_radix_def split: sum.splits)
qed

lemma unat_eq_iff: "(unat a = unat b) = (a = b)" for a b :: u64
  by (simp add: word_unat_eq_iff)

lemma radix_insert_ok:
  assumes "wf_radix t" "radix_insert mem t index item = (r, t')"
  shows "wf_radix t'"
    and "radix_lookup t' = (if r = Inr () then (radix_lookup t)(index \<mapsto> item) else radix_lookup t)"
    and "case r of Inr _ \<Rightarrow> radix_lookup t index = None
      | Inl e \<Rightarrow> (e = ENOMEM \<and> mem < 21) \<or> (e = EEXIST \<and> radix_lookup t index \<noteq> None)"
  using radix_insert_map [OF assms] radix_lookup_map [OF assms(1)] radix_lookup_map [of t']
  by (auto simp: fun_eq_iff unat_eq_iff split: sum.splits)

lemma radix_remove_ok:
  assumes wf: "wf_radix t" and rem: "radix_remove t index = (r, t')"
  shows "wf_radix t'" and "r = radix_lookup t index" and "radix_lookup t' = (radix_lookup t)(index := None)"
proof -
  note lk = radix_lookup_map [OF wf]
  have "wf_radix t' \<and> r = tree_map (height t) (root t) (unat index) \<and>
    (\<forall>i. tree_map (height t') (root t') i = (if i = unat index then None else tree_map (height t) (root t) i))"
  proof (cases "root t = Null \<or> \<not> fits (height t) index")
    case True
    then show ?thesis
      using wf rem by (auto simp: radix_remove_def tree_map_def fits_iff)
  next
    case False
    then have root: "wf_root (height t) (root t)" and fit: "fits (height t) index"
      using wf by (auto simp: wf_radix_def)
    obtain x node u where x: "remove_from (height t) (root t) index = (x, node, u)"
      by (metis prod_cases3)
    show ?thesis
    proof (cases x)
      case None
      have "remove_ok (height t) (root t) (unat index) x node u"
        using remove_from_ok [of "height t" "root t" index] wf_root_not_Null [OF root] x by simp
      then show ?thesis
        using None wf rem x False by (auto simp: radix_remove_def tree_map_def fits_iff remove_ok_def)
    next
      case (Some item)
      note ok = remove_root_ok [OF root fit x [unfolded Some]]
      have r: "r = Some item"
        using rem False x Some by (auto simp: radix_remove_def split: if_splits)
      show ?thesis
      proof (cases "count node = 0")
        case True
        have "tree_map (height t) node i = None" for i
          using wf_node_empty True wf_root_not_Null [OF ok(1)] by (auto simp: tree_map_def)
        then have "\<forall>i. (if i = unat index then None else tree_map (height t) (root t) i) = None"
          using ok(2) by metis
        then show ?thesis
          using rem False x Some True ok(3) wf_radix_init
          by (auto simp: radix_remove_def radix_init_def tree_map_def [of 0])
      next
        case used: False
        have "wf_root (height (t\<lparr>root := node\<rparr>)) (root (t\<lparr>root := node\<rparr>))"
          using ok(1) by simp
        note sh = shrink_ok [OF this]
        have "t' = shrink (t\<lparr>root := node\<rparr>)"
          using rem False x Some used by (simp add: radix_remove_def)
        then show ?thesis
          using sh ok r by (simp add: wf_radix_def)
      qed
    qed
  qed
  then show "wf_radix t'" and "r = radix_lookup t index" and "radix_lookup t' = (radix_lookup t)(index := None)"
    using lk radix_lookup_map [of t'] by (auto simp: fun_eq_iff unat_eq_iff)
qed

subsection \<open>The contract: a partial map\<close>

text \<open>
  What a client of an index map may rely on, whatever happens to memory: an insertion
  either adds the pair, or reports an occupied index or a lack of memory and changes
  nothing; a removal returns what the lookup would have and forgets it.
\<close>

locale index_map =
  fixes empty :: 't
    and lookup :: "'t \<Rightarrow> 'k \<Rightarrow> 'v option"
    and insert :: "'t \<Rightarrow> 'k \<Rightarrow> 'v \<Rightarrow> unit result \<times> 't"
    and remove :: "'t \<Rightarrow> 'k \<Rightarrow> 'v option \<times> 't"
    and invar :: "'t \<Rightarrow> bool"
  assumes invar_empty: "invar empty"
    and lookup_empty: "lookup empty = Map.empty"
    and insert_invar: "invar t \<Longrightarrow> insert t k v = (r, t') \<Longrightarrow> invar t'"
    and insert_lookup: "invar t \<Longrightarrow> insert t k v = (r, t') \<Longrightarrow>
      lookup t' = (if r = Inr () then (lookup t)(k \<mapsto> v) else lookup t)"
    and insert_result: "invar t \<Longrightarrow> insert t k v = (r, t') \<Longrightarrow>
      r = Inl ENOMEM \<or> r = (if lookup t k = None then Inr () else Inl EEXIST)"
    and remove_invar: "invar t \<Longrightarrow> remove t k = (x, t') \<Longrightarrow> invar t'"
    and remove_result: "invar t \<Longrightarrow> remove t k = (x, t') \<Longrightarrow> x = lookup t k"
    and remove_lookup: "invar t \<Longrightarrow> remove t k = (x, t') \<Longrightarrow> lookup t' = (lookup t)(k := None)"
begin

lemma remove_insert:
  assumes "invar t" "insert t k v = (Inr (), t')" "remove t' k = (r, t'')"
  shows "r = Some v \<and> lookup t'' = lookup t"
proof -
  have none: "lookup t k = None"
    using insert_result [OF assms(1,2)] by (auto split: if_splits)
  have "invar t'" "lookup t' = (lookup t)(k \<mapsto> v)"
    using insert_invar [OF assms(1,2)] insert_lookup [OF assms(1,2)] by auto
  then show ?thesis
    using remove_result [OF _ assms(3)] remove_lookup [OF _ assms(3)] none by auto
qed

end

text \<open>
  Sequences of operations, on an implementation and on the abstract map. Outputs are
  compared operation by operation.
\<close>

datatype ('k, 'v) map_op = OpInsert 'k 'v | OpRemove 'k | OpLookup 'k

datatype 'v map_out = OutInsert "unit result" | OutItem "'v option"

fun impl_run ::
  "('t \<Rightarrow> 'k \<Rightarrow> 'v option) \<Rightarrow> ('t \<Rightarrow> 'k \<Rightarrow> 'v \<Rightarrow> unit result \<times> 't) \<Rightarrow> ('t \<Rightarrow> 'k \<Rightarrow> 'v option \<times> 't) \<Rightarrow>
    't \<Rightarrow> ('k, 'v) map_op list \<Rightarrow> 'v map_out list" where
  "impl_run lk ins rem t [] = []"
| "impl_run lk ins rem t (OpInsert k v # ops) =
     (case ins t k v of (r, t') \<Rightarrow> OutInsert r # impl_run lk ins rem t' ops)"
| "impl_run lk ins rem t (OpRemove k # ops) =
     (case rem t k of (r, t') \<Rightarrow> OutItem r # impl_run lk ins rem t' ops)"
| "impl_run lk ins rem t (OpLookup k # ops) = OutItem (lk t k) # impl_run lk ins rem t ops"

fun map_run :: "('k \<rightharpoonup> 'v) \<Rightarrow> ('k, 'v) map_op list \<Rightarrow> 'v map_out list" where
  "map_run m [] = []"
| "map_run m (OpInsert k v # ops) =
     (if m k = None then OutInsert (Inr ()) # map_run (m(k \<mapsto> v)) ops
      else OutInsert (Inl EEXIST) # map_run m ops)"
| "map_run m (OpRemove k # ops) = OutItem (m k) # map_run (m(k := None)) ops"
| "map_run m (OpLookup k # ops) = OutItem (m k) # map_run m ops"

locale reliable_index_map = index_map +
  assumes insert_memory: "invar t \<Longrightarrow> insert t k v = (r, t') \<Longrightarrow> r \<noteq> Inl ENOMEM"
begin

lemma run_refines: "invar t \<Longrightarrow> impl_run lookup insert remove t ops = map_run (lookup t) ops"
proof (induction ops arbitrary: t)
  case (Cons x ops)
  show ?case
  proof (cases x)
    case (OpInsert k v)
    obtain r t' where r: "insert t k v = (r, t')"
      by fastforce
    have "r = (if lookup t k = None then Inr () else Inl EEXIST)"
      using insert_result [OF Cons.prems r] insert_memory [OF Cons.prems r] by auto
    then show ?thesis
      using Cons.IH [OF insert_invar [OF Cons.prems r], unfolded insert_lookup [OF Cons.prems r]] OpInsert r
      by (cases "lookup t k = None") (simp_all add: fun_upd_def)
  next
    case (OpRemove k)
    obtain r t' where r: "remove t k = (r, t')"
      by fastforce
    then show ?thesis
      using Cons.IH [OF remove_invar [OF Cons.prems r], unfolded remove_lookup [OF Cons.prems r]]
        remove_result [OF Cons.prems r] OpRemove by (simp add: fun_upd_def)
  qed (use Cons in simp)
qed simp

end

interpretation rx: index_map radix_init radix_lookup "radix_insert mem" radix_remove wf_radix for mem
proof unfold_locales
  fix t :: "'a radix_tree" and k v r t'
  assume wf: "wf_radix t" and ins: "radix_insert mem t k v = (r, t')"
  show "r = Inl ENOMEM \<or> r = (if radix_lookup t k = None then Inr () else Inl EEXIST)"
    using radix_insert_ok(3) [OF wf ins] by (auto split: sum.splits)
qed (rule wf_radix_init radix_lookup_init radix_insert_ok(1,2) radix_remove_ok; assumption)+

interpretation rx21: reliable_index_map radix_init radix_lookup "radix_insert (mem + 21)" radix_remove wf_radix
  for mem
proof unfold_locales
  fix t :: "'a radix_tree" and k v r t'
  assume wf: "wf_radix t" and ins: "radix_insert (mem + 21) t k v = (r, t')"
  show "r \<noteq> Inl ENOMEM"
    using radix_insert_ok(3) [OF wf ins] by (auto split: sum.splits)
qed

subsection \<open>Properties\<close>

text \<open>
  C11: with memory for 21 nodes per insertion, any sequence of insertions, removals and
  lookups that starts from the empty tree returns, step by step, exactly what the same
  sequence returns on a partial map from indices to items.
\<close>

theorem radix_refines_map:
  assumes "21 \<le> mem"
  shows "impl_run radix_lookup (radix_insert mem) radix_remove radix_init ops = map_run Map.empty ops"
proof -
  have "impl_run radix_lookup (radix_insert (mem - 21 + 21)) radix_remove radix_init ops =
      map_run (radix_lookup radix_init) ops"
    by (rule rx21.run_refines) (rule wf_radix_init)
  then show ?thesis
    using assms by simp
qed

theorem radix_refines_map_witness:
  "impl_run radix_lookup (radix_insert 21) radix_remove radix_init
     [OpInsert 5 ''a'', OpInsert 70000 ''b'', OpInsert 5 ''c'', OpRemove 70000, OpLookup 70000, OpLookup 5] =
   [OutInsert (Inr ()), OutInsert (Inr ()), OutInsert (Inl EEXIST), OutItem (Some ''b''), OutItem None,
    OutItem (Some ''a'')]"
  using radix_refines_map [of 21 "[OpInsert 5 ''a'', OpInsert 70000 ''b'', OpInsert 5 ''c'', OpRemove 70000,
    OpLookup 70000, OpLookup 5]"] by simp

text \<open>
  an insertion into a well-formed tree, at any point of memory exhaustion, leaves a
  well-formed tree; it adds the pair and nothing else when it succeeds, and changes no
  lookup when it fails, which it does only for an occupied index or for lack of memory.
\<close>

theorem radix_insert_correct:
  assumes "wf_radix t" "radix_insert mem t index item = (r, t')"
  shows "wf_radix t' \<and> height t' \<le> 11 \<and>
    radix_lookup t' = (if r = Inr () then (radix_lookup t)(index \<mapsto> item) else radix_lookup t) \<and>
    (r = Inl ENOMEM \<and> mem < 21 \<or> r = (if radix_lookup t index = None then Inr () else Inl EEXIST))"
proof -
  have "height t' \<le> 11"
    using radix_insert_ok(1) [OF assms] by (auto simp: wf_radix_def wf_root_def)
  moreover have "r = Inl ENOMEM \<and> mem < 21 \<or> r = (if radix_lookup t index = None then Inr () else Inl EEXIST)"
    using radix_insert_ok(3) [OF assms] by (auto split: sum.splits)
  ultimately show ?thesis
    using radix_insert_ok(1,2) [OF assms] by simp
qed

theorem radix_insert_correct_witness:
  "\<exists>t. radix_insert 0 (radix_init :: nat radix_tree) 7 1 = (Inl ENOMEM, t) \<and> wf_radix t \<and> radix_lookup t = Map.empty"
proof -
  have r: "radix_insert 0 (radix_init :: nat radix_tree) 7 1 = (Inl ENOMEM, radix_init)"
    by (simp add: radix_insert_def radix_init_def)
  show ?thesis
    using radix_insert_correct [OF wf_radix_init r] r by simp
qed

text \<open>
  a removal returns what the lookup returns, leaves a well-formed tree (empty nodes
  are unlinked and the root level is dropped when it holds one subtree) and forgets that
  index only.
\<close>

theorem radix_remove_correct:
  assumes "wf_radix t" "radix_remove t index = (r, t')"
  shows "wf_radix t' \<and> r = radix_lookup t index \<and> radix_lookup t' = (radix_lookup t)(index := None)"
  using radix_remove_ok [OF assms] by blast

theorem radix_remove_correct_witness:
  "case radix_insert 21 radix_init 70000 ''b'' of (_, t) \<Rightarrow>
     (case radix_remove t 70000 of (r, t') \<Rightarrow> r = radix_lookup t 70000 \<and> wf_radix t')"
proof -
  obtain x t where t: "radix_insert 21 radix_init 70000 ''b'' = (x, t)"
    by fastforce
  obtain r t' where r: "radix_remove t 70000 = (r, t')"
    by fastforce
  show ?thesis
    using radix_remove_correct [OF rx.insert_invar [OF wf_radix_init t] r] t r by simp
qed

end
