(* ===== verification/Sort.thy ===== *)
theory Sort
  imports Vex_Prelude "HOL-Library.Multiset"
begin

text \<open>
  The in-place heap sort of \<^verbatim>\<open>kernel/libk/sort.c\<close>. The C function works on a byte array of
  \<open>num\<close> elements (\<^verbatim>\<open>count\<close>) of \<open>size\<close> bytes each and only ever touches whole elements, so the model
  works on the list of the elements. The comparator is an argument; the locale
  \<open>comparator\<close> states what \<^verbatim>\<open>sort\<close> needs of it.
\<close>

definition swap_bytes :: "'a list \<Rightarrow> nat \<Rightarrow> nat \<Rightarrow> 'a list" where
  "swap_bytes base a b = base[a := base ! b, b := base ! a]"

function sift_down :: "('a \<Rightarrow> 'a \<Rightarrow> int) \<Rightarrow> 'a list \<Rightarrow> nat \<Rightarrow> nat \<Rightarrow> 'a list" where
  "sift_down cmp base root num =
     (if 2 * root + 1 < num then
        let child = 2 * root + 1;
            child = (if child + 1 < num \<and> cmp (base ! (child + 1)) (base ! child) > 0 then child + 1 else child)
        in if cmp (base ! root) (base ! child) \<ge> 0 then base
           else sift_down cmp (swap_bytes base root child) child num
      else base)"
  by pat_completeness auto
termination
  by (relation "measure (\<lambda>(_, _, root, num). num - root)") (auto simp: Let_def split: if_splits)

declare sift_down.simps [simp del]

text \<open>The first loop of \<^verbatim>\<open>sort\<close> makes a heap of the array, the second moves its maximum to the end.\<close>

fun heapify :: "('a \<Rightarrow> 'a \<Rightarrow> int) \<Rightarrow> 'a list \<Rightarrow> nat \<Rightarrow> nat \<Rightarrow> 'a list" where
  "heapify cmp base num 0 = base"
| "heapify cmp base num (Suc i) = heapify cmp (sift_down cmp base i num) num i"

fun extract_max :: "('a \<Rightarrow> 'a \<Rightarrow> int) \<Rightarrow> 'a list \<Rightarrow> nat \<Rightarrow> 'a list" where
  "extract_max cmp base end' =
     (if end' > 1 then
        extract_max cmp (sift_down cmp (swap_bytes base 0 (end' - 1)) 0 (end' - 1)) (end' - 1)
      else base)"

declare extract_max.simps [simp del]

definition sort_elements :: "('a \<Rightarrow> 'a \<Rightarrow> int) \<Rightarrow> 'a list \<Rightarrow> 'a list" where
  "sort_elements cmp base =
     (let num = length base; base = heapify cmp base num (num div 2) in extract_max cmp base num)"

subsection \<open>Sifting permutes the first elements\<close>

lemma length_swap_bytes [simp]: "length (swap_bytes xs i j) = length xs"
  by (simp add: swap_bytes_def)

lemma nth_swap_bytes:
  "i < length xs \<Longrightarrow> j < length xs \<Longrightarrow>
    swap_bytes xs i j ! k = (if k = j then xs ! i else if k = i then xs ! j else xs ! k)"
  by (simp add: swap_bytes_def nth_list_update)

lemma mset_swap_bytes [simp]: "i < length xs \<Longrightarrow> j < length xs \<Longrightarrow> mset (swap_bytes xs i j) = mset xs"
  by (simp add: swap_bytes_def mset_swap)

lemma swap_bytes_append:
  "i < length xs \<Longrightarrow> j < length xs \<Longrightarrow> swap_bytes (xs @ ys) i j = swap_bytes xs i j @ ys"
  by (simp add: swap_bytes_def nth_append list_update_append)

lemma length_sift_down [simp]: "length (sift_down cmp xs r n) = length xs"
  by (induction cmp xs r n rule: sift_down.induct) (subst sift_down.simps, auto simp: Let_def)

lemma sift_down_append:
  "n = length xs \<Longrightarrow> sift_down cmp (xs @ ys) r n = sift_down cmp xs r n @ ys"
proof (induction cmp xs r n rule: sift_down.induct)
  case (1 cmp xs r n)
  show ?case
    using 1 by (subst (1 2) sift_down.simps) (auto simp: Let_def nth_append swap_bytes_append)
qed

lemma mset_sift_down: "n \<le> length xs \<Longrightarrow> mset (sift_down cmp xs r n) = mset xs"
proof (induction cmp xs r n rule: sift_down.induct)
  case (1 cmp xs r n)
  show ?case
    using 1 by (subst sift_down.simps) (auto simp: Let_def)
qed

lemma swap_first_last:
  assumes "1 < length as"
  shows "swap_bytes as 0 (length as - 1) = take (length as - 1) (swap_bytes as 0 (length as - 1)) @ [as ! 0]"
proof -
  let ?s = "swap_bytes as 0 (length as - 1)"
  have b: "0 < length as" "length as - 1 < length as"
    using assms by linarith+
  then have "?s \<noteq> []"
    by (metis length_greater_0_conv length_swap_bytes)
  then have "?s = butlast ?s @ [last ?s]"
    by simp
  moreover have "last ?s = as ! 0"
    using \<open>?s \<noteq> []\<close> nth_swap_bytes [OF b] by (simp add: last_conv_nth)
  ultimately show ?thesis
    by (simp add: butlast_conv_take)
qed

subsection \<open>Comparators\<close>

locale comparator =
  fixes cmp :: "'a \<Rightarrow> 'a \<Rightarrow> int"
  assumes cmp_sgn: "sgn (cmp b a) = - sgn (cmp a b)"
    and cmp_trans: "0 \<le> cmp a b \<Longrightarrow> 0 \<le> cmp b c \<Longrightarrow> 0 \<le> cmp a c"
begin

lemma cmp_total: "0 \<le> cmp a b \<or> 0 \<le> cmp b a"
  using cmp_sgn [of a b] by (auto simp: sgn_if split: if_splits)

lemma cmp_le_ge: "cmp a b \<le> 0 \<longleftrightarrow> 0 \<le> cmp b a"
  using cmp_sgn [of a b] by (auto simp: sgn_if split: if_splits)

lemma cmp_refl: "0 \<le> cmp a a"
  using cmp_total by blast

text \<open>Every parent from \<open>lo\<close> on is at least its children, within the first \<open>n\<close> elements.\<close>

definition heap_from :: "'a list \<Rightarrow> nat \<Rightarrow> nat \<Rightarrow> bool" where
  "heap_from xs lo n \<longleftrightarrow> (\<forall>p c. lo \<le> p \<and> (c = 2 * p + 1 \<or> c = 2 * p + 2) \<and> c < n \<longrightarrow> 0 \<le> cmp (xs ! p) (xs ! c))"

definition heap_but :: "'a list \<Rightarrow> nat \<Rightarrow> nat \<Rightarrow> nat \<Rightarrow> bool" where
  "heap_but xs lo r n \<longleftrightarrow>
     (\<forall>p c. lo \<le> p \<and> p \<noteq> r \<and> (c = 2 * p + 1 \<or> c = 2 * p + 2) \<and> c < n \<longrightarrow> 0 \<le> cmp (xs ! p) (xs ! c)) \<and>
     (\<forall>p c. lo \<le> p \<and> (r = 2 * p + 1 \<or> r = 2 * p + 2) \<and> (c = 2 * r + 1 \<or> c = 2 * r + 2) \<and> c < n \<longrightarrow>
        0 \<le> cmp (xs ! p) (xs ! c))"

lemma heap_butD:
  assumes "heap_but xs lo r n" "lo \<le> p" "c < n"
  shows "p \<noteq> r \<Longrightarrow> c = 2 * p + 1 \<or> c = 2 * p + 2 \<Longrightarrow> 0 \<le> cmp (xs ! p) (xs ! c)"
    and "r = 2 * p + 1 \<or> r = 2 * p + 2 \<Longrightarrow> c = 2 * r + 1 \<or> c = 2 * r + 2 \<Longrightarrow> 0 \<le> cmp (xs ! p) (xs ! c)"
  using assms unfolding heap_but_def by blast+

lemma heap_but_swap:
  assumes "n \<le> length xs" "lo \<le> r" "heap_but xs lo r n" "child < n"
    and child: "child = 2 * r + 1 \<or> child = 2 * r + 2"
    and larger: "\<And>c. c = 2 * r + 1 \<or> c = 2 * r + 2 \<Longrightarrow> c < n \<Longrightarrow> 0 \<le> cmp (xs ! child) (xs ! c)"
    and less: "\<not> 0 \<le> cmp (xs ! r) (xs ! child)"
  shows "heap_but (swap_bytes xs r child) lo child n"
proof -
  have bounds: "r < length xs" "child < length xs"
    using assms by auto
  have ge: "0 \<le> cmp (xs ! child) (xs ! r)"
    using less cmp_total by blast
  note nth = nth_swap_bytes [OF bounds]
  have "0 \<le> cmp (swap_bytes xs r child ! p) (swap_bytes xs r child ! c)"
    if "lo \<le> p" "p \<noteq> child" "c = 2 * p + 1 \<or> c = 2 * p + 2" "c < n" for p c
  proof (cases "p = r")
    case True
    have "c \<noteq> r" "r \<noteq> child"
      using True that(3) child by linarith+
    then show ?thesis
      using True ge larger [of c] that unfolding nth by simp
  next
    case False
    have "c \<noteq> child"
      using False that(3) child by linarith
    moreover have "0 \<le> cmp (xs ! p) (xs ! child)" if "c = r"
      using heap_butD(2) [OF assms(3) \<open>lo \<le> p\<close> assms(4)] \<open>c = 2 * p + 1 \<or> c = 2 * p + 2\<close> that child by simp
    ultimately show ?thesis
      using False heap_butD(1) [OF assms(3) that(1,4)] that unfolding nth by simp
  qed
  moreover have "0 \<le> cmp (swap_bytes xs r child ! p) (swap_bytes xs r child ! c)"
    if "lo \<le> p" "child = 2 * p + 1 \<or> child = 2 * p + 2" "c = 2 * child + 1 \<or> c = 2 * child + 2" "c < n" for p c
  proof -
    have "p = r" "c \<noteq> r" "c \<noteq> child" "r \<noteq> child" "lo \<le> child"
      using that(2,3) child assms(2) by linarith+
    then show ?thesis
      using heap_butD(1) [OF assms(3) _ that(4), of child] that(3) assms(2) child unfolding nth by simp
  qed
  ultimately show ?thesis
    unfolding heap_but_def by blast
qed

lemma sift_down_heap:
  assumes "n \<le> length xs" "lo \<le> r" "heap_but xs lo r n"
  shows "heap_from (sift_down cmp xs r n) lo n"
  using assms
proof (induction "n - r" arbitrary: xs r rule: less_induct)
  case less
  let ?l = "2 * r + 1"
  let ?child = "if ?l + 1 < n \<and> 0 < cmp (xs ! (?l + 1)) (xs ! ?l) then ?l + 1 else ?l"
  show ?case
  proof (cases "?l < n")
    case False
    then show ?thesis
      using less.prems by (subst sift_down.simps) (auto simp: heap_from_def heap_but_def)
  next
    case True
    have child: "?child = 2 * r + 1 \<or> ?child = 2 * r + 2" "?child < n"
      using True by auto
    have larger: "0 \<le> cmp (xs ! ?child) (xs ! c)" if "c = 2 * r + 1 \<or> c = 2 * r + 2" "c < n" for c
      using that cmp_refl cmp_le_ge [of "xs ! (?l + 1)" "xs ! ?l"] by (auto simp: not_less)
    show ?thesis
    proof (cases "0 \<le> cmp (xs ! r) (xs ! ?child)")
      case ge: True
      have "0 \<le> cmp (xs ! r) (xs ! c)" if "c = 2 * r + 1 \<or> c = 2 * r + 2" "c < n" for c
        by (rule cmp_trans [OF ge larger [OF that]])
      then have "heap_from xs lo n"
        using less.prems(3) unfolding heap_from_def heap_but_def by metis
      moreover have "sift_down cmp xs r n = xs"
        using True ge by (subst sift_down.simps) (simp only: Let_def if_True)
      ultimately show ?thesis by simp
    next
      case False
      have "heap_but (swap_bytes xs r ?child) lo ?child n"
        using heap_but_swap [OF less.prems child(2,1) larger False] .
      moreover have "sift_down cmp xs r n = sift_down cmp (swap_bytes xs r ?child) ?child n"
        using True False by (subst sift_down.simps) (simp only: Let_def if_True if_False)
      ultimately show ?thesis
        using less.hyps [of ?child "swap_bytes xs r ?child"] less.prems True by auto
    qed
  qed
qed

lemma heapify_heap:
  "n = length xs \<Longrightarrow> heap_from xs i n \<Longrightarrow> heap_from (heapify cmp xs n i) 0 n"
proof (induction i arbitrary: xs)
  case (Suc i)
  have "heap_but xs i i n"
    unfolding heap_but_def
  proof (intro conjI allI impI)
    fix p c
    assume A: "i \<le> p \<and> p \<noteq> i \<and> (c = 2 * p + 1 \<or> c = 2 * p + 2) \<and> c < n"
    then have "Suc i \<le> p"
      by simp
    with A Suc.prems(2) show "0 \<le> cmp (xs ! p) (xs ! c)"
      unfolding heap_from_def by blast
  qed linarith
  then have "heap_from (sift_down cmp xs i n) i n"
    using Suc.prems(1) by (intro sift_down_heap) auto
  then show ?case
    using Suc.IH [of "sift_down cmp xs i n"] Suc.prems(1) by simp
qed simp

lemma heap_root_max:
  assumes "heap_from xs 0 n" "c < n"
  shows "0 \<le> cmp (xs ! 0) (xs ! c)"
  using assms(2)
proof (induction c rule: less_induct)
  case (less c)
  show ?case
  proof (cases "c = 0")
    case True
    then show ?thesis by (simp add: cmp_refl)
  next
    case False
    let ?p = "(c - 1) div 2"
    have "c = 2 * ?p + 1 \<or> c = 2 * ?p + 2" "?p < c"
      using False by presburger+
    moreover from this have "0 \<le> cmp (xs ! ?p) (xs ! c)"
      using assms(1) less.prems unfolding heap_from_def by blast
    ultimately show ?thesis
      using less.IH [of ?p] less.prems cmp_trans by simp
  qed
qed

lemma extract_max_sorted:
  assumes "heap_from as 0 (length as)" "sorted_wrt (\<lambda>a b. cmp a b \<le> 0) bs"
    "\<And>a b. a \<in> set as \<Longrightarrow> b \<in> set bs \<Longrightarrow> cmp a b \<le> 0"
  shows "sorted_wrt (\<lambda>a b. cmp a b \<le> 0) (extract_max cmp (as @ bs) (length as)) \<and>
    mset (extract_max cmp (as @ bs) (length as)) = mset (as @ bs)"
  using assms
proof (induction "length as" arbitrary: as bs rule: less_induct)
  case less
  let ?e = "length as"
  show ?case
  proof (cases "1 < ?e")
    case False
    then have "as = [] \<or> (\<exists>a. as = [a])"
      by (cases as; cases "tl as") auto
    then show ?thesis
      using less.prems False by (subst (1 2) extract_max.simps) auto
  next
    case True
    let ?s = "swap_bytes as 0 (?e - 1)"
    let ?cs = "take (?e - 1) ?s"
    let ?ds = "sift_down cmp ?cs 0 (length ?cs)"
    have len: "length ?cs = ?e - 1"
      by simp
    have b: "0 < ?e" "?e - 1 < ?e"
      using True by linarith+
    have s: "?s = ?cs @ [as ! 0]"
      using True by (rule swap_first_last)
    have mset_as: "mset as = add_mset (as ! 0) (mset ?cs)"
    proof -
      have "mset ?s = mset as"
        using True by (intro mset_swap_bytes) linarith+
      then show ?thesis
        by (subst (asm) s) simp
    qed
    have ds: "mset ?ds = mset ?cs"
      by (rule mset_sift_down) simp
    have set_ds: "set ?ds \<subseteq> set as"
      using mset_eq_setD [OF ds] arg_cong [OF mset_as, of set_mset] by auto
    have max: "cmp a (as ! 0) \<le> 0" if "a \<in> set as" for a
      using heap_root_max [OF less.prems(1)] that by (auto simp: in_set_conv_nth cmp_le_ge)
    have "?cs ! k = as ! k" if "0 < k" "k < ?e - 1" for k
      using that nth_swap_bytes [OF b] by simp
    then have "heap_but ?cs 0 0 (length ?cs)"
      using less.prems(1) unfolding heap_but_def heap_from_def len by auto
    then have heap: "heap_from ?ds 0 (length ?ds)"
      using sift_down_heap [of "length ?cs" ?cs 0 0] by simp
    have step: "extract_max cmp (as @ bs) ?e = extract_max cmp (?ds @ (as ! 0 # bs)) (length ?ds)"
    proof -
      have "swap_bytes (as @ bs) 0 (?e - 1) = ?s @ bs"
        using True by (intro swap_bytes_append) linarith+
      also have "\<dots> = ?cs @ (as ! 0 # bs)"
        by (subst s) simp
      finally show ?thesis
        using True sift_down_append [of "length ?cs" ?cs cmp "as ! 0 # bs" 0] len
        by (subst extract_max.simps) (simp del: take_append)
    qed
    have nonempty: "as ! 0 \<in> set as"
      using b(1) by (rule nth_mem)
    have "sorted_wrt (\<lambda>a b. cmp a b \<le> 0) (extract_max cmp (?ds @ (as ! 0 # bs)) (length ?ds)) \<and>
      mset (extract_max cmp (?ds @ (as ! 0 # bs)) (length ?ds)) = mset (?ds @ (as ! 0 # bs))"
    proof (rule less.hyps)
      show "length ?ds < ?e"
        using True by simp
      show "heap_from ?ds 0 (length ?ds)"
        by (rule heap)
      show "sorted_wrt (\<lambda>a b. cmp a b \<le> 0) (as ! 0 # bs)"
        using less.prems(2,3) nonempty by simp
      show "cmp a b \<le> 0" if "a \<in> set ?ds" "b \<in> set (as ! 0 # bs)" for a b
        using that set_ds max less.prems(3) by auto
    qed
    then show ?thesis
      unfolding step using ds mset_as by simp
  qed
qed

lemma sort_elements_correct:
  "sorted_wrt (\<lambda>a b. cmp a b \<le> 0) (sort_elements cmp xs) \<and> mset (sort_elements cmp xs) = mset xs"
proof -
  let ?hs = "heapify cmp xs (length xs) (length xs div 2)"
  have "mset (heapify cmp ys (length ys) i) = mset ys \<and> length (heapify cmp ys (length ys) i) = length ys" for ys :: "'a list" and i
  proof (induction i arbitrary: ys)
    case (Suc i)
    show ?case
      using Suc.IH [of "sift_down cmp ys i (length ys)"] by (simp add: mset_sift_down)
  qed simp
  then have hs: "mset ?hs = mset xs" "length ?hs = length xs"
    by blast+
  have "heap_from xs (length xs div 2) (length xs)"
    unfolding heap_from_def by auto
  then have "heap_from ?hs 0 (length xs)"
    by (rule heapify_heap [OF refl])
  then show ?thesis
    using extract_max_sorted [of ?hs "[]"] hs by (simp add: sort_elements_def Let_def)
qed

end

text \<open>
  C34: for every comparator that is antisymmetric in sign and transitive, \<^verbatim>\<open>sort\<close> leaves a
  permutation of the array in ascending order.
\<close>

theorem sort_sorts:
  assumes "comparator cmp"
  shows "sorted_wrt (\<lambda>a b. cmp a b \<le> 0) (sort_elements cmp xs) \<and> mset (sort_elements cmp xs) = mset xs"
  by (rule comparator.sort_elements_correct [OF assms])

theorem sort_sorts_witness:
  "sort_elements (\<lambda>a b :: int. a - b) [3, 1, 2, 1] = [1, 1, 2, 3] \<and>
    sorted_wrt (\<lambda>a b. a - b \<le> 0) (sort_elements (\<lambda>a b :: int. a - b) [3, 1, 2, 1])"
proof -
  have "comparator (\<lambda>a b :: int. a - b)"
    by unfold_locales (auto simp: sgn_if)
  then have "sorted_wrt (\<lambda>a b. a - b \<le> 0) (sort_elements (\<lambda>a b :: int. a - b) [3, 1, 2, 1])"
    using sort_sorts by blast
  moreover have "sort_elements (\<lambda>a b :: int. a - b) [3, 1, 2, 1] = [1, 1, 2, 3]"
    by code_simp
  ultimately show ?thesis by blast
qed

end
