(* ===== verification/Cred.thy ===== *)
theory Cred
  imports Sort
begin

text \<open>
  Credentials and capabilities, \<^verbatim>\<open>kernel/proc/cred.c\<close>. User and group ids are signed 32-bit
  values in C and are only stored and compared, so they are \<open>int\<close> here. Capability sets are
  64-bit words, reference counts 32-bit words. The flexible array \<^verbatim>\<open>groups\<close> and its length
  \<^verbatim>\<open>num_groups\<close> are one list. A function that writes through its credentials pointer and
  returns an error code returns both. \<^verbatim>\<open>kassert\<close> conditions on null pointers hold by typing.
\<close>

record credentials =
  refcount :: u32
  uid :: int
  euid :: int
  suid :: int
  gid :: int
  egid :: int
  sgid :: int
  cap_effective :: u64
  cap_permitted :: u64
  cap_ambient :: u64
  cap_bounding :: u64
  cap_flags :: u32
  groups :: "int list"

record caps =
  effective :: u64
  permitted :: u64
  ambient :: u64
  bounding :: u64
  flags :: u32
  reserved :: u32

record file_caps =
  fc_permitted :: u64
  fc_inheritable :: u64
  fc_effective :: bool

definition ID_UNCHANGED :: int where
  "ID_UNCHANGED = -1"

definition CAP_SETGID :: nat where
  "CAP_SETGID = 6"

definition CAP_SETUID :: nat where
  "CAP_SETUID = 7"

definition CAP_TO_MASK :: "nat \<Rightarrow> u64" where
  "CAP_TO_MASK cap = push_bit cap 1"

definition CAP_FULL_SET :: u64 where
  "CAP_FULL_SET = - 1"

definition CAPS_KEEP :: u32 where
  "CAPS_KEEP = 1"

definition kernel_credentials :: credentials where
  "kernel_credentials = \<lparr>refcount = 1, uid = 0, euid = 0, suid = 0, gid = 0, egid = 0, sgid = 0,
     cap_effective = CAP_FULL_SET, cap_permitted = CAP_FULL_SET, cap_ambient = 0,
     cap_bounding = CAP_FULL_SET, cap_flags = 0, groups = []\<rparr>"

definition compare_gids :: "int \<Rightarrow> int \<Rightarrow> int" where
  "compare_gids gid_a gid_b = (if gid_a < gid_b then -1 else if gid_a > gid_b then 1 else 0)"

definition check_id :: "int \<Rightarrow> int \<Rightarrow> int \<Rightarrow> int \<Rightarrow> bool \<Rightarrow> unit result" where
  "check_id wanted r e s capable =
     (if wanted < ID_UNCHANGED then Inl EINVAL
      else if capable \<or> wanted = ID_UNCHANGED \<or> wanted = r \<or> wanted = e \<or> wanted = s then Inr ()
      else Inl EPERM)"

definition check_res :: "int \<Rightarrow> int \<Rightarrow> int \<Rightarrow> int \<Rightarrow> int \<Rightarrow> int \<Rightarrow> bool \<Rightarrow> unit result" where
  "check_res new_r new_e new_s r e s capable =
     (let retval = check_id new_r r e s capable;
          retval = (if retval = Inr () then check_id new_e r e s capable else retval)
      in if retval = Inr () then check_id new_s r e s capable else retval)"

definition fixup_caps :: "credentials \<Rightarrow> int \<Rightarrow> int \<Rightarrow> int \<Rightarrow> credentials" where
  "fixup_caps c old_r old_e old_s =
     (let was_root = (old_r = 0 \<or> old_e = 0 \<or> old_s = 0);
          is_root = (uid c = 0 \<or> euid c = 0 \<or> suid c = 0);
          c = (if was_root \<and> \<not> is_root \<and> cap_flags c AND CAPS_KEEP = 0
               then c\<lparr>cap_permitted := 0, cap_ambient := 0\<rparr> else c);
          c = (if old_e = 0 \<and> euid c \<noteq> 0 then c\<lparr>cap_effective := 0\<rparr> else c)
      in if old_e \<noteq> 0 \<and> euid c = 0 then c\<lparr>cap_effective := cap_permitted c\<rparr> else c)"

definition apply_id :: "int \<Rightarrow> int \<Rightarrow> int" where
  "apply_id id' wanted = (if wanted \<noteq> ID_UNCHANGED then wanted else id')"

text \<open>
  Copies. Both allocators zero the memory they return; \<open>alloc\<close> says whether the
  allocation succeeds.
\<close>

definition cred_copy_ids :: "bool \<Rightarrow> credentials \<Rightarrow> nat \<Rightarrow> credentials option" where
  "cred_copy_ids alloc c num_groups =
     (if \<not> alloc then None else Some (c\<lparr>refcount := 1, groups := replicate num_groups 0\<rparr>))"

definition cred_copy :: "bool \<Rightarrow> credentials \<Rightarrow> credentials option" where
  "cred_copy alloc c =
     (case cred_copy_ids alloc c (length (groups c)) of
        None \<Rightarrow> None
      | Some copy \<Rightarrow> Some (copy\<lparr>groups := groups c\<rparr>))"

definition cred_incref :: "credentials \<Rightarrow> credentials" where
  "cred_incref c = c\<lparr>refcount := refcount c + 1\<rparr>"

text \<open>The flag says that the last reference is gone and the memory is freed.\<close>

definition cred_decref :: "credentials \<Rightarrow> credentials \<times> bool" where
  "cred_decref c = (c\<lparr>refcount := refcount c - 1\<rparr>, refcount c = 1)"

definition cred_capable :: "credentials \<Rightarrow> nat \<Rightarrow> bool" where
  "cred_capable c cap = (cap_effective c AND CAP_TO_MASK cap \<noteq> 0)"

definition cred_setcaps :: "credentials \<Rightarrow> caps \<Rightarrow> unit result \<times> credentials" where
  "cred_setcaps c caps =
     (if flags caps AND NOT CAPS_KEEP \<noteq> 0 \<or> reserved caps \<noteq> 0 then (Inl EINVAL, c)
      else if permitted caps AND NOT (cap_permitted c) \<noteq> 0 \<or> bounding caps AND NOT (cap_bounding c) \<noteq> 0
      then (Inl EPERM, c)
      else if effective caps AND NOT (permitted caps) \<noteq> 0 \<or> ambient caps AND NOT (permitted caps) \<noteq> 0
      then (Inl EPERM, c)
      else (Inr (), c\<lparr>cap_effective := effective caps, cap_permitted := permitted caps,
                      cap_ambient := ambient caps, cap_bounding := bounding caps,
                      cap_flags := flags caps\<rparr>))"

definition cred_exec_caps :: "credentials \<Rightarrow> bool \<Rightarrow> file_caps option \<Rightarrow> unit result \<times> credentials" where
  "cred_exec_caps c privileged file =
     (let c = (if privileged \<or> file \<noteq> None then c\<lparr>cap_ambient := 0\<rparr> else c);
          c = c\<lparr>cap_flags := 0\<rparr>
      in if euid c = 0 then
           let c = c\<lparr>cap_permitted := cap_bounding c\<rparr>;
               c = c\<lparr>cap_ambient := cap_ambient c AND cap_permitted c\<rparr>
           in (Inr (), c\<lparr>cap_effective := cap_permitted c\<rparr>)
         else
           let c = c\<lparr>cap_permitted := cap_ambient c AND cap_bounding c\<rparr>;
               c = c\<lparr>cap_ambient := cap_ambient c AND cap_permitted c\<rparr>;
               c = c\<lparr>cap_effective := cap_ambient c\<rparr>
           in case file of
                None \<Rightarrow> (Inr (), c)
              | Some file \<Rightarrow>
                  if fc_effective file \<and> fc_permitted file AND NOT (cap_bounding c) \<noteq> 0 then (Inl EPERM, c)
                  else
                    let c = c\<lparr>cap_permitted := cap_permitted c OR (fc_permitted file AND cap_bounding c)\<rparr>
                    in (Inr (), if fc_effective file then c\<lparr>cap_effective := cap_permitted c\<rparr> else c))"

definition cred_exec_secure :: "credentials \<Rightarrow> bool" where
  "cred_exec_secure c =
     (if uid c \<noteq> euid c \<or> gid c \<noteq> egid c then True
      else uid c \<noteq> 0 \<and> cap_permitted c AND NOT (cap_ambient c) \<noteq> 0)"

function group_search :: "int list \<Rightarrow> int \<Rightarrow> nat \<Rightarrow> nat \<Rightarrow> bool" where
  "group_search gs g low high =
     (if low < high then
        let mid = low + (high - low) div 2
        in if gs ! mid = g then True
           else if gs ! mid < g then group_search gs g (mid + 1) high
           else group_search gs g low mid
      else False)"
  by pat_completeness auto
termination
  by (relation "measure (\<lambda>(_, _, low, high). high - low)") auto

declare group_search.simps [simp del]

definition cred_in_group :: "credentials \<Rightarrow> int \<Rightarrow> bool" where
  "cred_in_group c g = (if egid c = g then True else group_search (groups c) g 0 (length (groups c)))"

definition cred_setresuid :: "credentials \<Rightarrow> int \<Rightarrow> int \<Rightarrow> int \<Rightarrow> unit result \<times> credentials" where
  "cred_setresuid c ruid euid' suid' =
     (let capable = cred_capable c CAP_SETUID
      in case check_res ruid euid' suid' (uid c) (euid c) (suid c) capable of
           Inl e \<Rightarrow> (Inl e, c)
         | Inr _ \<Rightarrow>
             let old_r = uid c; old_e = euid c; old_s = suid c;
                 c = c\<lparr>uid := apply_id (uid c) ruid, euid := apply_id (euid c) euid',
                       suid := apply_id (suid c) suid'\<rparr>
             in (Inr (), fixup_caps c old_r old_e old_s))"

definition cred_setresgid :: "credentials \<Rightarrow> int \<Rightarrow> int \<Rightarrow> int \<Rightarrow> unit result \<times> credentials" where
  "cred_setresgid c rgid egid' sgid' =
     (let capable = cred_capable c CAP_SETGID
      in case check_res rgid egid' sgid' (gid c) (egid c) (sgid c) capable of
           Inl e \<Rightarrow> (Inl e, c)
         | Inr _ \<Rightarrow> (Inr (), c\<lparr>gid := apply_id (gid c) rgid, egid := apply_id (egid c) egid',
                               sgid := apply_id (sgid c) sgid'\<rparr>))"

definition cred_sort_groups :: "credentials \<Rightarrow> unit result \<times> credentials" where
  "cred_sort_groups c =
     (if \<exists>g\<in>set (groups c). g < 0 then (Inl EINVAL, c)
      else (Inr (), c\<lparr>groups := sort_elements compare_gids (groups c)\<rparr>))"

text \<open>
  File capabilities: the extended attribute is copied over a zeroed 24-byte structure of
  six little-endian words (the magic, two pairs of sets, the root id).
\<close>

definition le32 :: "u8 list \<Rightarrow> nat \<Rightarrow> u32" where
  "le32 bs off =
     ucast (bs ! off) OR push_bit 8 (ucast (bs ! (off + 1))) OR push_bit 16 (ucast (bs ! (off + 2)))
       OR push_bit 24 (ucast (bs ! (off + 3)))"

definition cred_parse_file_caps :: "u8 list \<Rightarrow> file_caps result" where
  "cred_parse_file_caps value =
     (let size = length value
      in if size < 4 \<or> size > 24 then Inl EINVAL
         else
           let data = value @ replicate (24 - size) 0;
               magic = le32 data 0;
               revision = magic AND 0xFF000000;
               expected = (if revision = 0x01000000 then Some 12 else if revision = 0x02000000 then Some 20
                           else if revision = 0x03000000 then Some 24 else None)
           in case expected of None \<Rightarrow> Inl EINVAL | Some expected \<Rightarrow>
                if size \<noteq> expected then Inl EINVAL
                else if revision = 0x03000000 \<and> le32 data 20 \<noteq> 0 then Inl ENODATA
                else
                  let permitted = ucast (le32 data 4) :: u64;
                      inheritable = ucast (le32 data 8) :: u64;
                      hi = (revision \<noteq> 0x01000000)
                  in Inr \<lparr>fc_permitted = (if hi then permitted OR push_bit 32 (ucast (le32 data 12)) else permitted),
                          fc_inheritable = (if hi then inheritable OR push_bit 32 (ucast (le32 data 16)) else inheritable),
                          fc_effective = (magic AND 1 \<noteq> 0)\<rparr>)"

subsection \<open>Capability sets\<close>

definition cap_subset :: "u64 \<Rightarrow> u64 \<Rightarrow> bool" where
  "cap_subset a b \<longleftrightarrow> a AND NOT b = 0"

text \<open>What the kernel means the sets of one process to satisfy.\<close>

definition caps_ok :: "credentials \<Rightarrow> bool" where
  "caps_ok c \<longleftrightarrow> cap_subset (cap_effective c) (cap_permitted c) \<and> cap_subset (cap_ambient c) (cap_permitted c)"

lemma cap_subset_iff: "cap_subset a b = (\<forall>k. bit a k \<longrightarrow> bit b k)"
  by (simp add: cap_subset_def and_not_eq_0_iff)

lemma cap_subset_simps [simp]:
  "cap_subset 0 b" "cap_subset a a" "cap_subset (a AND b) a" "cap_subset (a AND b) b" "cap_subset a (a OR b)"
  by (auto simp: cap_subset_iff bit_simps)

lemma cap_subset_trans: "cap_subset a b \<Longrightarrow> cap_subset b c \<Longrightarrow> cap_subset a c"
  by (simp add: cap_subset_iff)

lemma cap_subset_OR: "cap_subset (a OR b) c \<longleftrightarrow> cap_subset a c \<and> cap_subset b c"
  by (auto simp: cap_subset_iff bit_simps)

lemma cap_subset_AND: "cap_subset a (b AND c) \<longleftrightarrow> cap_subset a b \<and> cap_subset a c"
  by (auto simp: cap_subset_iff bit_simps)

lemmas cred_defs = cred_setcaps_def cred_exec_caps_def cred_setresuid_def cred_setresgid_def
  fixup_caps_def check_res_def check_id_def apply_id_def

lemma fixup_caps_ids [simp]:
  "uid (fixup_caps c r e s) = uid c" "euid (fixup_caps c r e s) = euid c" "suid (fixup_caps c r e s) = suid c"
  by (simp_all add: fixup_caps_def Let_def)

lemma check_id_Inl: "check_id w r e s capable = Inl err \<Longrightarrow> err \<in> {EINVAL, EPERM}"
  by (auto simp: check_id_def split: if_splits)

lemma check_id_unprivileged:
  assumes "check_id w r e s False = Inr u" "x \<in> {r, e, s}"
  shows "apply_id x w \<in> {r, e, s} \<and> -1 \<le> w"
  using assms by (auto simp: check_id_def apply_id_def ID_UNCHANGED_def split: if_splits)

lemma check_res_Inl: "check_res x y z r e s capable = Inl err \<Longrightarrow> err \<in> {EINVAL, EPERM}"
  using check_id_Inl by (simp add: check_res_def Let_def split: if_splits)

lemma check_res_Inr:
  "check_res x y z r e s capable = Inr u \<Longrightarrow>
    check_id x r e s capable = Inr () \<and> check_id y r e s capable = Inr () \<and> check_id z r e s capable = Inr ()"
  by (auto simp: check_res_def Let_def split: if_splits)

lemma check_res_unprivileged:
  assumes "check_res x y z r e s False = Inr u"
  shows "{apply_id r x, apply_id e y, apply_id s z} \<subseteq> {r, e, s}" "-1 \<le> x \<and> -1 \<le> y \<and> -1 \<le> z"
  using check_res_Inr [OF assms] check_id_unprivileged by (blast, blast)

subsection \<open>Group membership\<close>

interpretation gids: comparator compare_gids
  by unfold_locales (auto simp: compare_gids_def split: if_splits)

lemma compare_gids_le: "compare_gids a b \<le> 0 \<longleftrightarrow> a \<le> b"
  by (simp add: compare_gids_def)

lemma sorted_sort_gids: "sorted (sort_elements compare_gids gs)"
  using gids.sort_elements_correct [of gs] by (simp add: compare_gids_le sorted_wrt_iff_nth_less sorted_iff_nth_mono_less)

lemma group_search_iff:
  "sorted gs \<Longrightarrow> high \<le> length gs \<Longrightarrow>
    group_search gs g low high = (\<exists>k. low \<le> k \<and> k < high \<and> gs ! k = g)"
proof (induction gs g low high rule: group_search.induct)
  case (1 gs g low high)
  show ?case
  proof (cases "low < high")
    case False
    then show ?thesis by (subst group_search.simps) auto
  next
    case True
    let ?mid = "low + (high - low) div 2"
    have mid: "low \<le> ?mid" "?mid < high"
      using True by auto
    have mono: "gs ! j \<le> gs ! k" if "j \<le> k" "k < high" for j k
      using that "1.prems" by (intro sorted_nth_mono) auto
    consider (eq) "gs ! ?mid = g" | (less) "gs ! ?mid < g" | (greater) "g < gs ! ?mid"
      by linarith
    then show ?thesis
    proof cases
      case eq
      then show ?thesis
        using True mid by (subst group_search.simps) (auto intro: exI [of _ ?mid])
    next
      case less
      have "(low \<le> k \<and> k < high \<and> gs ! k = g) = (?mid + 1 \<le> k \<and> k < high \<and> gs ! k = g)" for k
        using mono [of k ?mid] mid less by (cases "k \<le> ?mid") auto
      moreover have "group_search gs g low high = group_search gs g (?mid + 1) high"
        using True less by (subst group_search.simps) (simp add: Let_def)
      ultimately show ?thesis
        using "1.IH"(1) [OF True refl _ less] less "1.prems" by simp
    next
      case greater
      have "(low \<le> k \<and> k < high \<and> gs ! k = g) = (low \<le> k \<and> k < ?mid \<and> gs ! k = g)" for k
        using mono [of ?mid k] mid greater by (cases "?mid \<le> k") auto
      moreover have "group_search gs g low high = group_search gs g low ?mid"
        using True greater by (subst group_search.simps) (simp add: Let_def)
      ultimately show ?thesis
        using "1.IH"(2) [OF True refl] greater "1.prems" mid by simp
    qed
  qed
qed

lemma cred_in_group_iff:
  assumes "sorted (groups c)"
  shows "cred_in_group c g \<longleftrightarrow> g = egid c \<or> g \<in> set (groups c)"
  using group_search_iff [OF assms order_refl, of g 0] by (auto simp: cred_in_group_def in_set_conv_nth)

subsection \<open>File capabilities\<close>

definition le32_bytes :: "u32 \<Rightarrow> u8 list" where
  "le32_bytes w = [ucast w, ucast (drop_bit 8 w), ucast (drop_bit 16 w), ucast (drop_bit 24 w)]"

lemma length_le32_bytes [simp]: "length (le32_bytes w) = 4"
  by (simp add: le32_bytes_def)

lemma le32_join:
  "(ucast (ucast w :: u8) OR push_bit 8 (ucast (ucast (drop_bit 8 w) :: u8)) OR
    push_bit 16 (ucast (ucast (drop_bit 16 w) :: u8)) OR push_bit 24 (ucast (ucast (drop_bit 24 w) :: u8)) :: u32) = w"
proof (rule bit_word_eqI)
  fix n
  assume "n < LENGTH(32)"
  then show "bit (ucast (ucast w :: u8) OR push_bit 8 (ucast (ucast (drop_bit 8 w) :: u8)) OR
    push_bit 16 (ucast (ucast (drop_bit 16 w) :: u8)) OR push_bit 24 (ucast (ucast (drop_bit 24 w) :: u8)) :: u32) n
      = bit w n"
    by (cases "n < 8"; cases "n < 16"; cases "n < 24") (auto simp: bit_simps)
qed

lemma le32_bytes_le32: "length xs = off \<Longrightarrow> le32 (xs @ le32_bytes w @ ys) off = w"
  using le32_join [of w] by (simp add: le32_def le32_bytes_def nth_append)

text \<open>The layout \<^verbatim>\<open>struct __k_vfs_cap_data\<close> of revision 2 (64-bit sets) and of revision 3 (a root id after them).\<close>

definition encode_file_caps :: "file_caps \<Rightarrow> u32 option \<Rightarrow> u8 list" where
  "encode_file_caps f rootid =
     le32_bytes ((if rootid = None then 0x02000000 else 0x03000000) OR (if fc_effective f then 1 else 0)) @
     le32_bytes (ucast (fc_permitted f)) @ le32_bytes (ucast (fc_inheritable f)) @
     le32_bytes (ucast (drop_bit 32 (fc_permitted f))) @ le32_bytes (ucast (drop_bit 32 (fc_inheritable f))) @
     (case rootid of None \<Rightarrow> [] | Some w \<Rightarrow> le32_bytes w)"

lemma halves_join: "(ucast (ucast w :: u32) OR push_bit 32 (ucast (ucast (drop_bit 32 w) :: u32)) :: u64) = w"
proof (rule bit_word_eqI)
  fix n
  assume "n < LENGTH(64)"
  then show "bit (ucast (ucast w :: u32) OR push_bit 32 (ucast (ucast (drop_bit 32 w) :: u32)) :: u64) n = bit w n"
    by (cases "n < 32") (auto simp: bit_simps)
qed

lemma le32_words:
  "le32 (le32_bytes a @ le32_bytes b @ le32_bytes c @ le32_bytes d @ le32_bytes e @ zs) 0 = a"
  "le32 (le32_bytes a @ le32_bytes b @ le32_bytes c @ le32_bytes d @ le32_bytes e @ zs) 4 = b"
  "le32 (le32_bytes a @ le32_bytes b @ le32_bytes c @ le32_bytes d @ le32_bytes e @ zs) 8 = c"
  "le32 (le32_bytes a @ le32_bytes b @ le32_bytes c @ le32_bytes d @ le32_bytes e @ zs) 12 = d"
  "le32 (le32_bytes a @ le32_bytes b @ le32_bytes c @ le32_bytes d @ le32_bytes e @ zs) 16 = e"
  "le32 (le32_bytes a @ le32_bytes b @ le32_bytes c @ le32_bytes d @ le32_bytes e @ le32_bytes f @ ys) 20 = f"
  using le32_bytes_le32 [of "[]" 0 a] le32_bytes_le32 [of "le32_bytes a" 4 b]
    le32_bytes_le32 [of "le32_bytes a @ le32_bytes b" 8 c]
    le32_bytes_le32 [of "le32_bytes a @ le32_bytes b @ le32_bytes c" 12 d]
    le32_bytes_le32 [of "le32_bytes a @ le32_bytes b @ le32_bytes c @ le32_bytes d" 16 e]
    le32_bytes_le32 [of "le32_bytes a @ le32_bytes b @ le32_bytes c @ le32_bytes d @ le32_bytes e" 20 f]
  by simp_all

lemma parse_encode_v2: "cred_parse_file_caps (encode_file_caps f None) = Inr f"
  by (cases f) (simp add: cred_parse_file_caps_def encode_file_caps_def Let_def le32_words halves_join)

lemma parse_encode_v3:
  "cred_parse_file_caps (encode_file_caps f (Some rootid)) = (if rootid = 0 then Inr f else Inl ENODATA)"
  using le32_words(6) [where ys = "[]"]
  by (cases f) (simp add: cred_parse_file_caps_def encode_file_caps_def Let_def le32_words halves_join)

subsection \<open>Properties\<close>

text \<open>
  C20: \<^verbatim>\<open>cred_setcaps\<close> never raises privilege. On success the permitted and bounding sets have
  only shrunk, the effective and ambient sets lie inside the new permitted set, and no id
  or group has changed; on any error nothing has changed.
\<close>

theorem cred_setcaps_monotone:
  assumes "cred_setcaps c cs = (r, c')"
  shows "case r of
      Inr _ \<Rightarrow> cap_subset (cap_permitted c') (cap_permitted c) \<and> cap_subset (cap_bounding c') (cap_bounding c) \<and>
        caps_ok c' \<and> (uid c', euid c', suid c', gid c', egid c', sgid c', groups c') =
          (uid c, euid c, suid c, gid c, egid c, sgid c, groups c)
    | Inl e \<Rightarrow> c' = c \<and> e \<in> {EINVAL, EPERM}"
  using assms by (auto simp: cred_setcaps_def caps_ok_def cap_subset_def split: if_splits)

theorem cred_setcaps_monotone_witness:
  "case cred_setcaps kernel_credentials
     \<lparr>effective = 0x80, permitted = 0xFF, ambient = 0, bounding = 0xFFFF, flags = 0, reserved = 0\<rparr> of
     (r, c') \<Rightarrow> r = Inr () \<and> caps_ok c' \<and> cap_subset (cap_permitted c') (cap_permitted kernel_credentials)"
proof -
  let ?cs = "\<lparr>effective = 0x80, permitted = 0xFF, ambient = 0, bounding = 0xFFFF, flags = 0, reserved = 0\<rparr>"
  have r: "cred_setcaps kernel_credentials ?cs = (Inr (), kernel_credentials\<lparr>cap_effective := 0x80,
      cap_permitted := 0xFF, cap_ambient := 0, cap_bounding := 0xFFFF, cap_flags := 0\<rparr>)"
    by (simp add: cred_setcaps_def kernel_credentials_def CAP_FULL_SET_def)
  show ?thesis
    using cred_setcaps_monotone [OF r] r by simp
qed

text \<open>
  C21: the capabilities a program starts with never leave the bounding set, which does not
  change; the effective and ambient sets lie inside the permitted one; the ambient set is
  cleared for a setuid, setgid or file-capability program; and a program whose file asks for
  its capabilities in effect starts with all of them, or not at all.
\<close>

theorem cred_exec_caps_bounded:
  assumes "cred_exec_caps c privileged file = (Inr (), c')"
  shows "caps_ok c' \<and> cap_subset (cap_permitted c') (cap_bounding c) \<and> cap_bounding c' = cap_bounding c \<and>
    cap_flags c' = 0 \<and> (privileged \<or> file \<noteq> None \<longrightarrow> cap_ambient c' = 0) \<and>
    (\<forall>f. file = Some f \<and> fc_effective f \<and> euid c \<noteq> 0 \<longrightarrow> cap_subset (fc_permitted f) (cap_effective c'))"
  using assms
  by (auto simp: cred_exec_caps_def Let_def caps_ok_def cap_subset_OR cap_subset_AND split: if_splits option.splits)
    (auto simp: cap_subset_iff bit_simps and_not_eq_0_iff)

theorem cred_exec_caps_bounded_witness:
  "case cred_exec_caps (kernel_credentials\<lparr>uid := 5, euid := 5\<rparr>) False
     (Some \<lparr>fc_permitted = 0x80, fc_inheritable = 0, fc_effective = True\<rparr>) of
     (r, c') \<Rightarrow> r = Inr () \<and> caps_ok c' \<and> cap_subset 0x80 (cap_effective c')"
proof -
  let ?c = "kernel_credentials\<lparr>uid := 5, euid := 5\<rparr>"
  let ?f = "\<lparr>fc_permitted = 0x80, fc_inheritable = 0, fc_effective = True\<rparr>"
  have r: "cred_exec_caps ?c False (Some ?f) = (Inr (), ?c\<lparr>cap_ambient := 0, cap_flags := 0,
      cap_permitted := 0x80, cap_effective := 0x80\<rparr>)"
    by (simp add: cred_exec_caps_def kernel_credentials_def CAP_FULL_SET_def Let_def)
  show ?thesis
    using cred_exec_caps_bounded [OF r] r by (simp add: kernel_credentials_def)
qed

text \<open>
  C22: \<^verbatim>\<open>cred_setresuid\<close> without \<^verbatim>\<open>CAP_SETUID\<close> only permutes the ids the process has: every new id is
  one of the old three. With an error nothing changes, and an id below -1 is always refused.
\<close>

theorem cred_setresuid_unprivileged:
  assumes "cred_setresuid c r e s = (res, c')" "\<not> cred_capable c CAP_SETUID"
  shows "case res of
      Inr _ \<Rightarrow> {uid c', euid c', suid c'} \<subseteq> {uid c, euid c, suid c} \<and> -1 \<le> r \<and> -1 \<le> e \<and> -1 \<le> s
    | Inl err \<Rightarrow> c' = c \<and> err \<in> {EINVAL, EPERM}"
proof (cases "check_res r e s (uid c) (euid c) (suid c) False")
  case (Inl err)
  then have "res = Inl err" "c' = c"
    using assms by (simp_all add: cred_setresuid_def Let_def)
  then show ?thesis
    using check_res_Inl [OF Inl] by simp
next
  case (Inr u)
  then have "res = Inr ()" "uid c' = apply_id (uid c) r" "euid c' = apply_id (euid c) e" "suid c' = apply_id (suid c) s"
    using assms by (auto simp: cred_setresuid_def Let_def)
  then show ?thesis
    using check_res_unprivileged [OF Inr] by simp
qed

theorem cred_setresuid_unprivileged_witness:
  "case cred_setresuid (kernel_credentials\<lparr>uid := 5, euid := 6, suid := 7, cap_effective := 0\<rparr>) 7 (-1) 5 of
     (res, c') \<Rightarrow> res = Inr () \<and> {uid c', euid c', suid c'} \<subseteq> {5, 6, 7}"
proof -
  let ?c = "kernel_credentials\<lparr>uid := 5, euid := 6, suid := 7, cap_effective := 0\<rparr>"
  have c: "\<not> cred_capable ?c CAP_SETUID"
    by (simp add: cred_capable_def)
  have r: "cred_setresuid ?c 7 (-1) 5 = (Inr (), ?c\<lparr>uid := 7, euid := 6, suid := 5\<rparr>)"
    by (simp add: cred_defs Let_def ID_UNCHANGED_def kernel_credentials_def)
  show ?thesis
    using cred_setresuid_unprivileged [OF r c] r by (simp add: kernel_credentials_def)
qed

text \<open>
  giving up the last root id (without \<^verbatim>\<open>CAPS_KEEP\<close>) empties the permitted and ambient sets,
  and the effective set too when the effective id was the root id; the effective set then
  stays inside the permitted one.
\<close>

theorem cred_setresuid_drops:
  assumes "cred_setresuid c r e s = (Inr (), c')"
    and "0 \<in> {uid c, euid c, suid c}" "0 \<notin> {uid c', euid c', suid c'}" "cap_flags c AND CAPS_KEEP = 0"
  shows "cap_permitted c' = 0 \<and> cap_ambient c' = 0 \<and> (euid c = 0 \<longrightarrow> cap_effective c' = 0 \<and> caps_ok c')"
  using assms by (auto simp: cred_setresuid_def fixup_caps_def Let_def caps_ok_def split: sum.splits if_splits)

theorem cred_setresuid_drops_witness:
  "case cred_setresuid kernel_credentials 9 9 9 of (r, c') \<Rightarrow> r = Inr () \<and> cap_effective c' = 0 \<and> cap_permitted c' = 0"
proof -
  have r: "cred_setresuid kernel_credentials 9 9 9 = (Inr (), kernel_credentials\<lparr>uid := 9, euid := 9, suid := 9,
      cap_permitted := 0, cap_ambient := 0, cap_effective := 0\<rparr>)"
    by (simp add: cred_defs Let_def ID_UNCHANGED_def kernel_credentials_def cred_capable_def CAP_FULL_SET_def
        CAP_TO_MASK_def CAP_SETUID_def CAPS_KEEP_def)
  show ?thesis
    using cred_setresuid_drops [OF r] r by (simp add: kernel_credentials_def)
qed

text \<open>
  C35: the effective set outlives the permitted one when the effective id was not root at the
  moment the last root id goes. Whatever a process with such ids has in effect, if that lets it set its ids and it does not ask
  to keep its capabilities, dropping all ids empties its permitted set and leaves the effective set as it was; so
  the process, with no root id and nothing permitted, can still make itself root again.
\<close>

theorem cred_setresuid_keeps_effective:
  assumes "uid c = 0 \<or> suid c = 0" "euid c \<noteq> 0" "cap_flags c AND CAPS_KEEP = 0" "cred_capable c CAP_SETUID"
    and "0 < r" "0 < e" "0 < s"
  shows "\<exists>c' c''. cred_setresuid c r e s = (Inr (), c') \<and> (uid c', euid c', suid c') = (r, e, s) \<and>
    cap_permitted c' = 0 \<and> cap_ambient c' = 0 \<and> cap_effective c' = cap_effective c \<and> \<not> caps_ok c' \<and>
    cred_setresuid c' 0 0 0 = (Inr (), c'') \<and> (uid c'', euid c'', suid c'') = (0, 0, 0)"
proof -
  let ?c = "c\<lparr>uid := r, euid := e, suid := s, cap_permitted := 0, cap_ambient := 0\<rparr>"
  have res: "check_res r' e' s' r1 e1 s1 True = Inr ()" if "-1 \<le> r'" "-1 \<le> e'" "-1 \<le> s'" for r' e' s' r1 e1 s1
    using that by (simp add: check_res_def check_id_def ID_UNCHANGED_def)
  have cap: "cred_capable ?c CAP_SETUID" using assms(4) by (simp add: cred_capable_def)
  have "cred_setresuid c r e s = (Inr (), ?c)"
    using assms res [of r e s] by (auto simp: cred_setresuid_def Let_def fixup_caps_def apply_id_def ID_UNCHANGED_def)
  moreover have "\<not> caps_ok ?c"
    using assms(4) by (auto simp: caps_ok_def cap_subset_def cred_capable_def)
  moreover have "\<exists>c''. cred_setresuid ?c 0 0 0 = (Inr (), c'') \<and> (uid c'', euid c'', suid c'') = (0, 0, 0)"
    using cap res [of 0 0 0] by (auto simp: cred_setresuid_def Let_def fixup_caps_def apply_id_def ID_UNCHANGED_def)
  ultimately show ?thesis by auto
qed

text \<open>
  Root gets there by switching its effective id and putting its permitted capabilities back in effect
  with \<^verbatim>\<open>cred_setcaps\<close>.
\<close>

theorem cred_setresuid_keeps_effective_witness:
  "\<exists>c1 c2 c3. cred_setresuid kernel_credentials (-1) 1000 (-1) = (Inr (), c1) \<and>
     cred_setcaps c1 \<lparr>effective = CAP_FULL_SET, permitted = CAP_FULL_SET, ambient = 0, bounding = CAP_FULL_SET,
       flags = 0, reserved = 0\<rparr> = (Inr (), c2) \<and>
     cred_setresuid c2 1000 1000 1000 = (Inr (), c3) \<and> cap_effective c3 = CAP_FULL_SET \<and> cap_permitted c3 = 0"
proof -
  let ?cs = "\<lparr>effective = CAP_FULL_SET, permitted = CAP_FULL_SET, ambient = 0, bounding = CAP_FULL_SET, flags = 0, reserved = 0\<rparr>"
  have "\<exists>c1 c2. cred_setresuid kernel_credentials (-1) 1000 (-1) = (Inr (), c1) \<and> cred_setcaps c1 ?cs = (Inr (), c2) \<and>
      (uid c2, euid c2, cap_flags c2, cap_effective c2) = (0, 1000, 0, CAP_FULL_SET)"
    by (simp add: cred_defs Let_def ID_UNCHANGED_def kernel_credentials_def cred_capable_def CAP_FULL_SET_def
        CAP_TO_MASK_def CAP_SETUID_def CAPS_KEEP_def)
  then obtain c1 c2 where c: "cred_setresuid kernel_credentials (-1) 1000 (-1) = (Inr (), c1)" "cred_setcaps c1 ?cs = (Inr (), c2)"
    "uid c2 = 0" "euid c2 = 1000" "cap_flags c2 = 0" "cap_effective c2 = CAP_FULL_SET" by auto
  have "cred_capable c2 CAP_SETUID" using c(6) by (simp add: cred_capable_def CAP_FULL_SET_def CAP_TO_MASK_def CAP_SETUID_def)
  with cred_setresuid_keeps_effective [of c2 1000 1000 1000] c show ?thesis by auto
qed

text \<open>
  \<^verbatim>\<open>cred_sort_groups\<close> refuses a list with a negative group id and otherwise sorts it; on the
  result the binary search of \<^verbatim>\<open>cred_in_group\<close> answers exactly whether the group is the effective
  group or in the list that was set.
\<close>

theorem cred_groups_membership:
  assumes "cred_sort_groups c = (r, c')"
  shows "case r of
      Inl e \<Rightarrow> e = EINVAL \<and> c' = c \<and> (\<exists>g\<in>set (groups c). g < 0)
    | Inr _ \<Rightarrow> mset (groups c') = mset (groups c) \<and> (\<forall>g\<in>set (groups c). 0 \<le> g) \<and>
        (\<forall>g. cred_in_group c' g \<longleftrightarrow> g = egid c \<or> g \<in> set (groups c))"
proof (cases "\<exists>g\<in>set (groups c). g < 0")
  case True
  then show ?thesis using assms by (auto simp: cred_sort_groups_def)
next
  case False
  let ?gs = "sort_elements compare_gids (groups c)"
  have c': "c' = c\<lparr>groups := ?gs\<rparr>" "r = Inr ()"
    using assms False by (auto simp: cred_sort_groups_def split: if_splits)
  have m: "mset ?gs = mset (groups c)"
    using gids.sort_elements_correct by blast
  have "cred_in_group c' g \<longleftrightarrow> g = egid c \<or> g \<in> set (groups c)" for g
    using cred_in_group_iff [of c' g] sorted_sort_gids c' mset_eq_setD [OF m] by simp
  then show ?thesis
    using False c' m by (auto simp: not_less)
qed

theorem cred_groups_membership_witness:
  "case cred_sort_groups (kernel_credentials\<lparr>groups := [30, 10, 20]\<rparr>) of
     (r, c') \<Rightarrow> r = Inr () \<and> cred_in_group c' 20 \<and> \<not> cred_in_group c' 15"
proof -
  let ?c = "kernel_credentials\<lparr>groups := [30, 10, 20]\<rparr>"
  have r: "cred_sort_groups ?c = (Inr (), ?c\<lparr>groups := sort_elements compare_gids [30, 10, 20]\<rparr>)"
    by (simp add: cred_sort_groups_def)
  show ?thesis
    using cred_groups_membership [OF r] r by (simp add: kernel_credentials_def)
qed

text \<open>
  parsing reads back what the on-disk layout encodes: every revision 2 attribute, every
  revision 3 attribute whose root id is 0, and no revision 3 attribute with another root id.
\<close>

theorem cred_parse_encode:
  "cred_parse_file_caps (encode_file_caps f rootid) =
     (case rootid of None \<Rightarrow> Inr f | Some w \<Rightarrow> if w = 0 then Inr f else Inl ENODATA)"
  by (cases rootid) (simp_all add: parse_encode_v2 parse_encode_v3)

end
