(* ===== verification/Refcount.thy ===== *)
theory Refcount
  imports Vex_Prelude "HOL-Library.Multiset"
begin

text \<open>
  Reference counting. Files, credentials and vnodes are shared objects that count the
  references to them and go when the last one is dropped. The contract of such an object
  store is a locale: when a store is well formed, the count of an object, zero when it is gone, the two operations, and the
  greatest count the counter can hold, beyond which nothing is promised.
  Its clients account for the references they hold as a multiset.
\<close>

definition holds_refs :: "('s \<Rightarrow> bool) \<Rightarrow> ('s \<Rightarrow> 'a \<Rightarrow> nat) \<Rightarrow> 's \<Rightarrow> 'a multiset \<Rightarrow> bool" where
  "holds_refs ok refs s M \<longleftrightarrow> ok s \<and> (\<forall>a. refs s a = count M a)"

locale refcounted =
  fixes ok :: "'s \<Rightarrow> bool"
    and refs :: "'s \<Rightarrow> 'a \<Rightarrow> nat"
    and incref :: "'a \<Rightarrow> 's \<Rightarrow> 's"
    and decref :: "'a \<Rightarrow> 's \<Rightarrow> 's"
    and limit :: nat
  assumes ok_incref: "ok s \<Longrightarrow> 0 < refs s a \<Longrightarrow> refs s a < limit \<Longrightarrow> ok (incref a s)"
    and ok_decref: "ok s \<Longrightarrow> 0 < refs s a \<Longrightarrow> ok (decref a s)"
    and refs_incref: "0 < refs s a \<Longrightarrow> refs s a < limit \<Longrightarrow> refs (incref a s) b = refs s b + (if a = b then 1 else 0)"
    and refs_decref: "0 < refs s a \<Longrightarrow> refs (decref a s) b = refs s b - (if a = b then 1 else 0)"
begin

lemma holds_live: "holds_refs ok refs s M \<Longrightarrow> a \<in># M \<Longrightarrow> 0 < refs s a"
  by (simp add: holds_refs_def)

lemma holds_incref:
  assumes "holds_refs ok refs s M" "a \<in># M" "count M a < limit"
  shows "holds_refs ok refs (incref a s) (add_mset a M)"
  using assms holds_live [OF assms(1,2)] by (simp add: holds_refs_def ok_incref refs_incref)

lemma holds_decref:
  assumes "holds_refs ok refs s (add_mset a M)"
  shows "holds_refs ok refs (decref a s) M"
  using assms holds_live [OF assms, of a] by (auto simp: holds_refs_def ok_decref refs_decref)

lemma holds_incref_all:
  "holds_refs ok refs s M \<Longrightarrow> set xs \<subseteq> set_mset M \<Longrightarrow> \<forall>a. count (mset xs + M) a \<le> limit \<Longrightarrow>
    holds_refs ok refs (fold incref xs s) (mset xs + M)"
proof (induction xs arbitrary: s M)
  case (Cons x xs)
  have "count M x < limit" using Cons.prems(3) [rule_format, of x] by simp
  then have "holds_refs ok refs (incref x s) (add_mset x M)"
    using Cons.prems by (intro holds_incref) auto
  from Cons.IH [OF this] show ?case
    using Cons.prems by (auto simp: add.commute)
qed simp

end

end
