(* ===== verification/Fd_Table.thy ===== *)
theory Fd_Table
  imports Refcount
begin

text \<open>
  Descriptor tables, \<^verbatim>\<open>kernel/proc/process.c\<close>, and the reference counts of open files,
  \<^verbatim>\<open>kernel/fs/file.c\<close>. A table is the array \<^verbatim>\<open>fds\<close>, whose length is \<^verbatim>\<open>max_fds\<close>, and the number
  \<^verbatim>\<open>num_fds\<close> of slots in use; a slot is a null pointer or the address of a file. The file
  store maps the address of an open file to its count, a 32-bit word that wraps around. \<open>alloc\<close> says whether the
  memory allocation of an operation succeeds. What runs under one hold of \<^verbatim>\<open>fd_lock\<close> is one function; a
  function that takes the lock twice or closes a file after it is composed of these, and histories
  interleave the parts of all processes.
\<close>

type_synonym files = "nat \<rightharpoonup> u32"

record fd_table =
  fds :: "nat option list"
  num_fds :: nat

definition CONFIG_MAX_FDS :: nat where
  "CONFIG_MAX_FDS = 1024"

fun file_dupe :: "nat option \<Rightarrow> files \<Rightarrow> files" where
  "file_dupe None fs = fs"
| "file_dupe (Some f) fs = fs(f := Some (the (fs f) + 1))"

text \<open>The last reference closes the vnode and frees the file.\<close>

fun file_close :: "nat option \<Rightarrow> files \<Rightarrow> files" where
  "file_close None fs = fs"
| "file_close (Some f) fs = (if the (fs f) = 1 then fs(f := None) else fs(f := Some (the (fs f) - 1)))"

text \<open>The doubling loop; the size it starts from is never zero.\<close>

function grow_max :: "nat \<Rightarrow> nat \<Rightarrow> nat" where
  "grow_max fd new_max = (if 0 < new_max \<and> new_max \<le> fd then grow_max fd (new_max * 2) else new_max)"
  by pat_completeness auto
termination
  by (relation "measure (\<lambda>(fd, new_max). Suc fd - new_max)") auto

declare grow_max.simps [simp del]

definition grow_fds_locked :: "bool \<Rightarrow> 'a fd_table_scheme \<Rightarrow> nat \<Rightarrow> unit result \<times> 'a fd_table_scheme" where
  "grow_fds_locked alloc p fd =
     (if fd < length (fds p) then (Inr (), p)
      else if fd \<ge> CONFIG_MAX_FDS then (Inl EMFILE, p)
      else
        let new_max = (if length (fds p) \<noteq> 0 then length (fds p) * 2 else 4);
            new_max = grow_max fd new_max;
            new_max = (if new_max > CONFIG_MAX_FDS then CONFIG_MAX_FDS else new_max)
        in if \<not> alloc then (Inl ENOMEM, p)
           else (Inr (), p\<lparr>fds := fds p @ replicate (new_max - length (fds p)) None\<rparr>))"

definition process_fd_get :: "'a fd_table_scheme \<Rightarrow> int \<Rightarrow> files \<Rightarrow> nat option \<times> files" where
  "process_fd_get p fd fs =
     (if fd \<ge> 0 \<and> nat fd < length (fds p) then (fds p ! nat fd, file_dupe (fds p ! nat fd) fs) else (None, fs))"

fun first_free :: "nat option list \<Rightarrow> nat \<Rightarrow> nat option" where
  "first_free [] fd = None"
| "first_free (x # xs) fd = (if x = None then Some fd else first_free xs (fd + 1))"

definition process_fd_alloc :: "bool \<Rightarrow> 'a fd_table_scheme \<Rightarrow> nat \<Rightarrow> nat result \<times> 'a fd_table_scheme" where
  "process_fd_alloc alloc p file =
     (case first_free (fds p) 0 of
        Some fd \<Rightarrow> (Inr fd, p\<lparr>fds := (fds p)[fd := Some file], num_fds := num_fds p + 1\<rparr>)
      | None \<Rightarrow>
          let fd = length (fds p)
          in case grow_fds_locked alloc p fd of
               (Inl e, p) \<Rightarrow> (Inl e, p)
             | (Inr _, p) \<Rightarrow> (Inr fd, p\<lparr>fds := (fds p)[fd := Some file], num_fds := num_fds p + 1\<rparr>))"

text \<open>
  What \<^verbatim>\<open>process_fd_dup\<close> does under its second hold of the lock: the slot takes the reference to the
  file and gives up the one it had.
\<close>

definition replace_fd_locked ::
  "bool \<Rightarrow> 'a fd_table_scheme \<Rightarrow> nat \<Rightarrow> nat \<Rightarrow> nat option result \<times> 'a fd_table_scheme" where
  "replace_fd_locked alloc p new_fd copy =
     (case grow_fds_locked alloc p new_fd of
        (Inl e, p) \<Rightarrow> (Inl e, p)
      | (Inr _, p) \<Rightarrow>
          let replaced = fds p ! new_fd;
              p = p\<lparr>fds := (fds p)[new_fd := Some copy]\<rparr>;
              p = (if replaced = None then p\<lparr>num_fds := num_fds p + 1\<rparr> else p)
          in (Inr replaced, p))"

definition process_fd_dup ::
  "bool \<Rightarrow> 'a fd_table_scheme \<Rightarrow> int \<Rightarrow> int \<Rightarrow> files \<Rightarrow> nat result \<times> 'a fd_table_scheme \<times> files" where
  "process_fd_dup alloc p old_fd new_fd fs =
     (case process_fd_get p old_fd fs of
        (None, fs) \<Rightarrow> (Inl EBADF, p, fs)
      | (Some copy, fs) \<Rightarrow>
          if old_fd = new_fd then (Inr (nat new_fd), p, file_close (Some copy) fs)
          else if new_fd < 0 then
            case process_fd_alloc alloc p copy of
              (Inl e, p) \<Rightarrow> (Inl e, p, file_close (Some copy) fs)
            | (Inr fd, p) \<Rightarrow> (Inr fd, p, fs)
          else if nat new_fd \<ge> CONFIG_MAX_FDS then (Inl EBADF, p, file_close (Some copy) fs)
          else
            case replace_fd_locked alloc p (nat new_fd) copy of
              (Inl e, p) \<Rightarrow> (Inl e, p, file_close (Some copy) fs)
            | (Inr replaced, p) \<Rightarrow> (Inr (nat new_fd), p, file_close replaced fs))"

text \<open>What \<^verbatim>\<open>process_fd_release\<close> does under the lock, and the whole of it.\<close>

definition clear_fd_locked :: "'a fd_table_scheme \<Rightarrow> int \<Rightarrow> nat option result \<times> 'a fd_table_scheme" where
  "clear_fd_locked p fd =
     (if fd < 0 \<or> nat fd \<ge> length (fds p) \<or> fds p ! nat fd = None then (Inl EBADF, p)
      else (Inr (fds p ! nat fd), p\<lparr>fds := (fds p)[nat fd := None], num_fds := num_fds p - 1\<rparr>))"

definition process_fd_release :: "'a fd_table_scheme \<Rightarrow> int \<Rightarrow> files \<Rightarrow> unit result \<times> 'a fd_table_scheme \<times> files" where
  "process_fd_release p fd fs =
     (case clear_fd_locked p fd of
        (Inl e, p) \<Rightarrow> (Inl e, p, fs)
      | (Inr file, p) \<Rightarrow> (Inr (), p, file_close file fs))"

definition process_fds_copy ::
  "bool \<Rightarrow> 'a fd_table_scheme \<Rightarrow> 'b fd_table_scheme \<Rightarrow> files \<Rightarrow> unit result \<times> 'a fd_table_scheme \<times> files" where
  "process_fds_copy alloc p source fs =
     (if length (fds source) \<noteq> 0 \<and> \<not> alloc then (Inl ENOMEM, p, fs)
      else (Inr (), p\<lparr>fds := fds source, num_fds := num_fds source\<rparr>, fold file_dupe (fds source) fs))"

text \<open>The part of \<^verbatim>\<open>release_files\<close> that empties the table under the lock, and the part that then closes the files.\<close>

definition detach_fds :: "'a fd_table_scheme \<Rightarrow> nat option list \<times> 'a fd_table_scheme" where
  "detach_fds p = (fds p, p\<lparr>fds := [], num_fds := 0\<rparr>)"

definition release_fds :: "'a fd_table_scheme \<Rightarrow> files \<Rightarrow> 'a fd_table_scheme \<times> files" where
  "release_fds p fs = (case detach_fds p of (taken, p) \<Rightarrow> (p, fold file_close taken fs))"

subsection \<open>References\<close>

definition file_refs :: "files \<Rightarrow> nat \<Rightarrow> nat" where
  "file_refs fs f = (case fs f of None \<Rightarrow> 0 | Some n \<Rightarrow> unat n)"

text \<open>The greatest count of a file.\<close>

definition MAX_REFS :: nat where
  "MAX_REFS = 2 ^ 32 - 1"

fun present :: "'a option list \<Rightarrow> 'a list" where
  "present [] = []"
| "present (None # xs) = present xs"
| "present (Some x # xs) = x # present xs"

definition table_refs :: "'a fd_table_scheme \<Rightarrow> nat multiset" where
  "table_refs p = mset (present (fds p))"

text \<open>The descriptor table is well formed and the counts of all files account for its references and the others.\<close>

definition fd_inv :: "'a fd_table_scheme \<Rightarrow> bool" where
  "fd_inv p \<longleftrightarrow> num_fds p = length (present (fds p)) \<and> length (fds p) \<le> CONFIG_MAX_FDS"

lemma unat_count:
  "unat n < MAX_REFS \<Longrightarrow> unat (n + 1) = unat n + 1" "n \<noteq> 0 \<Longrightarrow> unat (n - 1) = unat n - 1" "unat n < MAX_REFS \<Longrightarrow> n + 1 \<noteq> 0" for n :: u32
proof -
  show "unat n < MAX_REFS \<Longrightarrow> unat (n + 1) = unat n + 1" by (simp add: MAX_REFS_def unat_word_ariths)
  then show "unat n < MAX_REFS \<Longrightarrow> n + 1 \<noteq> 0" by (metis add_is_0 one_neq_zero unat_0)
  show "n \<noteq> 0 \<Longrightarrow> unat (n - 1) = unat n - 1" by (rule unat_minus_one)
qed

text \<open>A file without references is gone.\<close>

definition stored :: "files \<Rightarrow> bool" where
  "stored fs \<longleftrightarrow> (\<forall>f. fs f \<noteq> Some 0)"

interpretation fref: refcounted stored file_refs "\<lambda>f. file_dupe (Some f)" "\<lambda>f. file_close (Some f)" MAX_REFS
  by unfold_locales (auto simp: stored_def file_refs_def unat_count unat_gt_0 simp flip: One_nat_def split: option.splits)

abbreviation refs_ok :: "files \<Rightarrow> nat multiset \<Rightarrow> bool" where
  "refs_ok \<equiv> holds_refs stored file_refs"

lemma present_append [simp]: "present (xs @ ys) = present xs @ present ys"
  by (induction xs rule: present.induct) simp_all

lemma present_replicate [simp]: "present (replicate n None) = []"
  by (induction n) simp_all

lemma set_present: "set (present xs) = {x. Some x \<in> set xs}"
  by (induction xs rule: present.induct) auto

lemma fold_file_dupe: "fold file_dupe xs fs = fold (\<lambda>f. file_dupe (Some f)) (present xs) fs"
proof (induction xs arbitrary: fs)
  case (Cons x xs)
  then show ?case by (cases x) simp_all
qed simp

definition opt_mset :: "'a option \<Rightarrow> 'a multiset" where
  "opt_mset x = (case x of None \<Rightarrow> {#} | Some a \<Rightarrow> {#a#})"

lemma opt_mset_simps [simp]: "opt_mset None = {#}" "opt_mset (Some a) = {#a#}"
  by (simp_all add: opt_mset_def)

lemma present_Cons: "mset (present (x # xs)) = opt_mset x + mset (present xs)"
  by (cases x) simp_all

lemma present_update:
  "i < length xs \<Longrightarrow> opt_mset (xs ! i) + mset (present (xs[i := y])) = opt_mset y + mset (present xs)"
proof (induction xs arbitrary: i)
  case (Cons x xs)
  then show ?case
    by (cases i) (simp_all add: present_Cons ac_simps)
qed simp

lemma size_opt_mset [simp]: "size (opt_mset x) = (if x = None then 0 else 1)"
  by (cases x) simp_all

lemma length_present_update:
  "i < length xs \<Longrightarrow>
    (if xs ! i = None then 0 else 1) + length (present (xs[i := y])) = (if y = None then 0 else 1) + length (present xs)"
  using arg_cong [OF present_update [of i xs y], of size] by simp

lemma refs_dupe:
  assumes "refs_ok fs M" "set_mset (opt_mset x) \<subseteq> set_mset M" "\<forall>f. count (opt_mset x + M) f \<le> MAX_REFS"
  shows "refs_ok (file_dupe x fs) (opt_mset x + M)"
proof (cases x)
  case (Some f)
  then have "count M f < MAX_REFS" using assms(3) [rule_format, of f] by simp
  with fref.holds_incref [OF assms(1)] assms(2) Some show ?thesis by (simp del: file_dupe.simps(2))
qed (use assms in simp)

lemma refs_close: "refs_ok fs (opt_mset x + M) \<Longrightarrow> refs_ok (file_close x fs) M"
  using fref.holds_decref [of fs _ M] by (cases x) (simp_all del: file_close.simps(2))

lemma slot_in_table: "i < length (fds p) \<Longrightarrow> set_mset (opt_mset (fds p ! i)) \<subseteq> set_mset (table_refs p)"
  by (cases "fds p ! i") (auto simp: table_refs_def set_present in_set_conv_nth)

subsection \<open>Growing the table\<close>

lemma grow_max_gt: "0 < m \<Longrightarrow> fd < grow_max fd m \<and> m \<le> grow_max fd m"
  by (induction fd m rule: grow_max.induct) (subst (1 2) grow_max.simps, auto)

lemma grow_fds_locked_Inr:
  assumes "grow_fds_locked alloc p fd = (Inr u, p')"
  shows "\<exists>n. fds p' = fds p @ replicate n None" "fd < length (fds p')" "p' = p\<lparr>fds := fds p'\<rparr>"
    "length (fds p) \<le> CONFIG_MAX_FDS \<Longrightarrow> length (fds p') \<le> CONFIG_MAX_FDS"
proof -
  let ?m = "if length (fds p) \<noteq> 0 then length (fds p) * 2 else 4"
  have m: "fd < grow_max fd ?m" "?m \<le> grow_max fd ?m"
    using grow_max_gt [of ?m fd] by (auto split: if_splits)
  show "\<exists>n. fds p' = fds p @ replicate n None"
    using assms by (auto simp: grow_fds_locked_def Let_def split: if_splits intro: exI [of _ 0])
  show "p' = p\<lparr>fds := fds p'\<rparr>"
    using assms by (auto simp: grow_fds_locked_def Let_def split: if_splits)
  show "fd < length (fds p')"
    using assms m by (auto simp: grow_fds_locked_def Let_def split: if_splits)
  show "length (fds p') \<le> CONFIG_MAX_FDS" if "length (fds p) \<le> CONFIG_MAX_FDS"
    using assms that by (auto simp: grow_fds_locked_def Let_def split: if_splits)
qed

lemma grow_fds_locked_Inl: "grow_fds_locked alloc p fd = (Inl e, p') \<Longrightarrow> p' = p"
  by (auto simp: grow_fds_locked_def Let_def split: if_splits)

lemma first_free_Some:
  "first_free xs n = Some fd \<Longrightarrow> n \<le> fd \<and> fd < n + length xs \<and> xs ! (fd - n) = None \<and> (\<forall>i < fd - n. xs ! i \<noteq> None)"
proof (induction xs arbitrary: n)
  case (Cons x xs)
  show ?case
  proof (cases "x = None")
    case True
    then show ?thesis using Cons.prems by auto
  next
    case False
    then have "first_free xs (n + 1) = Some fd"
      using Cons.prems by (simp del: not_None_eq)
    from Cons.IH [OF this] False show ?thesis
      by (auto simp: nth_Cons' Suc_diff_Suc less_Suc_eq_0_disj)
  qed
qed simp

lemma first_free_None: "first_free xs n = None \<longleftrightarrow> (\<forall>x\<in>set xs. x \<noteq> None)"
  by (induction xs arbitrary: n) auto


lemma table_refs_set:
  assumes "i < length (fds p)" "p' = p\<lparr>fds := (fds p)[i := y]\<rparr>"
  shows "opt_mset (fds p ! i) + table_refs p' = opt_mset y + table_refs p"
  using present_update [OF assms(1)] assms(2) by (simp add: table_refs_def)

lemma grow_fds_locked_refs: "grow_fds_locked alloc p fd = (Inr u, p') \<Longrightarrow> table_refs p' = table_refs p \<and> (fd_inv p \<longrightarrow> fd_inv p')"
  using grow_fds_locked_Inr [of alloc p fd u p'] by (cases p; cases p') (auto simp: table_refs_def fd_inv_def)

text \<open>Both successful branches of \<^verbatim>\<open>process_fd_alloc\<close> fill an empty slot of a possibly longer table.\<close>

lemma process_fd_alloc_Inr:
  assumes "process_fd_alloc alloc p file = (Inr fd, p')"
  obtains n where "fd < length (fds p @ replicate n None)" "(fds p @ replicate n None) ! fd = None"
    "\<forall>i < fd. i < length (fds p) \<and> fds p ! i \<noteq> None"
    "p' = p\<lparr>fds := (fds p @ replicate n None)[fd := Some file], num_fds := num_fds p + 1\<rparr>"
    "length (fds p) \<le> CONFIG_MAX_FDS \<Longrightarrow> length (fds p @ replicate n None) \<le> CONFIG_MAX_FDS"
proof (cases "first_free (fds p) 0")
  case (Some k)
  then have "k = fd" "p' = p\<lparr>fds := (fds p)[fd := Some file], num_fds := num_fds p + 1\<rparr>"
    using assms by (auto simp: process_fd_alloc_def)
  with first_free_Some [OF Some] show ?thesis
    by (intro that [of 0]) auto
next
  case None
  then have full: "\<forall>i < length (fds p). fds p ! i \<noteq> None"
    by (auto simp: first_free_None)
  obtain u q where g: "grow_fds_locked alloc p (length (fds p)) = (Inr u, q)" and fd: "fd = length (fds p)"
    and p': "p' = q\<lparr>fds := (fds q)[fd := Some file], num_fds := num_fds q + 1\<rparr>"
    using assms None by (auto simp: process_fd_alloc_def Let_def split: prod.splits sum.splits)
  obtain n where n: "fds q = fds p @ replicate n None" "length (fds p) < length (fds q)"
    "q = p\<lparr>fds := fds q\<rparr>" "length (fds p) \<le> CONFIG_MAX_FDS \<Longrightarrow> length (fds q) \<le> CONFIG_MAX_FDS"
    using grow_fds_locked_Inr [OF g] by blast
  have "p' = p\<lparr>fds := (fds p @ replicate n None)[fd := Some file], num_fds := num_fds p + 1\<rparr>"
    by (subst p', subst n(3), subst (2) n(3)) (simp add: n(1))
  with n full fd show ?thesis
    by (intro that [of n]) (auto simp: nth_append)
qed

lemma process_fd_alloc_Inl:
  assumes "process_fd_alloc alloc p file = (Inl e, p')"
  shows "p' = p" "(\<forall>x\<in>set (fds p). x \<noteq> None)" "e = (if length (fds p) \<ge> CONFIG_MAX_FDS then EMFILE else ENOMEM)"
  using assms
  by (auto simp: process_fd_alloc_def Let_def grow_fds_locked_def first_free_None split: option.splits prod.splits sum.splits if_splits)

lemma process_fd_alloc_refs:
  assumes "process_fd_alloc alloc p file = (Inr fd, p')" "fd_inv p"
  shows "fd_inv p'" "table_refs p' = add_mset file (table_refs p)"
proof -
  obtain n where n: "fd < length (fds p @ replicate n None)" "(fds p @ replicate n None) ! fd = None"
    "p' = p\<lparr>fds := (fds p @ replicate n None)[fd := Some file], num_fds := num_fds p + 1\<rparr>"
    "length (fds p) \<le> CONFIG_MAX_FDS \<Longrightarrow> length (fds p @ replicate n None) \<le> CONFIG_MAX_FDS"
    using process_fd_alloc_Inr [OF assms(1)] by metis
  show "fd_inv p'"
    using n length_present_update [OF n(1), of "Some file"] assms(2) by (simp add: fd_inv_def)
  show "table_refs p' = add_mset file (table_refs p)"
    using n present_update [OF n(1), of "Some file"] by (simp add: table_refs_def)
qed

lemma process_fd_get_refs:
  assumes "refs_ok fs (table_refs p + M)" "process_fd_get p fd fs = (x, fs')" "\<forall>f. count (opt_mset x + (table_refs p + M)) f \<le> MAX_REFS"
  shows "refs_ok fs' (opt_mset x + (table_refs p + M))"
  using assms refs_dupe [of fs "table_refs p + M" x] slot_in_table [of "nat fd" p]
  by (auto simp: process_fd_get_def split: if_splits)

lemma clear_fd_locked_refs:
  assumes "clear_fd_locked p fd = (Inr x, p')" "fd_inv p"
  shows "fd_inv p'" "opt_mset x + table_refs p' = table_refs p"
proof -
  let ?i = "nat fd"
  have i: "?i < length (fds p)" "fds p ! ?i \<noteq> None" and x: "x = fds p ! ?i"
    and p': "p' = p\<lparr>fds := (fds p)[?i := None], num_fds := num_fds p - 1\<rparr>"
    using assms(1) by (auto simp: clear_fd_locked_def split: if_splits)
  show "opt_mset x + table_refs p' = table_refs p"
    using present_update [OF i(1), of None] p' x by (simp add: table_refs_def)
  show "fd_inv p'"
    using length_present_update [OF i(1), of None] i(2) p' assms(2) by (simp add: fd_inv_def)
qed

lemma clear_fd_locked_Inl: "clear_fd_locked p fd = (Inl e, p') \<Longrightarrow> p' = p"
  by (auto simp: clear_fd_locked_def split: if_splits)

lemma replace_fd_locked_refs:
  assumes "replace_fd_locked alloc p n f = (Inr x, p')" "fd_inv p"
  shows "fd_inv p'" "opt_mset x + table_refs p' = add_mset f (table_refs p)"
proof -
  obtain u q where g: "grow_fds_locked alloc p n = (Inr u, q)" and x: "x = fds q ! n"
    and p': "p' = (if x = None then q\<lparr>fds := (fds q)[n := Some f], num_fds := num_fds q + 1\<rparr> else q\<lparr>fds := (fds q)[n := Some f]\<rparr>)"
    using assms(1) by (auto simp: replace_fd_locked_def Let_def split: prod.splits sum.splits)
  note gr = grow_fds_locked_refs [OF g] and len = grow_fds_locked_Inr(2) [OF g]
  show "opt_mset x + table_refs p' = add_mset f (table_refs p)"
    using present_update [OF len, of "Some f"] gr p' x by (auto simp: table_refs_def split: if_splits)
  show "fd_inv p'"
    using length_present_update [OF len, of "Some f"] gr p' x assms(2) by (auto simp: fd_inv_def split: if_splits)
qed

lemma replace_fd_locked_Inl: "replace_fd_locked alloc p n f = (Inl e, p') \<Longrightarrow> p' = p"
  using grow_fds_locked_Inl by (auto simp: replace_fd_locked_def Let_def split: prod.splits sum.splits)

lemma detach_fds_refs:
  assumes "detach_fds p = (taken, p')"
  shows "fd_inv p'" "mset (present taken) = table_refs p" "table_refs p' = {#}"
  using assms by (auto simp: detach_fds_def table_refs_def fd_inv_def)

lemma process_fds_copy_refs:
  assumes "refs_ok fs (table_refs source + M)" "process_fds_copy alloc p source fs = (Inr u, p', fs')" "fd_inv source"
    "\<forall>f. count (table_refs p' + (table_refs source + M)) f \<le> MAX_REFS"
  shows "refs_ok fs' (table_refs p' + (table_refs source + M))" "table_refs p' = table_refs source" "fd_inv p'"
  using assms fref.holds_incref_all [of fs "table_refs source + M" "present (fds source)"]
  by (auto simp: process_fds_copy_def fold_file_dupe table_refs_def fd_inv_def split: if_splits)

lemma process_fds_copy_Inl: "process_fds_copy alloc p source fs = (Inl e, p', fs') \<Longrightarrow> p' = p \<and> fs' = fs"
  by (auto simp: process_fds_copy_def split: if_splits)

subsection \<open>Histories\<close>

definition all_refs :: "'a fd_table_scheme list \<Rightarrow> nat multiset" where
  "all_refs ts = sum_list (map table_refs ts)"

lemma all_refs_simps [simp]: "all_refs [] = {#}" "all_refs (p # ts) = table_refs p + all_refs ts" "all_refs (ts @ us) = all_refs ts + all_refs us"
  by (simp_all add: all_refs_def)

text \<open>The references of all tables are those of one table and those of the others.\<close>

definition other_refs :: "nat \<Rightarrow> 'a fd_table_scheme list \<Rightarrow> nat multiset" where
  "other_refs i ts = all_refs (take i ts) + all_refs (drop (Suc i) ts)"

lemma all_refs_nth: "i < length ts \<Longrightarrow> all_refs ts = table_refs (ts ! i) + other_refs i ts"
  by (subst id_take_nth_drop [of i ts]) (simp_all add: other_refs_def ac_simps)

lemma all_refs_update: "i < length ts \<Longrightarrow> all_refs (ts[i := p]) = table_refs p + other_refs i ts"
  by (subst upd_conv_take_nth_drop) (simp_all add: other_refs_def ac_simps)

text \<open>No file has more than \<open>lim\<close> references.\<close>

definition within :: "nat \<Rightarrow> 'a fd_table_scheme list \<Rightarrow> nat multiset \<Rightarrow> bool" where
  "within lim ts M \<longleftrightarrow> (\<forall>f. count (all_refs ts + M) f \<le> lim)"

text \<open>
  What happens to the tables \<open>ts\<close> of all processes and the file store, a hold of a lock or an access to a count at a time:
  processes are created and fork, files are opened and installed, descriptors are looked up, replaced and cleared,
  references are copied and dropped, processes exit. \<open>M\<close> holds the references in flight: those of system
  calls between their steps, of files about to be closed and of mappings. No step brings the references of a file above \<open>lim\<close>.
\<close>

inductive fd_reach :: "nat \<Rightarrow> fd_table list \<Rightarrow> files \<Rightarrow> nat multiset \<Rightarrow> bool" for lim where
  start: "fd_reach lim [] Map.empty {#}"
| create: "fd_reach lim ts fs M \<Longrightarrow> fd_reach lim (ts @ [\<lparr>fds = [], num_fds = 0\<rparr>]) fs M"
| file_open: "fd_reach lim ts fs M \<Longrightarrow> fs f = None \<Longrightarrow> fd_reach lim ts (fs(f \<mapsto> 1)) (add_mset f M)"
| dupe: "fd_reach lim ts fs M \<Longrightarrow> f \<in># M \<Longrightarrow> within lim ts (add_mset f M) \<Longrightarrow> fd_reach lim ts (file_dupe (Some f) fs) (add_mset f M)"
| close: "fd_reach lim ts fs (add_mset f M) \<Longrightarrow> fd_reach lim ts (file_close (Some f) fs) M"
| get: "fd_reach lim ts fs M \<Longrightarrow> i < length ts \<Longrightarrow> process_fd_get (ts ! i) fd fs = (x, fs') \<Longrightarrow> within lim ts (opt_mset x + M) \<Longrightarrow>
    fd_reach lim ts fs' (opt_mset x + M)"
| install: "fd_reach lim ts fs (add_mset f M) \<Longrightarrow> i < length ts \<Longrightarrow> process_fd_alloc alloc (ts ! i) f = (r, p') \<Longrightarrow>
    fd_reach lim (ts[i := p']) fs (case r of Inr _ \<Rightarrow> M | Inl _ \<Rightarrow> add_mset f M)"
| replace: "fd_reach lim ts fs (add_mset f M) \<Longrightarrow> i < length ts \<Longrightarrow> replace_fd_locked alloc (ts ! i) n f = (r2, p') \<Longrightarrow>
    fd_reach lim (ts[i := p']) fs (case r2 of Inr x \<Rightarrow> opt_mset x + M | Inl _ \<Rightarrow> add_mset f M)"
| clear: "fd_reach lim ts fs M \<Longrightarrow> i < length ts \<Longrightarrow> clear_fd_locked (ts ! i) fd = (r2, p') \<Longrightarrow>
    fd_reach lim (ts[i := p']) fs (case r2 of Inr x \<Rightarrow> opt_mset x + M | Inl _ \<Rightarrow> M)"
| exit: "fd_reach lim ts fs M \<Longrightarrow> i < length ts \<Longrightarrow> detach_fds (ts ! i) = (taken, p') \<Longrightarrow>
    fd_reach lim (ts[i := p']) fs (mset (present taken) + M)"
| fork: "fd_reach lim ts fs M \<Longrightarrow> i < length ts \<Longrightarrow> child < length ts \<Longrightarrow> fds (ts ! child) = [] \<Longrightarrow>
    process_fds_copy alloc (ts ! child) (ts ! i) fs = (r3, p', fs') \<Longrightarrow> within lim (ts[child := p']) M \<Longrightarrow>
    fd_reach lim (ts[child := p']) fs' M"

lemma refs_ok_open: "refs_ok fs M \<Longrightarrow> fs f = None \<Longrightarrow> refs_ok (fs(f \<mapsto> 1)) (add_mset f M)"
  by (simp add: stored_def holds_refs_def file_refs_def) (metis option.simps(4))

definition fds_ok :: "fd_table list \<Rightarrow> files \<Rightarrow> nat multiset \<Rightarrow> bool" where
  "fds_ok ts fs M \<longleftrightarrow> (\<forall>p\<in>set ts. fd_inv p) \<and> refs_ok fs (all_refs ts + M)"

text \<open>One table changes, with what it gives to or takes from the references in flight.\<close>

lemma fds_ok_update:
  assumes "fds_ok ts fs M" "i < length ts" "fd_inv p'" "table_refs p' + M' = table_refs (ts ! i) + M"
  shows "fds_ok (ts[i := p']) fs M'"
proof -
  have "all_refs (ts[i := p']) + M' = all_refs ts + M"
    unfolding all_refs_update [OF assms(2)] all_refs_nth [OF assms(2)] using assms(4) by (metis add.assoc add.commute)
  then show ?thesis using assms(1,3) set_update_subset_insert [of ts i p'] by (auto simp: fds_ok_def)
qed

lemma fd_reach_ok: "fd_reach lim ts fs M \<Longrightarrow> lim \<le> MAX_REFS \<Longrightarrow> fds_ok ts fs M"
proof (induction rule: fd_reach.induct)
  case start
  then show ?case by (simp add: fds_ok_def stored_def holds_refs_def file_refs_def)
next
  case (create ts fs M)
  then show ?case by (simp add: fds_ok_def fd_inv_def table_refs_def)
next
  case (file_open ts fs M f)
  then show ?case using refs_ok_open [of fs "all_refs ts + M" f] by (simp add: fds_ok_def fun_upd_def)
next
  case (dupe ts fs M f)
  have "count (all_refs ts + M) f < MAX_REFS"
    using dupe.hyps(3) dupe.prems unfolding within_def by (metis Suc_le_lessD add_mset_add_single count_add_mset le_trans union_mset_add_mset_right)
  then show ?case using dupe fref.holds_incref [of fs "all_refs ts + M" f] by (simp add: fds_ok_def del: file_dupe.simps)
next
  case (close ts fs f M)
  then show ?case using fref.holds_decref [of fs f "all_refs ts + M"] by (simp add: fds_ok_def del: file_close.simps)
next
  case (get ts fs M i fd x fs')
  have eq: "all_refs ts + N = table_refs (ts ! i) + (other_refs i ts + N)" for N by (simp add: all_refs_nth [OF get.hyps(2)] ac_simps)
  have "\<forall>f. count (opt_mset x + (table_refs (ts ! i) + (other_refs i ts + M))) f \<le> MAX_REFS"
    using get.hyps(4) get.prems unfolding within_def eq by (metis (no_types, lifting) le_trans add.assoc add.commute)
  moreover have "refs_ok fs (table_refs (ts ! i) + (other_refs i ts + M))" "\<forall>p\<in>set ts. fd_inv p"
    using get.IH [OF get.prems] by (simp_all add: fds_ok_def eq)
  ultimately have "refs_ok fs' (opt_mset x + (table_refs (ts ! i) + (other_refs i ts + M)))" "\<forall>p\<in>set ts. fd_inv p"
    using process_fd_get_refs [OF _ get.hyps(3)] by blast+
  then show ?case by (simp add: fds_ok_def eq ac_simps)
next
  case (install ts fs f M i alloc r p')
  show ?case
  proof (cases r)
    case (Inl e)
    then have "p' = ts ! i" using install.hyps(3) process_fd_alloc_Inl(1) by blast
    then show ?thesis using install.IH [OF install.prems] Inl by simp
  next
    case (Inr fd)
    have "fd_inv (ts ! i)" using install.IH [OF install.prems] install.hyps(2) by (simp add: fds_ok_def)
    from process_fd_alloc_refs [OF _ this, of alloc f fd p'] show ?thesis
      using install.hyps(3) Inr by (auto intro: fds_ok_update [OF install.IH [OF install.prems] install.hyps(2)])
  qed
next
  case (replace ts fs f M i alloc n r2 p')
  show ?case
  proof (cases r2)
    case (Inl e)
    then have "p' = ts ! i" using replace.hyps(3) replace_fd_locked_Inl by blast
    then show ?thesis using replace.IH [OF replace.prems] Inl by simp
  next
    case (Inr x)
    have "fd_inv (ts ! i)" using replace.IH [OF replace.prems] replace.hyps(2) by (simp add: fds_ok_def)
    from replace_fd_locked_refs [OF _ this, of alloc n f x p'] have "fd_inv p'" "opt_mset x + table_refs p' = add_mset f (table_refs (ts ! i))"
      using replace.hyps(3) Inr by simp_all
    then have "table_refs p' + (opt_mset x + M) = table_refs (ts ! i) + add_mset f M" by (metis add.assoc add.commute union_mset_add_mset_left union_mset_add_mset_right)
    then show ?thesis using \<open>fd_inv p'\<close> Inr by (auto intro: fds_ok_update [OF replace.IH [OF replace.prems] replace.hyps(2)])
  qed
next
  case (clear ts fs M i fd r2 p')
  show ?case
  proof (cases r2)
    case (Inl e)
    then have "p' = ts ! i" using clear.hyps(3) clear_fd_locked_Inl by blast
    then show ?thesis using clear.IH [OF clear.prems] Inl by simp
  next
    case (Inr x)
    have "fd_inv (ts ! i)" using clear.IH [OF clear.prems] clear.hyps(2) by (simp add: fds_ok_def)
    from clear_fd_locked_refs [OF _ this, of fd x p'] have "fd_inv p'" "opt_mset x + table_refs p' = table_refs (ts ! i)"
      using clear.hyps(3) Inr by simp_all
    then have "table_refs p' + (opt_mset x + M) = table_refs (ts ! i) + M" by (metis add.assoc add.commute)
    then show ?thesis using \<open>fd_inv p'\<close> Inr by (auto intro: fds_ok_update [OF clear.IH [OF clear.prems] clear.hyps(2)])
  qed
next
  case (exit ts fs M i taken p')
  show ?case
    by (rule fds_ok_update [OF exit.IH [OF exit.prems] exit.hyps(2)]) (simp_all add: detach_fds_refs [OF exit.hyps(3)])
next
  case (fork ts fs M i child alloc r3 p' fs')
  note ok = fork.IH [OF fork.prems]
  show ?case
  proof (cases r3)
    case (Inl e)
    then have "p' = ts ! child" "fs' = fs" using fork.hyps(5) process_fds_copy_Inl by blast+
    then show ?thesis using ok by simp
  next
    case (Inr u)
    have inv: "fd_inv (ts ! i)" using ok fork.hyps(2) by (simp add: fds_ok_def)
    have "table_refs (ts ! child) = {#}" using fork.hyps(4) by (simp add: table_refs_def)
    then have eq: "all_refs ts = other_refs child ts" by (simp add: all_refs_nth [OF fork.hyps(3)])
    have eqi: "all_refs ts + N = table_refs (ts ! i) + (other_refs i ts + N)" for N by (simp add: all_refs_nth [OF fork.hyps(2)] ac_simps)
    have up: "all_refs (ts[child := p']) + M = table_refs p' + (table_refs (ts ! i) + (other_refs i ts + M))"
      unfolding all_refs_update [OF fork.hyps(3)] eq [symmetric] eqi [symmetric] by (simp add: add.assoc)
    have "\<forall>f. count (table_refs p' + (table_refs (ts ! i) + (other_refs i ts + M))) f \<le> MAX_REFS"
      using fork.hyps(6) fork.prems unfolding within_def up by (metis le_trans)
    from process_fds_copy_refs [OF _ _ inv this, of fs alloc "ts ! child" u fs']
    have "refs_ok fs' (all_refs (ts[child := p']) + M)" "fd_inv p'"
      using ok fork.hyps(5) Inr by (simp_all add: fds_ok_def eqi up)
    then show ?thesis using ok set_update_subset_insert [of ts child p'] by (auto simp: fds_ok_def)
  qed
qed

text \<open>The whole functions, run without interruption, are histories too.\<close>

lemma fd_reach_close: "fd_reach lim ts fs (opt_mset x + M) \<Longrightarrow> fd_reach lim ts (file_close x fs) M"
  using fd_reach.close [of lim ts fs] by (cases x) (simp_all del: file_close.simps(2))

lemma fd_reach_release:
  assumes "fd_reach lim ts fs M" "i < length ts" "process_fd_release (ts ! i) fd fs = (r, p', fs')"
  shows "fd_reach lim (ts[i := p']) fs' M"
proof -
  obtain r2 where c: "clear_fd_locked (ts ! i) fd = (r2, p')" "fs' = (case r2 of Inr x \<Rightarrow> file_close x fs | Inl _ \<Rightarrow> fs)"
    using assms(3) by (auto simp: process_fd_release_def split: prod.splits sum.splits)
  from fd_reach.clear [OF assms(1,2) c(1)] show ?thesis using c(2) fd_reach_close by (cases r2) auto
qed

lemma fd_reach_exit:
  assumes "fd_reach lim ts fs M" "i < length ts" "release_fds (ts ! i) fs = (p', fs')"
  shows "fd_reach lim (ts[i := p']) fs' M"
proof -
  have "fd_reach lim us (fold file_close xs gs) M" if "fd_reach lim us gs (mset (present xs) + M)" for us gs xs
    using that
  proof (induction xs arbitrary: gs)
    case (Cons x xs)
    have "fd_reach lim us gs (opt_mset x + (mset (present xs) + M))" using Cons.prems by (simp add: present_Cons add.assoc)
    from Cons.IH [OF fd_reach_close [OF this]] show ?case by simp
  qed simp
  from this [OF fd_reach.exit [OF assms(1,2), of "fds (ts ! i)" p']] show ?thesis
    using assms(3) by (auto simp: release_fds_def detach_fds_def)
qed

lemma within_opt:
  assumes "\<forall>f. within lim ts (add_mset f M)"
  shows "\<forall>x. within lim ts (opt_mset x + M)"
proof
  have "within lim ts M"
    unfolding within_def
  proof
    fix f
    have "count (all_refs ts + add_mset f M) f \<le> lim" using assms unfolding within_def by blast
    then show "count (all_refs ts + M) f \<le> lim" by simp
  qed
  then show "within lim ts (opt_mset x + M)" for x using assms by (cases x) simp_all
qed

lemma fd_reach_dup:
  assumes "fd_reach lim ts fs M" "i < length ts" "process_fd_dup alloc (ts ! i) old_fd new_fd fs = (r, p', fs')"
    "\<forall>x. within lim ts (opt_mset x + M)"
  shows "fd_reach lim (ts[i := p']) fs' M"
proof -
  obtain x fs1 where g: "process_fd_get (ts ! i) old_fd fs = (x, fs1)" by fastforce
  have reach: "fd_reach lim ts fs1 (opt_mset x + M)" using fd_reach.get [OF assms(1,2) g] assms(4) by blast
  show ?thesis
  proof (cases x)
    case None
    then show ?thesis using assms(3) g reach by (auto simp: process_fd_dup_def)
  next
    case (Some f)
    note undo = fd_reach_close [OF reach]
    have reach': "fd_reach lim ts fs1 (add_mset f M)" using reach Some by simp
    consider (early) "old_fd = new_fd \<or> (new_fd \<ge> 0 \<and> nat new_fd \<ge> CONFIG_MAX_FDS)"
      | (new) "old_fd \<noteq> new_fd" "new_fd < 0"
      | (onto) "old_fd \<noteq> new_fd" "new_fd \<ge> 0" "nat new_fd < CONFIG_MAX_FDS"
      by linarith
    then show ?thesis
    proof cases
      case early
      then show ?thesis using assms(3) g Some undo by (auto simp: process_fd_dup_def simp del: file_close.simps split: if_splits)
    next
      case new
      obtain r2 p2 where a: "process_fd_alloc alloc (ts ! i) f = (r2, p2)" by fastforce
      show ?thesis
        using assms(3) g Some new a fd_reach.install [OF reach' assms(2) a] fd_reach_close [of lim "ts[i := p2]" fs1 "Some f" M]
        by (cases r2) (auto simp: process_fd_dup_def simp del: file_close.simps)
    next
      case onto
      obtain r2 p2 where a: "replace_fd_locked alloc (ts ! i) (nat new_fd) f = (r2, p2)" by fastforce
      show ?thesis
        using assms(3) g Some onto a fd_reach.replace [OF reach' assms(2) a] fd_reach_close [of lim "ts[i := p2]" fs1 _ M]
        by (cases r2) (auto simp: process_fd_dup_def simp del: file_close.simps)
    qed
  qed
qed

text \<open>
  C15: over every history of the descriptor tables of all processes, forks and the interleavings of system calls included, in which
  no file gets 2^32 references, a file is open exactly as long as there are references to it, in a
  table or in flight, and its 32-bit count is their number; so a file a descriptor names is never freed and a
  file nobody names is never kept. The number of used slots of each table is exact and no table
  exceeds its limit. A whole release of a descriptor, exit of a process or duplication of a descriptor, on success and on
  every error, leaves such a state with the references in flight it found: none is leaked or dropped.
\<close>

theorem fd_table_references:
  assumes "fd_reach lim ts fs M" "lim < 2 ^ 32"
  shows "(\<forall>f. let n = count (all_refs ts) f + count M f in n < 2 ^ 32 \<and> fs f = (if n = 0 then None else Some (of_nat n))) \<and>
    (\<forall>p\<in>set ts. (\<forall>f. Some f \<in> set (fds p) \<longrightarrow> fs f \<noteq> None) \<and> num_fds p = size (table_refs p) \<and> length (fds p) \<le> CONFIG_MAX_FDS) \<and>
    (\<forall>i < length ts.
      (\<forall>fd r p' fs'. process_fd_release (ts ! i) fd fs = (r, p', fs') \<longrightarrow> fd_reach lim (ts[i := p']) fs' M) \<and>
      (\<forall>p' fs'. release_fds (ts ! i) fs = (p', fs') \<longrightarrow> fd_reach lim (ts[i := p']) fs' M) \<and>
      (\<forall>alloc old_fd new_fd r p' fs'. (\<forall>f. within lim ts (add_mset f M)) \<and> process_fd_dup alloc (ts ! i) old_fd new_fd fs = (r, p', fs') \<longrightarrow>
        fd_reach lim (ts[i := p']) fs' M))"
proof -
  have whole: "\<forall>i < length ts.
      (\<forall>fd r p' fs'. process_fd_release (ts ! i) fd fs = (r, p', fs') \<longrightarrow> fd_reach lim (ts[i := p']) fs' M) \<and>
      (\<forall>p' fs'. release_fds (ts ! i) fs = (p', fs') \<longrightarrow> fd_reach lim (ts[i := p']) fs' M) \<and>
      (\<forall>alloc old_fd new_fd r p' fs'. (\<forall>f. within lim ts (add_mset f M)) \<and> process_fd_dup alloc (ts ! i) old_fd new_fd fs = (r, p', fs') \<longrightarrow>
        fd_reach lim (ts[i := p']) fs' M)"
    by (intro allI impI conjI; (elim conjE)?)
      (erule (1) fd_reach_release [OF assms(1)] fd_reach_exit [OF assms(1)] fd_reach_dup [OF assms(1) _ _ within_opt])+
  have ok: "fds_ok ts fs M" using fd_reach_ok [OF assms(1)] assms(2) by (simp add: MAX_REFS_def)
  have n: "file_refs fs f = count (all_refs ts) f + count M f" "fs f \<noteq> Some 0" for f
    using ok by (simp_all add: fds_ok_def stored_def holds_refs_def)
  have st: "file_refs fs f < 2 ^ 32 \<and> fs f = (if file_refs fs f = 0 then None else Some (of_nat (file_refs fs f)))" for f
    using n(2) [of f] unsigned_less [of "the (fs f)", where 'a = nat] by (cases "fs f") (simp_all add: file_refs_def unat_eq_zero)
  have "fs f \<noteq> None" if p: "p \<in> set ts" "Some f \<in> set (fds p)" for p f
  proof -
    have "f \<in># table_refs p" using p(2) by (simp add: table_refs_def set_present)
    moreover obtain i where i: "i < length ts" "ts ! i = p" using p(1) by (auto simp: in_set_conv_nth)
    ultimately have "0 < file_refs fs f" unfolding n(1) all_refs_nth [OF i(1)] i(2) by simp
    then show ?thesis by (cases "fs f") (simp_all add: file_refs_def)
  qed
  then have "\<forall>p\<in>set ts. (\<forall>f. Some f \<in> set (fds p) \<longrightarrow> fs f \<noteq> None) \<and> num_fds p = size (table_refs p) \<and> length (fds p) \<le> CONFIG_MAX_FDS"
    using ok by (auto simp: fds_ok_def fd_inv_def table_refs_def)
  moreover have "\<forall>f. let n = count (all_refs ts) f + count M f in n < 2 ^ 32 \<and> fs f = (if n = 0 then None else Some (of_nat n))"
    using st unfolding n(1) Let_def by blast
  ultimately show ?thesis using whole by blast
qed

text \<open>One process duplicates a descriptor, forks, and the child closes one of the copies.\<close>

theorem fd_table_references_witness:
  "fd_reach 4 [\<lparr>fds = [Some 7, Some 7, None, None], num_fds = 2\<rparr>, \<lparr>fds = [None, Some 7, None, None], num_fds = 1\<rparr>] [7 \<mapsto> 3] {#} \<and>
   [7 \<mapsto> (3 :: u32)] 7 = Some (of_nat 3)"
proof -
  let ?e = "\<lparr>fds = [], num_fds = 0\<rparr>" and ?p = "\<lparr>fds = [Some 7, None, None, None], num_fds = 1\<rparr>"
    and ?q = "\<lparr>fds = [Some 7, Some 7, None, None], num_fds = 2\<rparr>" and ?c = "\<lparr>fds = [None, Some 7, None, None], num_fds = 1\<rparr>"
  have "fd_reach 4 [?e, ?e] [7 \<mapsto> 1] {#7#}"
    using fd_reach.file_open [OF fd_reach.create [OF fd_reach.create [OF fd_reach.start]], of _ 7] by simp
  from fd_reach.install [OF this, of 0 True "Inr 0" ?p] have "fd_reach 4 [?p, ?e] [7 \<mapsto> 1] {#}"
    by (simp add: process_fd_alloc_def grow_fds_locked_def CONFIG_MAX_FDS_def grow_max.simps eval_nat_numeral)
  moreover have "within 4 [?p, ?e] (opt_mset x + {#})" for x
    by (cases x) (simp_all add: within_def table_refs_def)
  ultimately have "fd_reach 4 [?q, ?e] [7 \<mapsto> 2] {#}"
    using fd_reach_dup [of 4 "[?p, ?e]" "[7 \<mapsto> 1]" "{#}" 0 True 0 1 "Inr 1" ?q "[7 \<mapsto> 2]"]
    by (simp add: process_fd_dup_def process_fd_get_def replace_fd_locked_def grow_fds_locked_def CONFIG_MAX_FDS_def)
  from fd_reach.fork [OF this, of 0 1 True "Inr ()" ?q "[7 \<mapsto> 4]"] have "fd_reach 4 [?q, ?q] [7 \<mapsto> 4] {#}"
    by (simp add: process_fds_copy_def within_def table_refs_def)
  from fd_reach_release [OF this, of 1 0 "Inr ()" ?c "[7 \<mapsto> 3]"] have r: "fd_reach 4 [?q, ?c] [7 \<mapsto> 3] {#}"
    by (simp add: process_fd_release_def clear_fd_locked_def)
  then show ?thesis
    using fd_table_references [OF r] by (simp add: table_refs_def Let_def)
qed

text \<open>
  \<^verbatim>\<open>process_fd_alloc\<close> returns the lowest descriptor that is not in use and changes only its
  slot; it fails only when every slot is in use, with \<^verbatim>\<open>EMFILE\<close> at the limit and \<^verbatim>\<open>ENOMEM\<close> below it
  when the table cannot grow, and then the table is unchanged.
\<close>

theorem process_fd_alloc_lowest:
  assumes "process_fd_alloc alloc p file = (r, p')"
  shows "case r of
      Inr fd \<Rightarrow> fd < length (fds p') \<and> fds p' ! fd = Some file \<and>
        (\<forall>i < fd. i < length (fds p) \<and> fds p ! i \<noteq> None) \<and> (fd < length (fds p) \<longrightarrow> fds p ! fd = None) \<and>
        (\<forall>i. i \<noteq> fd \<and> i < length (fds p') \<longrightarrow> fds p' ! i = (if i < length (fds p) then fds p ! i else None))
    | Inl e \<Rightarrow> p' = p \<and> (\<forall>x\<in>set (fds p). x \<noteq> None) \<and>
        (e = EMFILE \<and> CONFIG_MAX_FDS \<le> length (fds p) \<or> e = ENOMEM \<and> length (fds p) < CONFIG_MAX_FDS \<and> \<not> alloc)"
proof (cases r)
  case (Inl e)
  then show ?thesis
    using assms
    by (auto simp: process_fd_alloc_def Let_def grow_fds_locked_def first_free_None split: option.splits prod.splits sum.splits if_splits)
next
  case (Inr fd)
  then obtain n where n: "fd < length (fds p @ replicate n None)" "(fds p @ replicate n None) ! fd = None"
    "\<forall>i < fd. i < length (fds p) \<and> fds p ! i \<noteq> None"
    "p' = p\<lparr>fds := (fds p @ replicate n None)[fd := Some file], num_fds := num_fds p + 1\<rparr>"
    using process_fd_alloc_Inr [of alloc p "file" fd p'] assms by metis
  then show ?thesis
    using Inr by (auto simp: nth_append)
qed

theorem process_fd_alloc_lowest_witness:
  "case process_fd_alloc True \<lparr>fds = [Some 4, None, Some 5, None], num_fds = 2\<rparr> 9 of
     (r, p') \<Rightarrow> r = Inr 1 \<and> fds p' ! 1 = Some 9 \<and> fds p' ! 2 = Some 5"
proof -
  let ?p = "\<lparr>fds = [Some 4, None, Some 5, None], num_fds = 2\<rparr>"
  have r: "process_fd_alloc True ?p 9 = (Inr 1, \<lparr>fds = [Some 4, Some 9, Some 5, None], num_fds = 3\<rparr>)"
    by (simp add: process_fd_alloc_def)
  show ?thesis
    using process_fd_alloc_lowest [OF r] r by simp
qed

text \<open>
  after a successful \<^verbatim>\<open>process_fd_dup\<close> onto a descriptor, that descriptor names the file of the
  old one, every other descriptor is as before, and the old descriptor was open; onto itself
  it changes nothing. A failure leaves the table as it was.
\<close>

theorem process_fd_dup_correct:
  assumes "process_fd_dup alloc p old_fd new_fd fs = (r, p', fs')" "0 \<le> new_fd"
  shows "case r of
      Inr fd \<Rightarrow> fd = nat new_fd \<and> 0 \<le> old_fd \<and> nat old_fd < length (fds p) \<and> fds p ! nat old_fd \<noteq> None \<and>
        fd < length (fds p') \<and> fds p' ! fd = fds p ! nat old_fd \<and>
        (\<forall>i < length (fds p). i \<noteq> fd \<longrightarrow> fds p' ! i = fds p ! i) \<and> (old_fd = new_fd \<longrightarrow> p' = p)
    | Inl e \<Rightarrow> p' = p \<and> e \<in> {EBADF, ENOMEM}"
proof -
  obtain x fs1 where g: "process_fd_get p old_fd fs = (x, fs1)"
    by fastforce
  show ?thesis
  proof (cases x)
    case None
    then show ?thesis using assms g by (auto simp: process_fd_dup_def)
  next
    case (Some f)
    then have old: "0 \<le> old_fd" "nat old_fd < length (fds p)" "fds p ! nat old_fd = Some f"
      using g by (auto simp: process_fd_get_def split: if_splits)
    show ?thesis
    proof (cases "old_fd = new_fd \<or> nat new_fd \<ge> CONFIG_MAX_FDS")
      case True
      then show ?thesis
        using assms g Some old by (auto simp: process_fd_dup_def simp del: file_close.simps split: if_splits)
    next
      case False
      obtain r2 p2 where a: "grow_fds_locked alloc p (nat new_fd) = (r2, p2)" by fastforce
      show ?thesis
      proof (cases r2)
        case (Inl e)
        then have "r = Inl e" "p' = p" "e = ENOMEM"
          using assms g Some False a by (auto simp: process_fd_dup_def replace_fd_locked_def grow_fds_locked_def Let_def split: if_splits)
        then show ?thesis by simp
      next
        case (Inr u)
        then obtain n where n: "fds p2 = fds p @ replicate n None" "nat new_fd < length (fds p2)"
          using grow_fds_locked_Inr [of alloc p "nat new_fd" u p2] a by blast
        have "r = Inr (nat new_fd)" "fds p' = (fds p2)[nat new_fd := Some f]"
          using assms g Some False a Inr by (auto simp: process_fd_dup_def replace_fd_locked_def Let_def)
        then show ?thesis
          using n old False by (auto simp: nth_append)
      qed
    qed
  qed
qed

theorem process_fd_dup_correct_witness:
  "case process_fd_dup True \<lparr>fds = [Some 4, Some 6, None, None], num_fds = 2\<rparr> 1 0 [4 \<mapsto> 1, 6 \<mapsto> 1] of
     (r, p', fs') \<Rightarrow> r = Inr 0 \<and> fds p' ! 0 = Some 6 \<and> fs' = [6 \<mapsto> 2]"
proof -
  let ?p = "\<lparr>fds = [Some 4, Some 6, None, None], num_fds = 2\<rparr>"
  have r: "process_fd_dup True ?p 1 0 [4 \<mapsto> 1, 6 \<mapsto> 1] =
      (Inr 0, \<lparr>fds = [Some 6, Some 6, None, None], num_fds = 2\<rparr>, [6 \<mapsto> 2])"
    by (simp add: process_fd_dup_def process_fd_get_def replace_fd_locked_def grow_fds_locked_def CONFIG_MAX_FDS_def fun_upd_twist)
  show ?thesis
    using process_fd_dup_correct [OF r] r by simp
qed

end
