(* ===== verification/Process.thy ===== *)
theory Process
  imports Cred Fd_Table
begin

text \<open>
  Processes and their threads, \<^verbatim>\<open>kernel/proc/process.c\<close>: the state that signals and exit work
  on, and the start of a process's exit. A process is a record that extends its descriptor
  table; the linked list of threads is a list, in list order. Calls into components outside
  the process (waking a thread, dropping a vnode, freeing a signal node) are recorded in
  order in the field \<open>log\<close>.
\<close>

record siginfo =
  si_signo :: nat
  si_code :: int
  si_errno :: int
  si_status :: int
  si_pid :: int
  si_uid :: int
  si_addr :: u64
  si_value :: u64

record sigaction =
  sa_handler :: u64
  sa_flags :: u64
  sa_restorer :: u64
  sa_mask :: u64

record thread =
  tid :: int
  pending_work :: u32
  syscall_restart :: bool
  sig_blocked :: u64
  sig_pending :: u64
  sig_queue :: "siginfo list"
  sig_altstack :: u64
  sig_altstack_size :: u32

datatype event =
    Sched_kick int
  | Sched_enqueue int
  | Slab_free siginfo
  | Vnode_decref nat
  | Vms_release
  | Init_exited
  | Notify_parent
  | Reparent_children
  | Process_decref
  | Syscall_interrupted int
  | Signal_frame int sigaction siginfo u64

record process = fd_table +
  pid :: int
  proc_flags :: u8
  exit_code :: int
  exit_signal :: u8
  threads :: "thread list"
  exec_thread :: "int option"
  num_threads :: nat
  num_live_threads :: nat
  actions :: "sigaction list"
  proc_pending :: u64
  proc_queue :: "siginfo list"
  cwd :: "nat option"
  log :: "event list"

definition INIT_PID :: int where
  "INIT_PID = 1"

definition PROCESS_EXITING :: u8 where
  "PROCESS_EXITING = 1"

definition PROCESS_ZOMBIE :: u8 where
  "PROCESS_ZOMBIE = 2"

definition PROCESS_COLLECTED :: u8 where
  "PROCESS_COLLECTED = 4"

definition THREAD_WORK_EXIT :: u32 where
  "THREAD_WORK_EXIT = 1"

definition THREAD_WORK_SIGNAL :: u32 where
  "THREAD_WORK_SIGNAL = 2"

definition emit :: "event \<Rightarrow> 'a process_scheme \<Rightarrow> 'a process_scheme" where
  "emit e p = p\<lparr>log := log p @ [e]\<rparr>"

definition post_work :: "u32 \<Rightarrow> thread \<Rightarrow> thread" where
  "post_work w t = t\<lparr>pending_work := pending_work t OR w\<rparr>"

definition leaving :: "thread \<Rightarrow> bool" where
  "leaving t = (pending_work t AND THREAD_WORK_EXIT \<noteq> 0)"

definition process_set_cwd :: "process \<Rightarrow> nat option \<Rightarrow> process" where
  "process_set_cwd p node =
     (let old_cwd = cwd p;
          p = p\<lparr>cwd := node\<rparr>
      in case old_cwd of None \<Rightarrow> p | Some v \<Rightarrow> emit (Vnode_decref v) p)"

definition release_files :: "process \<Rightarrow> files \<Rightarrow> process \<times> files" where
  "release_files p fs = release_fds (process_set_cwd p None) fs"

definition begin_exit :: "process \<Rightarrow> int \<Rightarrow> nat \<Rightarrow> files \<Rightarrow> process \<times> files" where
  "begin_exit p code sig fs =
     (if proc_flags p AND PROCESS_EXITING \<noteq> 0 then (p, fs)
      else
        let p = p\<lparr>proc_flags := proc_flags p OR PROCESS_EXITING, exit_code := code, exit_signal := of_nat sig\<rparr>;
            p = p\<lparr>threads := map (post_work THREAD_WORK_EXIT) (threads p),
                  log := log p @ map (\<lambda>t. Sched_kick (tid t)) (threads p)\<rparr>
        in release_files p fs)"

definition process_exit :: "process \<Rightarrow> int \<Rightarrow> files \<Rightarrow> process \<times> files" where
  "process_exit p code fs = begin_exit p code 0 fs"

definition process_kill :: "process \<Rightarrow> nat \<Rightarrow> files \<Rightarrow> process \<times> files" where
  "process_kill p sig fs = begin_exit p 0 sig fs"

definition process_has_thread :: "process \<Rightarrow> int \<Rightarrow> bool" where
  "process_has_thread p i = (\<exists>t\<in>set (threads p). tid t = i \<and> pending_work t AND THREAD_WORK_EXIT = 0)"

definition process_claim :: "process \<Rightarrow> bool \<times> process" where
  "process_claim p =
     (if proc_flags p AND PROCESS_ZOMBIE = 0 then (False, p)
      else (proc_flags p AND PROCESS_COLLECTED = 0, p\<lparr>proc_flags := proc_flags p OR PROCESS_COLLECTED\<rparr>))"

subsection \<open>Work flags\<close>

lemma work_bits: "THREAD_WORK_EXIT = push_bit 0 1" "THREAD_WORK_SIGNAL = push_bit 1 1"
  by (simp_all add: THREAD_WORK_EXIT_def THREAD_WORK_SIGNAL_def)

lemma and_one_neq_0: "w AND 1 \<noteq> 0 \<longleftrightarrow> bit w 0" for w :: "'a::len word"
  by (simp add: and_one_eq bit_0 odd_iff_mod_2_eq_one)

lemma leaving_iff: "leaving t \<longleftrightarrow> bit (pending_work t) 0"
  using and_one_neq_0 [of "pending_work t"] by (simp add: leaving_def THREAD_WORK_EXIT_def)

lemma leaving_post_work [simp]:
  "leaving (post_work THREAD_WORK_EXIT t)"
  "leaving (post_work THREAD_WORK_SIGNAL t) = leaving t"
  by (simp_all add: leaving_iff post_work_def bit_simps work_bits)

lemma post_work_fields [simp]:
  "tid (post_work w t) = tid t" "sig_blocked (post_work w t) = sig_blocked t"
  "sig_pending (post_work w t) = sig_pending t" "sig_queue (post_work w t) = sig_queue t"
  by (simp_all add: post_work_def)

lemma emit_fields [simp]:
  "proc_flags (emit e p) = proc_flags p" "threads (emit e p) = threads p" "actions (emit e p) = actions p"
  "proc_pending (emit e p) = proc_pending p" "proc_queue (emit e p) = proc_queue p" "pid (emit e p) = pid p"
  "exit_signal (emit e p) = exit_signal p" "exit_code (emit e p) = exit_code p" "log (emit e p) = log p @ [e]"
  "num_threads (emit e p) = num_threads p" "num_live_threads (emit e p) = num_live_threads p"
  "exec_thread (emit e p) = exec_thread p" "cwd (emit e p) = cwd p" "fds (emit e p) = fds p"
  by (simp_all add: emit_def)

lemma release_files_fields [simp]:
  fixes p fs
  defines "q \<equiv> fst (release_files p fs)"
  shows "proc_flags q = proc_flags p" "threads q = threads p" "actions q = actions p" "proc_pending q = proc_pending p"
    "proc_queue q = proc_queue p" "pid q = pid p" "exit_signal q = exit_signal p" "exit_code q = exit_code p"
    "num_threads q = num_threads p" "num_live_threads q = num_live_threads p" "exec_thread q = exec_thread p"
    "cwd q = None" "fds q = []"
  by (simp_all add: q_def release_files_def release_fds_def detach_fds_def process_set_cwd_def Let_def split: option.splits)

lemma PROCESS_EXITING_neq_0 [simp]: "PROCESS_EXITING \<noteq> 0"
  by (simp add: PROCESS_EXITING_def)

text \<open>What the start of an exit does, from whichever side it is started first.\<close>

lemma begin_exit_fields [simp]:
  fixes p code sig fs
  defines "q \<equiv> fst (begin_exit p code sig fs)" and "exiting \<equiv> proc_flags p AND PROCESS_EXITING \<noteq> 0"
  shows "proc_flags q AND PROCESS_EXITING \<noteq> 0" "actions q = actions p" "proc_pending q = proc_pending p"
    "proc_queue q = proc_queue p" "pid q = pid p" "num_threads q = num_threads p"
    "num_live_threads q = num_live_threads p" "exec_thread q = exec_thread p"
    "threads q = (if exiting then threads p else map (post_work THREAD_WORK_EXIT) (threads p))"
    "exit_signal q = (if exiting then exit_signal p else of_nat sig)"
    "exit_code q = (if exiting then exit_code p else code)"
  by (simp_all add: q_def exiting_def begin_exit_def Let_def)

end
