(* ===== verification/Signal.thy ===== *)
theory Signal
  imports Process
begin

text \<open>
  Signals, \<^verbatim>\<open>kernel/proc/signal.c\<close>. Signal numbers run from 1 to 64 and a set of signals is a
  64-bit word. A thread of the process is named by its index in the list of threads; the
  calling thread is \<open>self\<close>, None when it belongs to another process. A pending signal node is
  its \<^verbatim>\<open>siginfo\<close>; an argument \<open>node\<close> is None when its allocation failed. What runs under the two
  locks is one function. \<^verbatim>\<open>signal_deliver\<close> drops the lock before it calls \<^verbatim>\<open>signal_mask\<close> and is one function all the same: it runs in the
  thread it delivers to, and only this thread changes its own mask. Building the frame of a handler is architecture code: whether it
  succeeds is the argument \<open>frame\<close>.
\<close>

definition NSIG :: nat where
  "NSIG = 64"

definition SIGKILL :: nat where
  "SIGKILL = 9"

definition SIGSEGV :: nat where
  "SIGSEGV = 10"

definition SIGSTOP :: nat where
  "SIGSTOP = 18"

definition SIG_DFL :: u64 where
  "SIG_DFL = 0"

definition SIG_IGN :: u64 where
  "SIG_IGN = 1"

definition SA_RESTART :: u64 where
  "SA_RESTART = 0x10"

definition SA_NODEFER :: u64 where
  "SA_NODEFER = 0x20"

definition SA_RESETHAND :: u64 where
  "SA_RESETHAND = 0x40"

definition SI_KERNEL :: int where
  "SI_KERNEL = -6"

datatype sig_how = SIG_BLOCK | SIG_UNBLOCK | SIG_SETMASK

datatype default_action = DEFAULT_TERM | DEFAULT_CORE | DEFAULT_IGNORE | DEFAULT_STOP | DEFAULT_CONT

definition sigbit :: "nat \<Rightarrow> u64" where
  "sigbit sig = push_bit (sig - 1) 1"

text \<open>
  The table of default actions, by signal number: SIGQUIT 3, SIGILL 4, SIGTRAP 5, SIGABRT 6,
  SIGBUS 7, SIGFPE 8, SIGSEGV 10, SIGXCPU 23, SIGXFSZ 24, SIGSYS 28; SIGCHLD 16, SIGURG 22,
  SIGWINCH 27, SIGINFO 29; SIGCONT 17; SIGSTOP 18, SIGTSTP 19, SIGTTIN 20, SIGTTOU 21.
\<close>

definition default_actions :: "nat \<Rightarrow> default_action" where
  "default_actions sig =
     (if sig \<in> {3, 4, 5, 6, 7, 8, 10, 23, 24, 28} then DEFAULT_CORE
      else if sig \<in> {16, 22, 27, 29} then DEFAULT_IGNORE
      else if sig \<in> {18, 19, 20, 21} then DEFAULT_STOP
      else if sig = 17 then DEFAULT_CONT
      else DEFAULT_TERM)"

definition default_kills :: "nat \<Rightarrow> bool" where
  "default_kills sig = (default_actions sig = DEFAULT_TERM \<or> default_actions sig = DEFAULT_CORE)"

definition ignored_locked :: "process \<Rightarrow> nat \<Rightarrow> bool" where
  "ignored_locked p sig =
     (let handler = sa_handler (actions p ! (sig - 1))
      in if handler = SIG_IGN then True
         else if handler = SIG_DFL \<and> pid p = INIT_PID then True
         else handler = SIG_DFL \<and> \<not> default_kills sig)"

fun queue_append :: "siginfo list \<Rightarrow> siginfo \<Rightarrow> siginfo list" where
  "queue_append [] node = [node]"
| "queue_append (x # q) node = x # queue_append q node"

fun queue_take :: "siginfo list \<Rightarrow> nat \<Rightarrow> siginfo option \<times> siginfo list" where
  "queue_take [] sig = (None, [])"
| "queue_take (node # q) sig =
     (if si_signo node = sig then (Some node, q)
      else case queue_take q sig of (r, q) \<Rightarrow> (r, node # q))"

definition recalc_locked :: "u64 \<Rightarrow> thread \<Rightarrow> thread" where
  "recalc_locked process_pending t =
     (let deliverable = (sig_pending t OR process_pending) AND NOT (sig_blocked t)
      in if deliverable \<noteq> 0 then t\<lparr>pending_work := pending_work t OR THREAD_WORK_SIGNAL\<rparr>
         else t\<lparr>pending_work := pending_work t AND NOT THREAD_WORK_SIGNAL\<rparr>)"

fun find_index :: "('a \<Rightarrow> bool) \<Rightarrow> 'a list \<Rightarrow> nat option" where
  "find_index P [] = None"
| "find_index P (x # xs) = (if P x then Some 0 else map_option Suc (find_index P xs))"

definition choose_thread_locked :: "process \<Rightarrow> nat option \<Rightarrow> u64 \<Rightarrow> nat option" where
  "choose_thread_locked p self b =
     (let can = (\<lambda>t. sig_blocked t AND b = 0 \<and> \<not> leaving t)
      in case self of
           Some i \<Rightarrow> if can (threads p ! i) then Some i else find_index can (threads p)
         | None \<Rightarrow> find_index can (threads p))"

definition find_thread_locked :: "process \<Rightarrow> int \<Rightarrow> nat option" where
  "find_thread_locked p i = find_index (\<lambda>t. tid t = i \<and> \<not> leaving t) (threads p)"

function drop_queue :: "siginfo list \<Rightarrow> nat \<Rightarrow> siginfo list \<Rightarrow> siginfo list \<times> siginfo list" where
  "drop_queue queue sig dropped =
     (case queue_take queue sig of
        (None, queue) \<Rightarrow> (queue, dropped)
      | (Some node, queue) \<Rightarrow> drop_queue queue sig (node # dropped))"
  by pat_completeness auto

lemma queue_take_length: "queue_take q sig = (Some node, q') \<Longrightarrow> length q' < length q"
  by (induction q arbitrary: q') (auto split: if_splits prod.splits)

termination drop_queue
  by (relation "measure (\<lambda>(q, _, _). length q)") (auto dest: queue_take_length [OF sym])

declare drop_queue.simps [simp del]

definition drop_locked :: "u64 \<Rightarrow> siginfo list \<Rightarrow> nat \<Rightarrow> siginfo list \<Rightarrow> u64 \<times> siginfo list \<times> siginfo list" where
  "drop_locked pending queue sig dropped = (pending AND NOT (sigbit sig), drop_queue queue sig dropped)"

definition slab_free_node :: "siginfo option \<Rightarrow> process \<Rightarrow> process" where
  "slab_free_node node p = (case node of None \<Rightarrow> p | Some n \<Rightarrow> emit (Slab_free n) p)"

fun signal_flush :: "siginfo list \<Rightarrow> process \<Rightarrow> process" where
  "signal_flush [] p = p"
| "signal_flush (node # queue) p = signal_flush queue (emit (Slab_free node) p)"

abbreviation set_thread :: "nat \<Rightarrow> thread \<Rightarrow> process \<Rightarrow> process" where
  "set_thread i t p \<equiv> p\<lparr>threads := (threads p)[i := t]\<rparr>"

definition kick :: "nat \<Rightarrow> process \<Rightarrow> process" where
  "kick i p = emit (Sched_kick (tid (threads p ! i))) (set_thread i (post_work THREAD_WORK_SIGNAL (threads p ! i)) p)"

definition add_pending :: "nat option \<Rightarrow> nat \<Rightarrow> siginfo option \<Rightarrow> process \<Rightarrow> process" where
  "add_pending target sig node p =
     (let append = (\<lambda>q. case node of None \<Rightarrow> q | Some n \<Rightarrow> queue_append q n)
      in case target of
           None \<Rightarrow> p\<lparr>proc_pending := proc_pending p OR sigbit sig, proc_queue := append (proc_queue p)\<rparr>
         | Some i \<Rightarrow>
             let t = threads p ! i
             in set_thread i (t\<lparr>sig_pending := sig_pending t OR sigbit sig, sig_queue := append (sig_queue t)\<rparr>) p)"

definition queue_signal ::
  "process \<Rightarrow> nat option \<Rightarrow> int \<Rightarrow> nat \<Rightarrow> siginfo option \<Rightarrow> unit result \<times> process" where
  "queue_signal p self i sig node =
     (let b = sigbit sig;
          target = (if i \<noteq> 0 then find_thread_locked p i else None)
      in if i \<noteq> 0 \<and> target = None then (Inl ESRCH, slab_free_node node p)
         else
           let pending = (case target of None \<Rightarrow> proc_pending p | Some k \<Rightarrow> sig_pending (threads p ! k))
           in if pending AND b \<noteq> 0 then (Inr (), slab_free_node node p)
              else
                let thread = (if target = None then choose_thread_locked p self b else target);
                    thread = (case thread of
                                Some k \<Rightarrow> if sig_blocked (threads p ! k) AND b \<noteq> 0 then None else Some k
                              | None \<Rightarrow> None)
                in if thread \<noteq> None \<and> ignored_locked p sig then (Inr (), slab_free_node node p)
                   else
                     let p = add_pending target sig node p
                     in (Inr (), case thread of None \<Rightarrow> p | Some k \<Rightarrow> kick k p))"

definition zero_action :: sigaction where
  "zero_action = \<lparr>sa_handler = 0, sa_flags = 0, sa_restorer = 0, sa_mask = 0\<rparr>"

definition signal_actions_create :: "bool \<Rightarrow> sigaction list option \<Rightarrow> sigaction list option" where
  "signal_actions_create alloc parent =
     (if \<not> alloc then None
      else case parent of None \<Rightarrow> Some (replicate NSIG zero_action) | Some acts \<Rightarrow> Some acts)"

definition signal_actions_exec :: "sigaction list \<Rightarrow> sigaction list" where
  "signal_actions_exec acts =
     map (\<lambda>a. if sa_handler a = SIG_IGN then a\<lparr>sa_flags := 0, sa_mask := 0\<rparr> else zero_action) acts"

definition signal_send ::
  "process \<Rightarrow> nat option \<Rightarrow> int \<Rightarrow> siginfo \<Rightarrow> bool \<Rightarrow> files \<Rightarrow> unit result \<times> process \<times> files" where
  "signal_send p self i info alloc fs =
     (if si_signo info = SIGKILL then
        if i \<noteq> 0 \<and> \<not> process_has_thread p i then (Inl ESRCH, p, fs)
        else if pid p \<noteq> INIT_PID then (Inr (), process_kill p SIGKILL fs)
        else (Inr (), p, fs)
      else
        let node = (if alloc then Some info else None)
        in case queue_signal p self i (si_signo info) node of (r, p) \<Rightarrow> (r, p, fs))"

definition signal_send_node :: "process \<Rightarrow> nat option \<Rightarrow> siginfo \<Rightarrow> process" where
  "signal_send_node p self node = snd (queue_signal p self 0 (si_signo node) (Some node))"

definition retargets :: "u64 \<Rightarrow> thread \<Rightarrow> bool" where
  "retargets pending t = (\<not> (leaving t \<or> pending AND NOT (sig_blocked t) = 0))"

definition signal_retarget :: "process \<Rightarrow> process" where
  "signal_retarget p =
     p\<lparr>threads := map (\<lambda>t. if retargets (proc_pending p) t then post_work THREAD_WORK_SIGNAL t else t) (threads p),
       log := log p @ map (\<lambda>t. Sched_kick (tid t)) (filter (retargets (proc_pending p)) (threads p))\<rparr>"

text \<open>
  \<^verbatim>\<open>signal_force\<close>, in the order of its body: the action a fault finds, reset when it is ignored
  or blocked; the branch that queues the signal to the thread; the whole.
\<close>

definition force_action :: "process \<Rightarrow> nat \<Rightarrow> nat \<Rightarrow> sigaction" where
  "force_action p i sig =
     (let action = actions p ! (sig - 1)
      in if sa_handler action = SIG_IGN \<or> sig_blocked (threads p ! i) AND sigbit sig \<noteq> 0 then zero_action else action)"

definition force_queue :: "process \<Rightarrow> nat \<Rightarrow> nat \<Rightarrow> siginfo option \<Rightarrow> process" where
  "force_queue p i sig node =
     (let t = threads p ! i;
          (pending, queue, dropped) = drop_locked (sig_pending t) (sig_queue t) sig [];
          t = t\<lparr>sig_blocked := sig_blocked t AND NOT (sigbit sig), sig_pending := pending OR sigbit sig,
                sig_queue := (case node of None \<Rightarrow> queue | Some n \<Rightarrow> queue_append queue n)\<rparr>;
          t = recalc_locked (proc_pending p) t
      in signal_flush dropped (set_thread i t p))"

definition signal_force :: "process \<Rightarrow> nat \<Rightarrow> siginfo \<Rightarrow> bool \<Rightarrow> files \<Rightarrow> process \<times> files" where
  "signal_force p i info alloc fs =
     (let sig = si_signo info;
          node = (if alloc then Some info else None);
          action = force_action p i sig;
          p = p\<lparr>actions := (actions p)[sig - 1 := action]\<rparr>;
          fatal = (sa_handler action = SIG_DFL \<and> default_kills sig)
      in if \<not> fatal then (force_queue p i sig node, fs)
         else process_kill (slab_free_node node p) sig fs)"

definition signal_mask :: "process \<Rightarrow> nat \<Rightarrow> sig_how \<Rightarrow> u64 \<Rightarrow> u64 \<times> process" where
  "signal_mask p i how sigs =
     (let t = threads p ! i;
          old = sig_blocked t;
          blocked = (case how of SIG_BLOCK \<Rightarrow> old OR sigs | SIG_UNBLOCK \<Rightarrow> old AND NOT sigs | SIG_SETMASK \<Rightarrow> sigs);
          t = t\<lparr>sig_blocked := blocked AND NOT (sigbit SIGKILL OR sigbit SIGSTOP)\<rparr>;
          t = recalc_locked (proc_pending p) t
      in (old, set_thread i t p))"

text \<open>The number of trailing zeros of a word that is not zero.\<close>

definition ctzll :: "u64 \<Rightarrow> nat" where
  "ctzll w = (case find_index (bit w) [0..<64] of Some n \<Rightarrow> n | None \<Rightarrow> 64)"

text \<open>The part of \<^verbatim>\<open>signal_deliver\<close> under the lock: takes one signal off the thread, or off the process.\<close>

definition take_signal :: "process \<Rightarrow> nat \<Rightarrow> (nat \<times> siginfo option) option \<times> process" where
  "take_signal p i =
     (let t = threads p ! i;
          deliverable = sig_pending t AND NOT (sig_blocked t);
          own = (deliverable \<noteq> 0);
          deliverable = (if own then deliverable else proc_pending p AND NOT (sig_blocked t))
      in if deliverable = 0 then (None, p)
         else
           let sig = ctzll deliverable + 1;
               (node, queue) = queue_take (if own then sig_queue t else proc_queue p) sig
           in (Some (sig, node),
               if own then set_thread i (t\<lparr>sig_pending := sig_pending t AND NOT (sigbit sig), sig_queue := queue\<rparr>) p
               else p\<lparr>proc_pending := proc_pending p AND NOT (sigbit sig), proc_queue := queue\<rparr>))"

definition recalc_thread :: "nat \<Rightarrow> process \<Rightarrow> process" where
  "recalc_thread i p = set_thread i (recalc_locked (proc_pending p) (threads p ! i)) p"

definition kernel_siginfo :: "nat \<Rightarrow> siginfo" where
  "kernel_siginfo sig = \<lparr>si_signo = sig, si_code = SI_KERNEL, si_errno = 0, si_status = 0, si_pid = 0, si_uid = 0,
     si_addr = 0, si_value = 0\<rparr>"

text \<open>The end of \<^verbatim>\<open>signal_deliver\<close>, for a signal that is caught.\<close>

definition run_handler ::
  "process \<Rightarrow> nat \<Rightarrow> nat \<Rightarrow> sigaction \<Rightarrow> siginfo \<Rightarrow> u64 \<Rightarrow> bool \<Rightarrow> files \<Rightarrow> process \<times> files" where
  "run_handler p i sig action info old_mask frame fs =
     (let t = threads p ! i;
          p = (if syscall_restart t \<and> sa_flags action AND SA_RESTART = 0 then emit (Syscall_interrupted (tid t)) p else p);
          p = set_thread i (t\<lparr>syscall_restart := False\<rparr>) p
      in if \<not> frame then process_kill p SIGSEGV fs
         else
           let p = emit (Signal_frame (tid t) action info old_mask) p;
               blocked = sa_mask action;
               blocked = (if sa_flags action AND SA_NODEFER = 0 then blocked OR sigbit sig else blocked)
           in (snd (signal_mask p i SIG_BLOCK blocked), fs))"

definition signal_deliver :: "process \<Rightarrow> nat \<Rightarrow> bool \<Rightarrow> files \<Rightarrow> process \<times> files" where
  "signal_deliver p i frame fs =
     (case take_signal p i of
        (None, p) \<Rightarrow> (recalc_thread i p, fs)
      | (Some (sig, node), p) \<Rightarrow>
          let action = actions p ! (sig - 1);
              old_mask = sig_blocked (threads p ! i);
              caught = (sa_handler action \<noteq> SIG_DFL \<and> sa_handler action \<noteq> SIG_IGN);
              ignored = ignored_locked p sig;
              p = (if caught \<and> sa_flags action AND SA_RESETHAND \<noteq> 0
                   then p\<lparr>actions := (actions p)[sig - 1 := zero_action]\<rparr> else p);
              p = recalc_thread i p;
              info = (case node of None \<Rightarrow> kernel_siginfo sig | Some n \<Rightarrow> n);
              p = slab_free_node node p
          in if \<not> caught then (if \<not> ignored then process_kill p sig fs else (p, fs))
             else run_handler p i sig action info old_mask frame fs)"

text \<open>The loop of \<^verbatim>\<open>signal_action\<close> over the threads collects the dropped nodes in one list.\<close>

fun drop_threads :: "thread list \<Rightarrow> nat \<Rightarrow> siginfo list \<Rightarrow> thread list \<times> siginfo list" where
  "drop_threads [] sig dropped = ([], dropped)"
| "drop_threads (t # ts) sig dropped =
     (let (pending, queue, dropped) = drop_locked (sig_pending t) (sig_queue t) sig dropped;
          (ts, dropped) = drop_threads ts sig dropped
      in (t\<lparr>sig_pending := pending, sig_queue := queue\<rparr> # ts, dropped))"

definition signal_action :: "process \<Rightarrow> nat \<Rightarrow> sigaction option \<Rightarrow> sigaction \<times> process" where
  "signal_action p sig act =
     (let old_action = actions p ! (sig - 1)
      in case act of
           None \<Rightarrow> (old_action, p)
         | Some a \<Rightarrow>
             let p = p\<lparr>actions := (actions p)[sig - 1 := a]\<rparr>
             in if ignored_locked p sig then
                  let (pending, queue, dropped) = drop_locked (proc_pending p) (proc_queue p) sig [];
                      (ts, dropped) = drop_threads (threads p) sig dropped
                  in (old_action, signal_flush dropped (p\<lparr>proc_pending := pending, proc_queue := queue, threads := ts\<rparr>))
                else (old_action, p))"

definition signal_pending :: "process \<Rightarrow> nat \<Rightarrow> u64" where
  "signal_pending p i = (let t = threads p ! i in (sig_pending t OR proc_pending p) AND sig_blocked t)"

definition signal_on_altstack :: "thread \<Rightarrow> u64 \<Rightarrow> bool" where
  "signal_on_altstack t sp =
     (sig_altstack_size t \<noteq> 0 \<and> sp > sig_altstack t \<and> sp - sig_altstack t \<le> ucast (sig_altstack_size t))"

record stack =
  ss_sp :: u64
  ss_size :: u64
  ss_flags :: int
  ss_reserved :: u32

definition signal_altstack_get :: "thread \<Rightarrow> u64 \<Rightarrow> stack" where
  "signal_altstack_get t sp =
     \<lparr>ss_sp = sig_altstack t, ss_size = ucast (sig_altstack_size t),
      ss_flags = (if sig_altstack_size t = 0 then 2 else if signal_on_altstack t sp then 1 else 0), ss_reserved = 0\<rparr>"


subsection \<open>Signal sets and queues\<close>

definition valid_sig :: "nat \<Rightarrow> bool" where
  "valid_sig sig \<longleftrightarrow> 1 \<le> sig \<and> sig \<le> NSIG"

lemma valid_sig_less: "valid_sig sig \<Longrightarrow> sig - Suc 0 < 64"
  by (auto simp: valid_sig_def NSIG_def)

lemma valid_sig_inj: "valid_sig m \<Longrightarrow> valid_sig n \<Longrightarrow> m - Suc 0 = n - Suc 0 \<longleftrightarrow> m = n"
  by (auto simp: valid_sig_def)

lemma bit_sigbit: "bit (sigbit sig) n \<longleftrightarrow> n = sig - 1 \<and> n < 64"
  by (auto simp: sigbit_def bit_simps)

lemma and_sigbit: "w AND sigbit sig \<noteq> 0 \<longleftrightarrow> bit w (sig - 1)"
  unfolding sigbit_def by (rule and_push_bit_1_eq)

lemma and_sigbit_0: "w AND sigbit sig = 0 \<longleftrightarrow> \<not> bit w (sig - 1)"
  using and_sigbit by blast

lemmas sig_bits = bit_sigbit and_sigbit and_sigbit_0 bit_simps

lemma queue_append_eq [simp]: "queue_append q n = q @ [n]"
  by (induction q) simp_all

lemma queue_take_cases:
  assumes "queue_take q sig = (r, q')"
  shows "case r of
      None \<Rightarrow> q' = q \<and> (\<forall>n\<in>set q. si_signo n \<noteq> sig)
    | Some n \<Rightarrow> \<exists>a b. q = a @ n # b \<and> q' = a @ b \<and> si_signo n = sig \<and> (\<forall>x\<in>set a. si_signo x \<noteq> sig)"
  using assms
proof (induction q arbitrary: q')
  case (Cons x q)
  show ?case
  proof (cases "si_signo x = sig")
    case True
    then have "r = Some x" "q' = q"
      using Cons.prems by auto
    moreover have "\<exists>a b. x # q = a @ x # b \<and> q = a @ b \<and> si_signo x = sig \<and> (\<forall>y\<in>set a. si_signo y \<noteq> sig)"
      by (rule exI [of _ "[]"], rule exI [of _ q]) (simp add: True)
    ultimately show ?thesis by simp
  next
    case False
    then obtain q2 where q2: "queue_take q sig = (r, q2)" "q' = x # q2"
      using Cons.prems by (auto split: prod.splits)
    show ?thesis
    proof (cases r)
      case None
      then show ?thesis using Cons.IH [OF q2(1)] q2(2) False by simp
    next
      case (Some n)
      then obtain a b where "q = a @ n # b" "q2 = a @ b" "si_signo n = sig" "\<forall>x\<in>set a. si_signo x \<noteq> sig"
        using Cons.IH [OF q2(1)] by auto
      then show ?thesis
        using Some q2(2) False by (auto intro: exI [of _ "x # a"])
    qed
  qed
qed simp

lemma drop_queue_eq:
  "drop_queue q sig d = (filter (\<lambda>n. si_signo n \<noteq> sig) q, rev (filter (\<lambda>n. si_signo n = sig) q) @ d)"
proof (induction q sig d rule: drop_queue.induct)
  case (1 q sig d)
  obtain r q' where t: "queue_take q sig = (r, q')" by fastforce
  show ?case
  proof (cases r)
    case None
    then have "q' = q" "\<forall>n\<in>set q. si_signo n \<noteq> sig"
      using queue_take_cases [OF t] by auto
    then show ?thesis
      using t None by (subst drop_queue.simps) (simp add: filter_empty_conv)
  next
    case (Some n)
    then obtain a b where ab: "q = a @ n # b" "q' = a @ b" "si_signo n = sig" "\<forall>x\<in>set a. si_signo x \<noteq> sig"
      using queue_take_cases [OF t] by auto
    have "filter (\<lambda>n. si_signo n = sig) a = []"
      using ab(4) by (simp add: filter_empty_conv)
    then show ?thesis
      using t Some ab "1.IH" [OF t [symmetric] Some] by (subst drop_queue.simps) simp
  qed
qed

text \<open>A queue holds at most one node of each signal, and only of pending ones.\<close>

definition queue_ok :: "u64 \<Rightarrow> siginfo list \<Rightarrow> bool" where
  "queue_ok pending q \<longleftrightarrow>
     distinct (map si_signo q) \<and> (\<forall>n\<in>set q. valid_sig (si_signo n) \<and> bit pending (si_signo n - 1))"

definition thread_ok :: "thread \<Rightarrow> bool" where
  "thread_ok t \<longleftrightarrow> queue_ok (sig_pending t) (sig_queue t) \<and>
     \<not> bit (sig_blocked t) (SIGKILL - 1) \<and> \<not> bit (sig_blocked t) (SIGSTOP - 1)"

definition sig_inv :: "process \<Rightarrow> bool" where
  "sig_inv p \<longleftrightarrow> length (actions p) = NSIG \<and> queue_ok (proc_pending p) (proc_queue p) \<and> (\<forall>t\<in>set (threads p). thread_ok t)"

lemma queue_ok_append:
  assumes "queue_ok w q" "\<not> bit w (sig - 1)" "valid_sig sig" "\<forall>n. node = Some n \<longrightarrow> si_signo n = sig"
  shows "queue_ok (w OR sigbit sig) (case node of None \<Rightarrow> q | Some n \<Rightarrow> q @ [n])"
  using assms valid_sig_less by (auto simp: queue_ok_def sig_bits split: option.splits)

lemma queue_ok_subset:
  assumes "queue_ok w q" "set q' \<subseteq> set q" "distinct (map si_signo q')" "\<forall>n\<in>set q'. si_signo n \<noteq> sig" "valid_sig sig"
  shows "queue_ok (w AND NOT (sigbit sig)) q'"
proof -
  have "bit (w AND NOT (sigbit sig)) (si_signo n - 1) \<and> valid_sig (si_signo n)" if "n \<in> set q'" for n
  proof -
    have n: "valid_sig (si_signo n)" "bit w (si_signo n - 1)" "si_signo n \<noteq> sig"
      using that assms by (auto simp: queue_ok_def)
    then show ?thesis
      using valid_sig_inj [OF n(1) assms(5)] valid_sig_less by (simp add: sig_bits)
  qed
  then show ?thesis
    using assms(3) by (auto simp: queue_ok_def)
qed

lemma queue_ok_take:
  assumes "queue_ok w q" "queue_take q sig = (r, q')" "valid_sig sig"
  shows "queue_ok (w AND NOT (sigbit sig)) q'"
proof (rule queue_ok_subset [OF assms(1) _ _ _ assms(3)])
  have "distinct (map si_signo q)"
    using assms(1) by (simp add: queue_ok_def)
  then show "set q' \<subseteq> set q" "distinct (map si_signo q')" "\<forall>n\<in>set q'. si_signo n \<noteq> sig"
    using queue_take_cases [OF assms(2)] by (auto split: option.splits) (metis image_eqI)
qed

lemma queue_ok_drop:
  assumes "queue_ok w q" "valid_sig sig"
  shows "queue_ok (w AND NOT (sigbit sig)) (filter (\<lambda>n. si_signo n \<noteq> sig) q)"
  using assms by (intro queue_ok_subset [OF assms(1)]) (auto simp: queue_ok_def distinct_map_filter)

lemma find_index_Some: "find_index P xs = Some i \<Longrightarrow> i < length xs \<and> P (xs ! i) \<and> (\<forall>j < i. \<not> P (xs ! j))"
proof (induction xs arbitrary: i)
  case (Cons x xs)
  show ?case
  proof (cases "P x")
    case True
    then show ?thesis using Cons.prems by simp
  next
    case False
    then obtain k where "find_index P xs = Some k" "i = Suc k"
      using Cons.prems by auto
    with Cons.IH [of k] False show ?thesis
      by (auto simp: less_Suc_eq_0_disj)
  qed
qed simp

lemma find_index_None: "find_index P xs = None \<longleftrightarrow> (\<forall>x\<in>set xs. \<not> P x)"
  by (induction xs) auto

lemma ctzll_least: "w \<noteq> 0 \<Longrightarrow> bit w (ctzll w) \<and> ctzll w < 64 \<and> (\<forall>j < ctzll w. \<not> bit w j)"
proof -
  assume "w \<noteq> 0"
  then obtain n where "bit w n"
    by (metis bit_0_eq bit_eq_iff bot_apply bot_bool_def)
  then have "n < 64" using bit_imp_le_length by fastforce
  then obtain k where "find_index (bit w) [0..<64] = Some k"
    using \<open>bit w n\<close> find_index_None [of "bit w" "[0..<64]"] by (cases "find_index (bit w) [0..<64]") auto
  then show ?thesis
    using find_index_Some [of "bit w" "[0..<64]" k] by (auto simp: ctzll_def)
qed

end
