(* ===== verification/Signal_Safety.thy ===== *)
theory Signal_Safety
  imports Signal
begin

text \<open>
  What the signal code of \<^verbatim>\<open>Signal\<close> guarantees: the invariant of pending sets, queues and masks
  over every sequence of operations, where a sent signal ends up, that a fault is never
  swallowed, and which thread is told about a pending signal.
\<close>

subsection \<open>The invariant\<close>

lemma sig_inv_frame [simp]:
  "sig_inv (emit e p) = sig_inv p" "sig_inv (slab_free_node node p) = sig_inv p"
  "sig_inv (p\<lparr>log := l\<rparr>) = sig_inv p" "sig_inv (p\<lparr>actions := (actions p)[k := a]\<rparr>) = sig_inv p"
  by (simp_all add: sig_inv_def slab_free_node_def emit_def split: option.splits)

lemma sig_inv_signal_flush [simp]: "sig_inv (signal_flush q p) = sig_inv p"
  by (induction q arbitrary: p) simp_all

lemma thread_ok_work [simp]:
  "thread_ok (post_work w t) = thread_ok t" "thread_ok (recalc_locked pp t) = thread_ok t"
  "thread_ok (t\<lparr>syscall_restart := b\<rparr>) = thread_ok t"
  by (simp_all add: thread_ok_def recalc_locked_def Let_def)

lemma sig_inv_set_thread: "sig_inv p \<Longrightarrow> thread_ok t \<Longrightarrow> sig_inv (set_thread i t p)"
  using set_update_subset_insert [of "threads p" i t] by (auto simp: sig_inv_def)

lemma sig_inv_set_thread': "sig_inv p \<Longrightarrow> threads p = ts \<Longrightarrow> thread_ok t \<Longrightarrow> sig_inv (p\<lparr>threads := ts[i := t]\<rparr>)"
  using sig_inv_set_thread by blast

lemma sig_inv_process_kill [simp]: "sig_inv (fst (process_kill p sig fs)) = sig_inv p"
  by (simp add: sig_inv_def process_kill_def)

lemma process_kill_exiting: "process_kill p sig fs = (p', fs') \<Longrightarrow> proc_flags p' AND PROCESS_EXITING \<noteq> 0"
  using begin_exit_fields(1) [of p 0 sig fs] by (simp add: process_kill_def)

lemma sig_inv_thread: "sig_inv p \<Longrightarrow> i < length (threads p) \<Longrightarrow> thread_ok (threads p ! i)"
  by (simp add: sig_inv_def)

lemma length_threads [simp]:
  "length (threads (slab_free_node node p)) = length (threads p)" "length (threads (kick i p)) = length (threads p)"
  "length (threads (add_pending target sig node p)) = length (threads p)"
  by (simp_all add: slab_free_node_def kick_def add_pending_def Let_def split: option.splits)

lemma sig_inv_kick: "sig_inv p \<Longrightarrow> i < length (threads p) \<Longrightarrow> sig_inv (kick i p)"
  by (simp add: kick_def sig_inv_set_thread sig_inv_thread)

lemma sig_inv_add_pending:
  assumes "sig_inv p" "valid_sig sig" "\<forall>n. node = Some n \<longrightarrow> si_signo n = sig"
    and "case target of None \<Rightarrow> \<not> bit (proc_pending p) (sig - 1)
           | Some k \<Rightarrow> k < length (threads p) \<and> \<not> bit (sig_pending (threads p ! k)) (sig - 1)"
  shows "sig_inv (add_pending target sig node p)"
proof (cases target)
  case None
  then show ?thesis
    using assms queue_ok_append [of "proc_pending p" "proc_queue p" sig node]
    by (cases node) (simp_all add: add_pending_def sig_inv_def)
next
  case (Some k)
  let ?t = "threads p ! k"
  have "thread_ok ?t"
    using assms Some by (simp add: sig_inv_thread)
  then have "thread_ok (?t\<lparr>sig_pending := sig_pending ?t OR sigbit sig,
      sig_queue := (case node of None \<Rightarrow> sig_queue ?t | Some n \<Rightarrow> sig_queue ?t @ [n])\<rparr>)"
    using assms Some queue_ok_append [of "sig_pending ?t" "sig_queue ?t" sig node]
    by (simp add: thread_ok_def)
  then show ?thesis
    using assms(1) Some by (cases node) (simp_all add: add_pending_def sig_inv_set_thread Let_def)
qed

lemma choose_thread_locked_Some:
  assumes "choose_thread_locked p self b = Some k" "\<forall>i. self = Some i \<longrightarrow> i < length (threads p)"
  shows "k < length (threads p)" "sig_blocked (threads p ! k) AND b = 0" "\<not> leaving (threads p ! k)"
  using assms by (auto simp: choose_thread_locked_def Let_def dest: find_index_Some split: option.splits if_splits)

lemma choose_thread_locked_None:
  "choose_thread_locked p self b = None \<Longrightarrow> t \<in> set (threads p) \<Longrightarrow> leaving t \<or> sig_blocked t AND b \<noteq> 0"
  by (auto simp: choose_thread_locked_def Let_def find_index_None split: option.splits if_splits)

lemma find_thread_locked_Some:
  "find_thread_locked p i = Some k \<Longrightarrow> k < length (threads p) \<and> tid (threads p ! k) = i \<and> \<not> leaving (threads p ! k)"
  by (auto simp: find_thread_locked_def dest: find_index_Some)

text \<open>
  The three ways \<^verbatim>\<open>queue_signal\<close> ends: no such thread, nothing to add, or the signal added to the
  target's pending set, with the thread that is to take it kicked.
\<close>

lemma queue_signal_cases:
  assumes "queue_signal p self i sig node = (r, p')" "\<forall>k. self = Some k \<longrightarrow> k < length (threads p)"
  obtains (no_thread) "r = Inl ESRCH" "p' = slab_free_node node p" "i \<noteq> 0" "find_thread_locked p i = None"
  | (merged) target where "r = Inr ()" "p' = slab_free_node node p"
      "if i = 0 then target = None else target = find_thread_locked p i \<and> target \<noteq> None"
      "bit (case target of None \<Rightarrow> proc_pending p | Some k \<Rightarrow> sig_pending (threads p ! k)) (sig - 1)"
  | (ignored) "r = Inr ()" "p' = slab_free_node node p" "ignored_locked p sig" "i \<noteq> 0 \<Longrightarrow> find_thread_locked p i \<noteq> None"
  | (queued) target thread where "r = Inr ()"
      "if i = 0 then target = None else target = find_thread_locked p i \<and> target \<noteq> None"
      "\<not> bit (case target of None \<Rightarrow> proc_pending p | Some k \<Rightarrow> sig_pending (threads p ! k)) (sig - 1)"
      "thread = None \<or> \<not> ignored_locked p sig"
      "case thread of
         None \<Rightarrow> p' = add_pending target sig node p \<and>
           (case target of None \<Rightarrow> \<forall>t\<in>set (threads p). leaving t \<or> bit (sig_blocked t) (sig - 1)
             | Some k \<Rightarrow> bit (sig_blocked (threads p ! k)) (sig - 1))
       | Some k \<Rightarrow> p' = kick k (add_pending target sig node p) \<and> k < length (threads p) \<and>
           \<not> leaving (threads p ! k) \<and> \<not> bit (sig_blocked (threads p ! k)) (sig - 1) \<and> (target \<noteq> None \<longrightarrow> target = Some k)"
proof -
  define target where "target = (if i \<noteq> 0 then find_thread_locked p i else None)"
  define thread where "thread = (case if target = None then choose_thread_locked p self (sigbit sig) else target of
      Some k \<Rightarrow> if sig_blocked (threads p ! k) AND sigbit sig \<noteq> 0 then None else Some k | None \<Rightarrow> None)"
  have q: "queue_signal p self i sig node =
      (if i \<noteq> 0 \<and> target = None then (Inl ESRCH, slab_free_node node p)
       else if bit (case target of None \<Rightarrow> proc_pending p | Some k \<Rightarrow> sig_pending (threads p ! k)) (sig - 1)
       then (Inr (), slab_free_node node p)
       else if thread \<noteq> None \<and> ignored_locked p sig then (Inr (), slab_free_node node p)
       else (Inr (), case thread of None \<Rightarrow> add_pending target sig node p | Some k \<Rightarrow> kick k (add_pending target sig node p)))"
    unfolding queue_signal_def thread_def target_def Let_def and_sigbit by (simp only: and_sigbit split: option.splits)
  have tgt: "if i = 0 then target = None else target = find_thread_locked p i \<and> target \<noteq> None" if "\<not> (i \<noteq> 0 \<and> target = None)"
    using that by (auto simp: target_def)
  consider "i \<noteq> 0 \<and> target = None"
    | "\<not> (i \<noteq> 0 \<and> target = None)" "bit (case target of None \<Rightarrow> proc_pending p | Some k \<Rightarrow> sig_pending (threads p ! k)) (sig - 1)"
    | "thread \<noteq> None \<and> ignored_locked p sig" "\<not> (i \<noteq> 0 \<and> target = None)"
      "\<not> bit (case target of None \<Rightarrow> proc_pending p | Some k \<Rightarrow> sig_pending (threads p ! k)) (sig - 1)"
    | "\<not> (i \<noteq> 0 \<and> target = None)"
      "\<not> bit (case target of None \<Rightarrow> proc_pending p | Some k \<Rightarrow> sig_pending (threads p ! k)) (sig - 1)"
      "\<not> (thread \<noteq> None \<and> ignored_locked p sig)"
    by blast
  then show ?thesis
  proof cases
    case 1
    then show ?thesis using assms(1) q by (intro no_thread) (auto simp: target_def)
  next
    case 2
    then have "(r, p') = (Inr (), slab_free_node node p)" using assms(1) unfolding q by presburger
    then show ?thesis using tgt [OF 2(1)] 2(2) by (intro merged [of target]) simp_all
  next
    case 3
    then have "(r, p') = (Inr (), slab_free_node node p)" using assms(1) unfolding q by presburger
    then show ?thesis using 3(1,2) by (intro ignored) (simp_all add: target_def)
  next
    case 4
    have k: "k < length (threads p) \<and> \<not> leaving (threads p ! k) \<and> \<not> bit (sig_blocked (threads p ! k)) (sig - 1) \<and>
        (target \<noteq> None \<longrightarrow> target = Some k)" if "thread = Some k" for k
      using that choose_thread_locked_Some [OF _ assms(2), of "sigbit sig"] find_thread_locked_Some [of p i]
      by (auto simp: thread_def and_sigbit target_def split: option.splits if_splits)
    have none: "case target of None \<Rightarrow> \<forall>t\<in>set (threads p). leaving t \<or> bit (sig_blocked t) (sig - 1)
             | Some k \<Rightarrow> bit (sig_blocked (threads p ! k)) (sig - 1)" if "thread = None"
      using that choose_thread_locked_None [of p self "sigbit sig"] choose_thread_locked_Some(2) [OF _ assms(2), of "sigbit sig"]
      by (auto simp: thread_def and_sigbit and_sigbit_0 split: option.splits if_splits)
    have "queue_signal p self i sig node =
        (Inr (), case thread of None \<Rightarrow> add_pending target sig node p | Some k \<Rightarrow> kick k (add_pending target sig node p))"
      using 4 unfolding q by (simp only: if_False)
    then show ?thesis
      using 4 tgt k none assms(1) by (intro queued [of target thread]) (auto split: option.splits)
  qed
qed

lemma sig_inv_queue_signal:
  assumes "queue_signal p self i sig node = (r, p')" "\<forall>k. self = Some k \<longrightarrow> k < length (threads p)"
    and "sig_inv p" "valid_sig sig" "\<forall>n. node = Some n \<longrightarrow> si_signo n = sig"
  shows "sig_inv p'"
  using assms(1,2)
proof (cases rule: queue_signal_cases)
  case (queued target thread)
  have "sig_inv (add_pending target sig node p)"
    using queued(2,3) find_thread_locked_Some
    by (intro sig_inv_add_pending [OF assms(3-5)]) (auto split: option.splits if_splits)
  then show ?thesis
    using queued(5) by (auto simp: sig_inv_kick split: option.splits)
qed (use assms in simp_all)


lemma recalc_locked_fields [simp]:
  "sig_blocked (recalc_locked pp t) = sig_blocked t" "sig_pending (recalc_locked pp t) = sig_pending t"
  "sig_queue (recalc_locked pp t) = sig_queue t" "tid (recalc_locked pp t) = tid t"
  by (simp_all add: recalc_locked_def Let_def)

lemma blocked_ok [simp]:
  "\<not> bit (w AND NOT (sigbit SIGKILL OR sigbit SIGSTOP)) (SIGKILL - Suc 0)"
  "\<not> bit (w AND NOT (sigbit SIGKILL OR sigbit SIGSTOP)) (SIGSTOP - Suc 0)"
  by (simp_all add: bit_simps bit_sigbit SIGKILL_def SIGSTOP_def)

lemma sig_inv_signal_mask:
  assumes "sig_inv p" "i < length (threads p)"
  shows "sig_inv (snd (signal_mask p i how s))"
proof -
  have "thread_ok ((threads p ! i)\<lparr>sig_blocked := w AND NOT (sigbit SIGKILL OR sigbit SIGSTOP)\<rparr>)" for w
    using sig_inv_thread [OF assms] blocked_ok [of w] by (simp add: thread_ok_def del: de_Morgan_disj bit.de_Morgan_disj)
  then show ?thesis
    using assms by (simp add: signal_mask_def Let_def sig_inv_set_thread del: bit.de_Morgan_disj)
qed

lemma sig_inv_signal_retarget: "sig_inv p \<Longrightarrow> sig_inv (signal_retarget p)"
  by (auto simp: signal_retarget_def sig_inv_def)

lemma sig_inv_signal_send:
  assumes "signal_send p self i info alloc fs = (r, p', fs')" "\<forall>k. self = Some k \<longrightarrow> k < length (threads p)"
    and "sig_inv p" "valid_sig (si_signo info)"
  shows "sig_inv p'"
proof (cases "si_signo info = SIGKILL")
  case True
  then show ?thesis
    using assms sig_inv_process_kill [of p SIGKILL fs] by (auto simp: signal_send_def simp del: sig_inv_process_kill split: if_splits)
next
  case False
  then obtain r2 where "queue_signal p self i (si_signo info) (if alloc then Some info else None) = (r2, p')"
    using assms(1) by (auto simp: signal_send_def Let_def split: prod.splits)
  from sig_inv_queue_signal [OF this assms(2-4)] show ?thesis
    by simp
qed

lemma thread_ok_force:
  assumes "thread_ok t" "valid_sig sig" "\<forall>n. node = Some n \<longrightarrow> si_signo n = sig"
    and "drop_locked (sig_pending t) (sig_queue t) sig [] = (pending, queue, dropped)"
  shows "thread_ok (t\<lparr>sig_blocked := sig_blocked t AND m, sig_pending := pending OR sigbit sig,
    sig_queue := (case node of None \<Rightarrow> queue | Some n \<Rightarrow> queue_append queue n)\<rparr>)"
proof -
  have "queue_ok (sig_pending t AND NOT (sigbit sig)) (filter (\<lambda>n. si_signo n \<noteq> sig) (sig_queue t))"
    using assms by (intro queue_ok_drop) (auto simp: thread_ok_def)
  moreover have "\<not> bit (sig_pending t AND NOT (sigbit sig)) (sig - 1)"
    using valid_sig_less [OF assms(2)] by (simp add: sig_bits)
  ultimately show ?thesis
    using assms queue_ok_append [of "sig_pending t AND NOT (sigbit sig)" "filter (\<lambda>n. si_signo n \<noteq> sig) (sig_queue t)" sig node]
    by (cases node) (auto simp: thread_ok_def drop_locked_def drop_queue_eq bit_simps)
qed

lemma sig_inv_force_queue:
  assumes "sig_inv p" "i < length (threads p)" "valid_sig sig" "\<forall>n. node = Some n \<longrightarrow> si_signo n = sig"
  shows "sig_inv (force_queue p i sig node)"
proof -
  let ?t = "threads p ! i"
  obtain pending queue dropped where d: "drop_locked (sig_pending ?t) (sig_queue ?t) sig [] = (pending, queue, dropped)"
    using prod_cases3 by blast
  have "thread_ok (?t\<lparr>sig_blocked := sig_blocked ?t AND NOT (sigbit sig), sig_pending := pending OR sigbit sig,
      sig_queue := (case node of None \<Rightarrow> queue | Some n \<Rightarrow> queue_append queue n)\<rparr>)"
    using assms d by (intro thread_ok_force) (auto simp: sig_inv_thread)
  then show ?thesis
    using assms(1) d by (simp add: force_queue_def Let_def sig_inv_set_thread')
qed

lemma sig_inv_signal_force:
  assumes "signal_force p i info alloc fs = (p', fs')" "sig_inv p" "i < length (threads p)" "valid_sig (si_signo info)"
  shows "sig_inv p'"
proof -
  have "sig_inv p'" if "process_kill q sig fs = (p', fs')" "sig_inv q" for q sig
    using sig_inv_process_kill [of q sig fs] that by simp
  moreover have "sig_inv (force_queue (p\<lparr>actions := (actions p)[k := a]\<rparr>) i (si_signo info) (if alloc then Some info else None))" for k a
    using assms by (intro sig_inv_force_queue) auto
  ultimately show ?thesis
    using assms(1,2) by (auto simp: signal_force_def Let_def split: if_splits)
qed

lemma take_signal_Some:
  assumes "take_signal p i = (Some (sig, node), p')"
  obtains d where "d \<noteq> 0" "sig = ctzll d + 1" "valid_sig sig" "bit d (sig - 1)"
    "if sig_pending (threads p ! i) AND NOT (sig_blocked (threads p ! i)) \<noteq> 0
     then d = sig_pending (threads p ! i) AND NOT (sig_blocked (threads p ! i)) \<and>
       (\<exists>q. queue_take (sig_queue (threads p ! i)) sig = (node, q) \<and>
         p' = set_thread i ((threads p ! i)\<lparr>sig_pending := sig_pending (threads p ! i) AND NOT (sigbit sig), sig_queue := q\<rparr>) p)
     else d = proc_pending p AND NOT (sig_blocked (threads p ! i)) \<and>
       (\<exists>q. queue_take (proc_queue p) sig = (node, q) \<and>
         p' = p\<lparr>proc_pending := proc_pending p AND NOT (sigbit sig), proc_queue := q\<rparr>)"
proof -
  let ?own = "sig_pending (threads p ! i) AND NOT (sig_blocked (threads p ! i))"
  define d where "d = (if ?own \<noteq> 0 then ?own else proc_pending p AND NOT (sig_blocked (threads p ! i)))"
  have d: "d \<noteq> 0" "sig = ctzll d + 1"
    using assms by (auto simp: take_signal_def Let_def d_def split: if_splits prod.splits)
  have v: "valid_sig sig" "bit d (sig - 1)"
    using ctzll_least [OF d(1)] d(2) by (auto simp: valid_sig_def NSIG_def)
  show ?thesis
    using assms d by (intro that [OF d v]) (auto simp: take_signal_def Let_def d_def split: if_splits prod.splits)
qed

lemma sig_inv_take_signal:
  assumes "take_signal p i = (r, p')" "sig_inv p" "i < length (threads p)"
  shows "sig_inv p'" "length (threads p') = length (threads p)"
proof (atomize (full), cases r)
  case None
  then show "sig_inv p' \<and> length (threads p') = length (threads p)"
    using assms by (auto simp: take_signal_def Let_def split: if_splits prod.splits)
next
  case (Some x)
  then obtain sig node where t: "take_signal p i = (Some (sig, node), p')"
    using assms(1) by (cases x) auto
  have ok: "thread_ok (threads p ! i)"
    using assms by (simp add: sig_inv_thread)
  from t show "sig_inv p' \<and> length (threads p') = length (threads p)"
  proof (rule take_signal_Some, goal_cases)
    case (1 d)
    then show ?case
      using ok assms(2) queue_ok_take [of "sig_pending (threads p ! i)" "sig_queue (threads p ! i)" sig node]
        queue_ok_take [of "proc_pending p" "proc_queue p" sig node]
      by (auto simp: thread_ok_def sig_inv_def intro!: sig_inv_set_thread split: if_splits
          dest!: set_update_subset_insert [THEN subsetD])
  qed
qed

lemma recalc_thread_simps [simp]:
  "length (threads (recalc_thread i p)) = length (threads p)" "actions (recalc_thread i p) = actions p"
  "proc_pending (recalc_thread i p) = proc_pending p"
  by (simp_all add: recalc_thread_def)

lemma sig_inv_recalc_thread: "sig_inv p \<Longrightarrow> i < length (threads p) \<Longrightarrow> sig_inv (recalc_thread i p)"
  by (simp add: recalc_thread_def sig_inv_set_thread sig_inv_thread)

lemma sig_inv_run_handler:
  assumes "sig_inv p" "i < length (threads p)"
  shows "sig_inv (fst (run_handler p i sig action info old_mask frame fs))"
proof -
  define q where "q = set_thread i ((threads p ! i)\<lparr>syscall_restart := False\<rparr>)
    (if syscall_restart (threads p ! i) \<and> sa_flags action AND SA_RESTART = 0
     then emit (Syscall_interrupted (tid (threads p ! i))) p else p)"
  have "sig_inv q" "i < length (threads q)"
    using assms by (auto simp: q_def sig_inv_thread intro!: sig_inv_set_thread')
  then show ?thesis
    by (simp add: run_handler_def Let_def q_def [symmetric] sig_inv_signal_mask)
qed

lemma sig_inv_signal_deliver:
  assumes "sig_inv p" "i < length (threads p)"
  shows "sig_inv (fst (signal_deliver p i frame fs))"
proof -
  obtain r q where t: "take_signal p i = (r, q)" by fastforce
  note q = sig_inv_take_signal [OF t assms]
  show ?thesis
  proof (cases r)
    case None
    then show ?thesis
      using assms t q by (auto simp: signal_deliver_def sig_inv_recalc_thread)
  next
    case (Some x)
    then obtain sig node where x: "x = (sig, node)" by (cases x)
    have "sig_inv (recalc_thread i q)" "sig_inv (recalc_thread i (q\<lparr>actions := (actions q)[k := a]\<rparr>))" "i < length (threads q)" for k a
      using q assms(2) by (auto intro!: sig_inv_recalc_thread)
    then show ?thesis
      using t Some x by (simp add: signal_deliver_def Let_def sig_inv_run_handler)
  qed
qed

lemma drop_threads_ok:
  "drop_threads ts sig d = (ts', d') \<Longrightarrow> \<forall>t\<in>set ts. thread_ok t \<Longrightarrow> valid_sig sig \<Longrightarrow> \<forall>t\<in>set ts'. thread_ok t"
proof (induction ts arbitrary: d ts' d')
  case (Cons t ts)
  obtain pending queue d2 where d: "drop_locked (sig_pending t) (sig_queue t) sig d = (pending, queue, d2)"
    using prod_cases3 by blast
  obtain ts2 d3 where ts: "drop_threads ts sig d2 = (ts2, d3)" by fastforce
  have "queue_ok pending queue"
    using d Cons.prems queue_ok_drop [of "sig_pending t" "sig_queue t" sig] by (auto simp: drop_locked_def drop_queue_eq thread_ok_def)
  then have "thread_ok (t\<lparr>sig_pending := pending, sig_queue := queue\<rparr>)"
    using Cons.prems by (simp add: thread_ok_def)
  moreover have "ts' = t\<lparr>sig_pending := pending, sig_queue := queue\<rparr> # ts2"
    using Cons.prems(1) d ts by simp
  ultimately show ?case
    using Cons.IH [OF ts] Cons.prems by simp
qed simp

lemma sig_inv_signal_action:
  assumes "sig_inv p" "valid_sig sig"
  shows "sig_inv (snd (signal_action p sig act))"
proof -
  obtain pending queue d where d: "drop_locked (proc_pending p) (proc_queue p) sig [] = (pending, queue, d)"
    using prod_cases3 by blast
  obtain ts d2 where ts: "drop_threads (threads p) sig d = (ts, d2)" by fastforce
  have "queue_ok pending queue"
    using d assms queue_ok_drop [of "proc_pending p" "proc_queue p" sig] by (auto simp: drop_locked_def drop_queue_eq sig_inv_def)
  moreover have "\<forall>t\<in>set ts. thread_ok t"
    using drop_threads_ok [OF ts] assms by (auto simp: sig_inv_def)
  ultimately have "sig_inv (p\<lparr>actions := (actions p)[sig - 1 := a], proc_pending := pending, proc_queue := queue, threads := ts\<rparr>)" for a
    using assms by (simp add: sig_inv_def)
  then show ?thesis
    using assms d ts by (simp add: signal_action_def Let_def split: option.splits)
qed


inductive sig_step :: "process \<times> files \<Rightarrow> process \<times> files \<Rightarrow> bool" where
  send: "valid_sig (si_signo info) \<Longrightarrow> \<forall>k. self = Some k \<longrightarrow> k < length (threads p) \<Longrightarrow>
    signal_send p self i info alloc fs = (r, p', fs') \<Longrightarrow> sig_step (p, fs) (p', fs')"
| send_node: "valid_sig (si_signo info) \<Longrightarrow> \<forall>k. self = Some k \<longrightarrow> k < length (threads p) \<Longrightarrow>
    sig_step (p, fs) (signal_send_node p self info, fs)"
| retarget: "sig_step (p, fs) (signal_retarget p, fs)"
| force: "valid_sig (si_signo info) \<Longrightarrow> k < length (threads p) \<Longrightarrow> signal_force p k info alloc fs = (p', fs') \<Longrightarrow>
    sig_step (p, fs) (p', fs')"
| deliver: "k < length (threads p) \<Longrightarrow> sig_step (p, fs) (signal_deliver p k frame fs)"
| set_action: "valid_sig sig \<Longrightarrow> sig_step (p, fs) (snd (signal_action p sig act), fs)"
| set_mask: "k < length (threads p) \<Longrightarrow> sig_step (p, fs) (snd (signal_mask p k how m), fs)"

inductive_cases sig_stepE: "sig_step s s'"

lemma sig_inv_step: "sig_step s s' \<Longrightarrow> sig_inv (fst s) \<Longrightarrow> sig_inv (fst s')"
proof (induction rule: sig_step.induct)
  case (send info self p i alloc fs r p' fs')
  then show ?case using sig_inv_signal_send [of p self i info alloc fs r p' fs'] by simp
next
  case (send_node info self p fs)
  obtain r p' where q: "queue_signal p self 0 (si_signo info) (Some info) = (r, p')" by fastforce
  have "sig_inv p'"
    by (rule sig_inv_queue_signal [OF q]) (use send_node in simp_all)
  then show ?case
    using q by (simp add: signal_send_node_def)
next
  case (retarget p fs)
  then show ?case by (simp add: sig_inv_signal_retarget)
next
  case (force info k p alloc fs p' fs')
  then show ?case using sig_inv_signal_force [of p k info alloc fs p' fs'] by simp
next
  case (deliver k p fs frame)
  then show ?case by (simp add: sig_inv_signal_deliver)
next
  case (set_action sig p fs act)
  then show ?case by (simp add: sig_inv_signal_action)
next
  case (set_mask k p fs how m)
  then show ?case by (simp add: sig_inv_signal_mask)
qed

lemma find_thread_locked_None: "find_thread_locked p i = None \<longleftrightarrow> \<not> process_has_thread p i"
  by (auto simp: find_thread_locked_def find_index_None process_has_thread_def leaving_def)

lemma work_signal_iff: "bit THREAD_WORK_SIGNAL n \<longleftrightarrow> n = 1"
  by (auto simp: work_bits bit_simps)

lemma work_exit_iff: "bit THREAD_WORK_EXIT n \<longleftrightarrow> n = 0"
  by (auto simp: THREAD_WORK_EXIT_def bit_simps bit_1_iff)

definition told :: "thread \<Rightarrow> bool" where
  "told t \<longleftrightarrow> pending_work t AND THREAD_WORK_SIGNAL \<noteq> 0"

definition can_take :: "nat \<Rightarrow> thread \<Rightarrow> bool" where
  "can_take sig t \<longleftrightarrow> \<not> leaving t \<and> sig_blocked t AND sigbit sig = 0"

lemma told_iff: "told t \<longleftrightarrow> bit (pending_work t) 1"
  unfolding told_def work_bits by (rule and_push_bit_1_eq)

lemma told_post_work [simp]: "told (post_work THREAD_WORK_SIGNAL t)"
  by (simp add: told_iff post_work_def bit_simps work_signal_iff)

lemma told_recalc [simp]:
  "told (recalc_locked pp t) \<longleftrightarrow> (sig_pending t OR pp) AND NOT (sig_blocked t) \<noteq> 0"
  by (simp add: told_iff recalc_locked_def Let_def bit_simps work_signal_iff)

lemma leaving_recalc [simp]: "leaving (recalc_locked pp t) = leaving t"
  by (simp add: leaving_iff recalc_locked_def Let_def bit_simps work_signal_iff)

lemma slab_free_node_fields [simp]:
  "threads (slab_free_node n p) = threads p" "proc_pending (slab_free_node n p) = proc_pending p"
  "proc_queue (slab_free_node n p) = proc_queue p" "proc_flags (slab_free_node n p) = proc_flags p"
  "actions (slab_free_node n p) = actions p" "pid (slab_free_node n p) = pid p"
  by (simp_all add: slab_free_node_def split: option.splits)

lemma signal_flush_fields [simp]:
  "threads (signal_flush d q) = threads q" "actions (signal_flush d q) = actions q" "pid (signal_flush d q) = pid q"
  "proc_pending (signal_flush d q) = proc_pending q" "proc_queue (signal_flush d q) = proc_queue q"
  "proc_flags (signal_flush d q) = proc_flags q"
  by (induction d arbitrary: q) simp_all

lemma force_queue_fields:
  "i < length (threads p) \<Longrightarrow> threads (force_queue p i sig node) ! i =
     recalc_locked (proc_pending p) ((threads p ! i)\<lparr>sig_blocked := sig_blocked (threads p ! i) AND NOT (sigbit sig),
       sig_pending := (sig_pending (threads p ! i) AND NOT (sigbit sig)) OR sigbit sig,
       sig_queue := (let q = filter (\<lambda>n. si_signo n \<noteq> sig) (sig_queue (threads p ! i))
                     in case node of None \<Rightarrow> q | Some n \<Rightarrow> q @ [n])\<rparr>)"
  "actions (force_queue p i sig node) = actions p" "proc_flags (force_queue p i sig node) = proc_flags p"
  by (cases node; simp add: force_queue_def drop_locked_def drop_queue_eq Let_def)+

lemma add_pending_fields [simp]:
  "proc_flags (add_pending target sig node p) = proc_flags p" "proc_flags (kick k p) = proc_flags p"
  "proc_pending (kick k p) = proc_pending p"
  "proc_pending (add_pending None sig node p) = proc_pending p OR sigbit sig"
  "threads (add_pending None sig node p) = threads p"
  by (simp_all add: add_pending_def kick_def Let_def split: option.splits)


lemma sig_inv_steps: "sig_step\<^sup>*\<^sup>* s s' \<Longrightarrow> sig_inv (fst s) \<Longrightarrow> sig_inv (fst s')"
  by (induction rule: rtranclp_induct) (auto intro: sig_inv_step)

subsection \<open>Properties\<close>

text \<open>A process with two threads, a handler for signal 15 and nothing pending, for the examples.\<close>

definition example_thread :: "int \<Rightarrow> thread" where
  "example_thread i = \<lparr>tid = i, pending_work = 0, syscall_restart = False, sig_blocked = 0, sig_pending = 0,
     sig_queue = [], sig_altstack = 0, sig_altstack_size = 0\<rparr>"

definition example_action :: sigaction where
  "example_action = \<lparr>sa_handler = 0x1000, sa_flags = 0, sa_restorer = 0, sa_mask = 1\<rparr>"

definition example_process :: process where
  "example_process = \<lparr>fds = [], num_fds = 0, pid = 5, proc_flags = 0, exit_code = 0, exit_signal = 0,
     threads = [example_thread 5, example_thread 6], exec_thread = None, num_threads = 2, num_live_threads = 2,
     actions = (replicate NSIG zero_action)[14 := example_action], proc_pending = 0, proc_queue = [], cwd = None, log = []\<rparr>"

definition example_info :: siginfo where
  "example_info = \<lparr>si_signo = 15, si_code = -1, si_errno = 0, si_status = 0, si_pid = 3, si_uid = 0, si_addr = 0, si_value = 0\<rparr>"

lemmas example_defs = example_thread_def example_action_def example_process_def example_info_def

lemma example_process_inv: "sig_inv example_process"
  by (simp add: sig_inv_def example_defs thread_ok_def queue_ok_def)

lemma example_fields [simp]:
  "threads example_process = [example_thread 5, example_thread 6]" "si_signo example_info = 15"
  "proc_pending example_process = 0" "pid example_process = 5" "proc_flags example_process = 0"
  "proc_queue example_process = []" "log example_process = []"
  "actions example_process ! 14 = example_action" "valid_sig 15"
  by (simp_all add: example_defs valid_sig_def NSIG_def)

text \<open>
  C14: over every sequence of signal operations no thread comes to block SIGKILL or SIGSTOP, each
  queue holds at most one node per signal, and every queued node is for a signal that is
  marked pending in the same place.
\<close>

theorem signal_invariant:
  assumes "sig_step\<^sup>*\<^sup>* (p, fs) (p', fs')" "sig_inv p"
  shows "(\<forall>t\<in>set (threads p'). sig_blocked t AND sigbit SIGKILL = 0 \<and> sig_blocked t AND sigbit SIGSTOP = 0 \<and>
      distinct (map si_signo (sig_queue t)) \<and> (\<forall>n\<in>set (sig_queue t). sig_pending t AND sigbit (si_signo n) \<noteq> 0)) \<and>
    distinct (map si_signo (proc_queue p')) \<and> (\<forall>n\<in>set (proc_queue p'). proc_pending p' AND sigbit (si_signo n) \<noteq> 0)"
proof -
  have "sig_inv p'"
    using sig_inv_steps [OF assms(1)] assms(2) unfolding fst_conv by blast
  then show ?thesis
    unfolding and_sigbit and_sigbit_0 sig_inv_def thread_ok_def queue_ok_def by blast
qed

theorem signal_invariant_witness:
  "\<exists>p' fs'. signal_send example_process None 0 example_info True Map.empty = (Inr (), p', fs') \<and>
     proc_queue p' = [example_info] \<and> (\<forall>n\<in>set (proc_queue p'). proc_pending p' AND sigbit (si_signo n) \<noteq> 0)"
proof -
  obtain p' where p': "signal_send example_process None 0 example_info True Map.empty = (Inr (), p', Map.empty)"
    "proc_queue p' = [example_info]"
    by (simp add: signal_send_def queue_signal_def SIGKILL_def Let_def choose_thread_locked_def leaving_def
        ignored_locked_def add_pending_def kick_def example_action_def SIG_IGN_def SIG_DFL_def INIT_PID_def
        example_thread_def emit_def)
  have "sig_step\<^sup>*\<^sup>* (example_process, Map.empty) (p', Map.empty)"
    by (rule r_into_rtranclp, rule sig_step.send [OF _ _ p'(1)]) simp_all
  from signal_invariant [OF this example_process_inv] p' show ?thesis
    by blast
qed

text \<open>
  C17: where a sent signal ends up. Sending fails, for any signal, exactly when the target is a thread and the
  process has no such thread that is not leaving; then the threads, the pending signals and the process are as
  before. SIGKILL starts the exit of any process but init, on which it has no effect. Any other
  signal does not end the process; afterwards it is pending where it was sent, unless the
  process ignores it.
\<close>

theorem signal_send_outcome:
  assumes "signal_send p self i info alloc fs = (r, p', fs')" "\<forall>k. self = Some k \<longrightarrow> k < length (threads p)"
    and "valid_sig (si_signo info)"
  shows "(r = Inl ESRCH \<longleftrightarrow> i \<noteq> 0 \<and> \<not> process_has_thread p i) \<and>
    (case r of
      Inl e \<Rightarrow> e = ESRCH \<and> threads p' = threads p \<and> proc_pending p' = proc_pending p \<and> proc_queue p' = proc_queue p \<and>
        proc_flags p' = proc_flags p \<and> fs' = fs
    | Inr _ \<Rightarrow>
        if si_signo info = SIGKILL then (if pid p = INIT_PID then p' = p else proc_flags p' AND PROCESS_EXITING \<noteq> 0)
        else proc_flags p' = proc_flags p \<and>
          (ignored_locked p (si_signo info) \<or>
           (if i = 0 then proc_pending p' AND sigbit (si_signo info) \<noteq> 0
            else \<exists>t\<in>set (threads p'). tid t = i \<and> sig_pending t AND sigbit (si_signo info) \<noteq> 0)))"
proof (cases "si_signo info = SIGKILL")
  case True
  then show ?thesis
    using assms(1) begin_exit_fields(1) [of p 0 SIGKILL fs]
    by (auto simp: signal_send_def process_kill_def split: if_splits simp del: begin_exit_fields)
next
  case False
  let ?sig = "si_signo info"
  obtain node where q: "queue_signal p self i ?sig node = (r, p')" "fs' = fs"
    using assms(1) False by (auto simp: signal_send_def Let_def split: prod.splits)
  have found: "process_has_thread p i" if "target = find_thread_locked p i" "target \<noteq> None" for target
    using that find_thread_locked_None [of p i] by simp
  have less: "?sig - Suc 0 < 64"
    using assms(3) by (rule valid_sig_less)
  from q(1) assms(2) show ?thesis
  proof (cases rule: queue_signal_cases)
    case no_thread
    then show ?thesis using q(2) by (simp add: find_thread_locked_None)
  next
    case (merged target)
    then show ?thesis
      using False found find_thread_locked_Some [of p i] by (auto simp: and_sigbit split: option.splits if_splits)
  next
    case ignored
    then show ?thesis using False found [OF refl] by (cases "i = 0") simp_all
  next
    case (queued target thread)
    have err: "\<not> (i \<noteq> 0 \<and> \<not> process_has_thread p i)" using queued(2) found by (auto split: if_splits)
    show ?thesis
    proof (cases target)
      case None
      then show ?thesis
        using queued False less err by (auto simp: and_sigbit bit_simps bit_sigbit split: option.splits if_splits)
    next
      case (Some k)
      let ?q = "add_pending target ?sig node p"
      have k: "k < length (threads p)" "tid (threads p ! k) = i" "i \<noteq> 0"
        using queued(2) Some find_thread_locked_Some [of p i k] by (auto split: if_splits)
      have "bit (sig_pending (threads ?q ! k)) (?sig - 1)" "tid (threads ?q ! k) = i"
        using k Some less by (simp_all add: add_pending_def Let_def bit_simps bit_sigbit)
      then have "k < length (threads p') \<and> tid (threads p' ! k) = i \<and> bit (sig_pending (threads p' ! k)) (?sig - 1)"
        using queued(5) k Some by (auto simp: kick_def nth_list_update split: option.splits)
      then have "\<exists>t\<in>set (threads p'). tid t = i \<and> bit (sig_pending t) (?sig - 1)"
        using nth_mem by blast
      moreover have "proc_flags p' = proc_flags p"
        using queued(5) by (auto split: option.splits)
      ultimately show ?thesis
        using queued(1) False k(3) err by (auto simp: and_sigbit)
    qed
  qed
qed

theorem signal_send_outcome_witness:
  "case signal_send example_process None 0 example_info False Map.empty of
     (r, p', fs') \<Rightarrow> r = Inr () \<and> proc_pending p' AND sigbit 15 \<noteq> 0"
proof -
  obtain p' where r: "signal_send example_process None 0 example_info False Map.empty = (Inr (), p', Map.empty)"
    by (simp add: signal_send_def queue_signal_def SIGKILL_def Let_def choose_thread_locked_def leaving_def
        ignored_locked_def add_pending_def kick_def example_action_def SIG_IGN_def SIG_DFL_def INIT_PID_def example_thread_def)
  have ig: "\<not> ignored_locked example_process 15"
    by (simp add: ignored_locked_def example_action_def SIG_IGN_def SIG_DFL_def)
  show ?thesis
    using signal_send_outcome [OF r] r ig by (simp add: SIGKILL_def)
qed


text \<open>
  C18: no lost wake-up on sending. When a signal to the whole process becomes pending and some
  thread can take it, then afterwards a thread that can take it has been told (its work flag
  is set) and kicked.
\<close>

theorem signal_send_wakes:
  assumes "signal_send p self 0 info alloc fs = (r, p', fs')" "\<forall>k. self = Some k \<longrightarrow> k < length (threads p)"
    and "si_signo info \<noteq> SIGKILL" "\<not> ignored_locked p (si_signo info)"
    and "proc_pending p AND sigbit (si_signo info) = 0" "\<exists>t\<in>set (threads p). can_take (si_signo info) t"
  shows "\<exists>t\<in>set (threads p'). can_take (si_signo info) t \<and> told t \<and> Sched_kick (tid t) \<in> set (log p')"
proof -
  let ?sig = "si_signo info"
  obtain node where q: "queue_signal p self 0 ?sig node = (r, p')"
    using assms(1,3) by (auto simp: signal_send_def Let_def split: prod.splits)
  from q assms(2) show ?thesis
  proof (cases rule: queue_signal_cases)
    case (queued target thread)
    then have t: "target = None" by simp
    obtain k where k: "thread = Some k"
      using queued(5) t assms(6) by (cases thread) (auto simp: can_take_def and_sigbit_0)
    let ?t = "post_work THREAD_WORK_SIGNAL (threads p ! k)"
    have p': "p' = kick k (add_pending None ?sig node p)" and k2: "k < length (threads p)" "\<not> leaving (threads p ! k)"
      "\<not> bit (sig_blocked (threads p ! k)) (?sig - 1)"
      using queued(5) k t by simp_all
    have "?t \<in> set (threads p')" "Sched_kick (tid ?t) \<in> set (log p')"
      using p' k2(1) by (auto simp: kick_def set_update_memI)
    moreover have "can_take ?sig ?t" "told ?t"
      using k2 unfolding can_take_def and_sigbit_0 by simp_all
    ultimately show ?thesis by blast
  qed (use assms and_sigbit_0 in auto)
qed

theorem signal_send_wakes_witness:
  "case signal_send example_process None 0 example_info True Map.empty of
     (r, p', fs') \<Rightarrow> \<exists>t\<in>set (threads p'). can_take 15 t \<and> told t \<and> Sched_kick (tid t) \<in> set (log p')"
proof -
  obtain r p' fs' where r: "signal_send example_process None 0 example_info True Map.empty = (r, p', fs')"
    using prod_cases3 by blast
  have "\<not> ignored_locked example_process 15" "can_take 15 (example_thread 5)"
    by (simp_all add: ignored_locked_def example_action_def SIG_IGN_def SIG_DFL_def can_take_def leaving_def example_thread_def)
  then show ?thesis
    using signal_send_wakes [OF r] r by (auto simp: SIGKILL_def)
qed

text \<open>
  after \<^verbatim>\<open>signal_retarget\<close> every thread that can take a signal pending for the whole process has
  been told about it.
\<close>

theorem signal_retarget_tells:
  assumes "t \<in> set (threads (signal_retarget p))" "can_take sig t" "proc_pending p AND sigbit sig \<noteq> 0"
  shows "told t"
proof -
  let ?P = "retargets (proc_pending p)"
  obtain t0 where t0: "t0 \<in> set (threads p)" "t = (if ?P t0 then post_work THREAD_WORK_SIGNAL t0 else t0)"
    using assms(1) by (auto simp: signal_retarget_def)
  have "bit (proc_pending p AND NOT (sig_blocked t)) (sig - 1)"
    using assms(2,3) bit_imp_le_length [of "proc_pending p" "sig - 1"]
    unfolding can_take_def and_sigbit and_sigbit_0 by (simp add: bit_simps)
  then have "proc_pending p AND NOT (sig_blocked t) \<noteq> 0"
    by auto
  then have "?P t0"
    using assms(2) t0(2) by (auto simp: retargets_def can_take_def split: if_splits)
  then show ?thesis
    using t0(2) by simp
qed

theorem signal_retarget_tells_witness:
  "\<exists>t\<in>set (threads (signal_retarget (example_process\<lparr>proc_pending := 0x4000\<rparr>))). told t"
proof -
  let ?p = "example_process\<lparr>proc_pending := 0x4000\<rparr>"
  let ?t = "post_work THREAD_WORK_SIGNAL (example_thread 5)"
  have t: "?t \<in> set (threads (signal_retarget ?p))"
    by (simp add: signal_retarget_def retargets_def leaving_def example_thread_def)
  have "can_take 15 ?t" "proc_pending ?p AND sigbit 15 \<noteq> 0"
    by (simp_all add: can_take_def leaving_def example_thread_def sigbit_def post_work_def THREAD_WORK_EXIT_def THREAD_WORK_SIGNAL_def)
  from signal_retarget_tells [OF t this] t show ?thesis by blast
qed


lemma add_pending_None [simp]:
  "threads (add_pending None sig node p) = threads p"
  "proc_pending (add_pending None sig node p) = proc_pending p OR sigbit sig"
  by (simp_all add: add_pending_def Let_def)

text \<open>
  C36: \<^verbatim>\<open>signal_mask\<close> has no such step, so a signal can be stranded. In any process with nothing pending and no
  thread told of anything, a signal is sent to the whole process, and the thread that was chosen for it
  blocks it before it is delivered. Then the signal is still pending and every other thread that could take
  it still can, but no thread is told.
\<close>

theorem signal_mask_strands:
  assumes "signal_send p self 0 info alloc fs = (Inr (), p1, fs1)" "signal_mask p1 i SIG_BLOCK (sigbit (si_signo info)) = (old, p2)"
    and "choose_thread_locked p self (sigbit (si_signo info)) = Some i" "\<forall>k. self = Some k \<longrightarrow> k < length (threads p)"
    and "valid_sig (si_signo info)" "si_signo info \<noteq> SIGKILL" "si_signo info \<noteq> SIGSTOP" "\<not> ignored_locked p (si_signo info)"
    and "proc_pending p = 0" "\<forall>t\<in>set (threads p). sig_pending t = 0 \<and> \<not> told t"
    and "j \<noteq> i" "j < length (threads p)" "can_take (si_signo info) (threads p ! j)"
  shows "proc_pending p2 = sigbit (si_signo info) \<and> can_take (si_signo info) (threads p2 ! j) \<and> (\<forall>t\<in>set (threads p2). \<not> told t)"
proof -
  let ?sig = "si_signo info"
  have i: "i < length (threads p)" "sig_blocked (threads p ! i) AND sigbit ?sig = 0" "\<not> leaving (threads p ! i)"
    using choose_thread_locked_Some [OF assms(3,4)] by simp_all
  let ?node = "if alloc then Some info else None"
  have p1: "p1 = kick i (add_pending None ?sig ?node p)"
    using assms(1,3,6,8,9) i(2) by (simp add: signal_send_def queue_signal_def Let_def)
  let ?ti = "recalc_locked (sigbit ?sig) ((post_work THREAD_WORK_SIGNAL (threads p ! i))
      \<lparr>sig_blocked := (sig_blocked (threads p ! i) OR sigbit ?sig) AND NOT (sigbit SIGKILL OR sigbit SIGSTOP)\<rparr>)"
  have p2: "threads p2 = (threads p)[i := ?ti]" "proc_pending p2 = sigbit ?sig"
    using assms(2,9) i(1) unfolding p1 by (auto simp: signal_mask_def Let_def kick_def)
  have "sig_pending (threads p ! i) = 0" using assms(10) i(1) by simp
  moreover have "sigbit ?sig AND NOT ((sig_blocked (threads p ! i) OR sigbit ?sig) AND NOT (sigbit SIGKILL OR sigbit SIGSTOP)) = 0"
  proof (rule bit_eqI)
    fix n
    have "valid_sig SIGKILL" "valid_sig SIGSTOP" by (simp_all add: valid_sig_def NSIG_def SIGKILL_def SIGSTOP_def)
    then show "bit (sigbit ?sig AND NOT ((sig_blocked (threads p ! i) OR sigbit ?sig) AND NOT (sigbit SIGKILL OR sigbit SIGSTOP))) n = bit 0 n"
      using valid_sig_inj [OF assms(5), of SIGKILL] valid_sig_inj [OF assms(5), of SIGSTOP] assms(6,7) by (auto simp: sig_bits)
  qed
  ultimately have "\<not> told ?ti" by simp
  then have "\<forall>t\<in>set (threads p2). \<not> told t"
    using assms(10) set_update_subset_insert [of "threads p" i ?ti] p2(1) by auto
  then show ?thesis using p2 assms(11,13) by simp
qed

theorem signal_mask_strands_witness:
  "\<exists>p1 old p2. signal_send example_process None 0 example_info True Map.empty = (Inr (), p1, Map.empty) \<and>
     signal_mask p1 0 SIG_BLOCK (sigbit 15) = (old, p2) \<and> proc_pending p2 = sigbit 15 \<and> can_take 15 (threads p2 ! 1) \<and>
     (\<forall>t\<in>set (threads p2). \<not> told t)"
proof -
  have ch: "choose_thread_locked example_process None (sigbit 15) = Some 0"
    by (simp add: choose_thread_locked_def leaving_def example_thread_def)
  have ig: "\<not> ignored_locked example_process 15"
    by (simp add: ignored_locked_def example_action_def SIG_IGN_def SIG_DFL_def)
  obtain p1 where p1: "signal_send example_process None 0 example_info True Map.empty = (Inr (), p1, Map.empty)"
    using ch ig by (simp add: signal_send_def queue_signal_def SIGKILL_def Let_def example_thread_def)
  obtain old p2 where p2: "signal_mask p1 0 SIG_BLOCK (sigbit (si_signo example_info)) = (old, p2)" by fastforce
  have t: "sig_pending (example_thread k) = 0 \<and> \<not> told (example_thread k)" "can_take 15 (example_thread k)" for k
    by (simp_all add: example_thread_def told_def can_take_def leaving_def)
  from signal_mask_strands [OF p1 p2, of 1] show ?thesis
    using p1 p2 ch ig t by (simp add: SIGKILL_def SIGSTOP_def)
qed

text \<open>
  C16: a fault is never swallowed. For a signal whose default is to kill, after \<^verbatim>\<open>signal_force\<close> either
  the process is exiting, or the faulting thread has the signal pending and unblocked, has
  been told, and the signal has a handler that will run.
\<close>

theorem signal_force_not_swallowed:
  assumes "signal_force p i info alloc fs = (p', fs')" "i < length (threads p)" "length (actions p) = NSIG"
    and "valid_sig (si_signo info)" "default_kills (si_signo info)"
  shows "proc_flags p' AND PROCESS_EXITING \<noteq> 0 \<or>
    (let t = threads p' ! i
     in sig_pending t AND sigbit (si_signo info) \<noteq> 0 \<and> sig_blocked t AND sigbit (si_signo info) = 0 \<and> told t \<and>
        sa_handler (actions p' ! (si_signo info - 1)) \<notin> {SIG_DFL, SIG_IGN})"
proof -
  let ?sig = "si_signo info"
  let ?a = "force_action p i ?sig"
  show ?thesis
  proof (cases "sa_handler ?a = SIG_DFL")
    case True
    then have "process_kill (slab_free_node (if alloc then Some info else None)
        (p\<lparr>actions := (actions p)[?sig - 1 := ?a]\<rparr>)) ?sig fs = (p', fs')"
      using assms(1,5) by (simp add: signal_force_def Let_def)
    from process_kill_exiting [OF this] show ?thesis by blast
  next
    case False
    have less: "?sig - Suc 0 < 64" "?sig - Suc 0 < length (actions p)"
      using assms(3,4) by (auto simp: valid_sig_def NSIG_def)
    let ?node = "if alloc then Some info else None"
    have p': "p' = force_queue (p\<lparr>actions := (actions p)[?sig - 1 := ?a]\<rparr>) i ?sig ?node"
      using assms(1) False by (simp add: signal_force_def Let_def)
    note t = force_queue_fields(1) [of i "p\<lparr>actions := (actions p)[?sig - 1 := ?a]\<rparr>" ?sig ?node, folded p', simplified, OF assms(2)]
    have "sig_pending (threads p' ! i) AND sigbit ?sig \<noteq> 0" "sig_blocked (threads p' ! i) AND sigbit ?sig = 0"
      using less unfolding and_sigbit and_sigbit_0 by (simp_all add: t bit_simps bit_sigbit)
    moreover have "told (threads p' ! i)"
    proof -
      have "bit ((((sig_pending (threads p ! i) AND NOT (sigbit ?sig)) OR sigbit ?sig) OR proc_pending p) AND
          NOT (sig_blocked (threads p ! i) AND NOT (sigbit ?sig))) (?sig - Suc 0)"
        using less by (simp add: bit_simps bit_sigbit)
      then show ?thesis by (auto simp: t)
    qed
    moreover have "sa_handler ?a \<noteq> SIG_IGN"
      by (simp add: force_action_def Let_def zero_action_def SIG_IGN_def)
    moreover have "actions p' ! (?sig - 1) = ?a"
      using less by (simp add: p' force_queue_fields)
    ultimately show ?thesis
      using False by (simp add: Let_def)
  qed
qed

theorem signal_force_not_swallowed_witness:
  "case signal_force example_process 0 example_info True Map.empty of
     (p', fs') \<Rightarrow> proc_flags p' = 0 \<and> told (threads p' ! 0) \<and> sig_pending (threads p' ! 0) AND sigbit 15 \<noteq> 0"
proof -
  obtain p' fs' where r: "signal_force example_process 0 example_info True Map.empty = (p', fs')"
    by fastforce
  have k: "default_kills 15" "length (actions example_process) = NSIG"
    by (simp_all add: default_kills_def default_actions_def example_process_def)
  have "force_action example_process 0 15 = example_action"
    by (simp add: force_action_def Let_def example_thread_def example_action_def SIG_IGN_def)
  then have "proc_flags p' = 0"
    using r by (auto simp: signal_force_def Let_def example_action_def SIG_DFL_def force_queue_fields)
  then show ?thesis
    using signal_force_not_swallowed [OF r] r k by (simp add: Let_def)
qed

lemma drop_threads_empty:
  "drop_threads ts sig d = (ts', d') \<Longrightarrow> valid_sig sig \<Longrightarrow> t \<in> set ts' \<Longrightarrow>
    sig_pending t AND sigbit sig = 0 \<and> (\<forall>n\<in>set (sig_queue t). si_signo n \<noteq> sig)"
proof (induction ts arbitrary: d ts' d')
  case (Cons u ts)
  obtain ts2 d3 where ts: "drop_threads ts sig (rev (filter (\<lambda>n. si_signo n = sig) (sig_queue u)) @ d) = (ts2, d3)"
    by fastforce
  let ?u = "u\<lparr>sig_pending := sig_pending u AND NOT (sigbit sig), sig_queue := filter (\<lambda>n. si_signo n \<noteq> sig) (sig_queue u)\<rparr>"
  have "ts' = ?u # ts2"
    using Cons.prems(1) ts by (simp add: drop_locked_def drop_queue_eq)
  then consider "t = ?u" | "t \<in> set ts2"
    using Cons.prems(3) by auto
  then show ?case
  proof cases
    case 1
    then show ?thesis
      using valid_sig_less [OF Cons.prems(2)] unfolding and_sigbit_0 by (simp add: bit_simps bit_sigbit)
  next
    case 2
    from Cons.IH [OF ts Cons.prems(2) this] show ?thesis .
  qed
qed simp

text \<open>
  setting an action that ignores a signal discards it wherever it is pending, in the process
  and in every thread, with its queued nodes; the previous action is returned.
\<close>

theorem signal_action_discards:
  assumes "signal_action p sig (Some a) = (old, p')" "valid_sig sig" "length (actions p) = NSIG" "ignored_locked p' sig"
  shows "old = actions p ! (sig - 1) \<and> actions p' = (actions p)[sig - 1 := a] \<and>
    proc_pending p' AND sigbit sig = 0 \<and> (\<forall>n\<in>set (proc_queue p'). si_signo n \<noteq> sig) \<and>
    (\<forall>t\<in>set (threads p'). sig_pending t AND sigbit sig = 0 \<and> (\<forall>n\<in>set (sig_queue t). si_signo n \<noteq> sig))"
proof -
  let ?p = "p\<lparr>actions := (actions p)[sig - 1 := a]\<rparr>"
  have ig: "ignored_locked ?p sig"
  proof (rule ccontr)
    assume "\<not> ignored_locked ?p sig"
    then have "p' = ?p"
      using assms(1) by (simp add: signal_action_def Let_def)
    then show False
      using assms(4) \<open>\<not> ignored_locked ?p sig\<close> by simp
  qed
  let ?q = "filter (\<lambda>n. si_signo n \<noteq> sig) (proc_queue p)"
  obtain ts d where ts: "drop_threads (threads p) sig (rev (filter (\<lambda>n. si_signo n = sig) (proc_queue p))) = (ts, d)"
    by fastforce
  have p': "p' = signal_flush d (?p\<lparr>proc_pending := proc_pending p AND NOT (sigbit sig), proc_queue := ?q, threads := ts\<rparr>)"
    and old: "old = actions p ! (sig - 1)"
    using assms(1) ig ts by (simp_all add: signal_action_def Let_def drop_locked_def drop_queue_eq)
  show ?thesis
    using drop_threads_empty [OF ts assms(2)] old valid_sig_less [OF assms(2)]
    by (simp add: p') (simp add: bit_simps bit_sigbit and_sigbit_0)
qed

theorem signal_action_discards_witness:
  "case signal_action (example_process\<lparr>proc_pending := sigbit 15, proc_queue := [example_info]\<rparr>) 15
     (Some (zero_action\<lparr>sa_handler := SIG_IGN\<rparr>)) of
     (old, p') \<Rightarrow> old = example_action \<and> proc_pending p' AND sigbit 15 = 0 \<and> (\<forall>n\<in>set (proc_queue p'). si_signo n \<noteq> 15)"
proof -
  let ?p = "example_process\<lparr>proc_pending := sigbit 15, proc_queue := [example_info]\<rparr>"
  let ?a = "zero_action\<lparr>sa_handler := SIG_IGN\<rparr>"
  obtain old p' where r: "signal_action ?p 15 (Some ?a) = (old, p')"
    by fastforce
  have "length (actions ?p) = NSIG"
    by (simp add: example_process_def)
  moreover have "ignored_locked p' 15"
    using r by (auto simp: signal_action_def Let_def ignored_locked_def example_process_def NSIG_def split: prod.splits)
  ultimately show ?thesis
    using signal_action_discards [OF r] r by simp
qed


lemma recalc_locked_restart [simp]: "syscall_restart (recalc_locked pp t) = syscall_restart t"
  by (simp add: recalc_locked_def Let_def)

lemma queue_take_find:
  "queue_take q sig = (find (\<lambda>n. si_signo n = sig) q, case find (\<lambda>n. si_signo n = sig) q of None \<Rightarrow> q | Some n \<Rightarrow> remove1 n q)"
proof (induction q)
  case (Cons x q)
  have "si_signo n = sig" if "find (\<lambda>n. si_signo n = sig) q = Some n" for n
    using that by (auto simp: find_Some_iff)
  then show ?case using Cons.IH by (cases "find (\<lambda>n. si_signo n = sig) q") auto
qed simp

lemma ctzll_unique:
  assumes "valid_sig sig" "d AND sigbit sig \<noteq> 0" "\<forall>s. 1 \<le> s \<and> s < sig \<longrightarrow> d AND sigbit s = 0"
  shows "ctzll d + 1 = sig"
proof -
  have "d \<noteq> 0" using assms(2) by auto
  note least = ctzll_least [OF this]
  have "\<not> ctzll d + 1 < sig" using assms(3) [rule_format, of "ctzll d + 1"] least unfolding and_sigbit_0 by auto
  moreover have "\<not> sig - 1 < ctzll d" using assms(2) least by (auto simp: and_sigbit)
  ultimately show ?thesis using assms(1) unfolding valid_sig_def by linarith
qed

text \<open>The set and the queue a thread takes its next signal from: its own if it can take one of them, else those of the process.\<close>

definition takes_own :: "thread \<Rightarrow> bool" where
  "takes_own t \<longleftrightarrow> sig_pending t AND NOT (sig_blocked t) \<noteq> 0"

definition takes_set :: "process \<Rightarrow> thread \<Rightarrow> u64" where
  "takes_set p t = (if takes_own t then sig_pending t else proc_pending p) AND NOT (sig_blocked t)"

definition takes_queue :: "process \<Rightarrow> thread \<Rightarrow> siginfo list" where
  "takes_queue p t = (if takes_own t then sig_queue t else proc_queue p)"

text \<open>A queue without its first node of a signal.\<close>

definition without :: "nat \<Rightarrow> siginfo list \<Rightarrow> siginfo list" where
  "without sig q = (case find (\<lambda>n. si_signo n = sig) q of None \<Rightarrow> q | Some n \<Rightarrow> remove1 n q)"

lemma take_signal_exact:
  fixes p i
  defines "t \<equiv> threads p ! i"
  assumes "valid_sig sig" "takes_set p t AND sigbit sig \<noteq> 0" "\<forall>s. 1 \<le> s \<and> s < sig \<longrightarrow> takes_set p t AND sigbit s = 0"
  shows "take_signal p i = (Some (sig, find (\<lambda>n. si_signo n = sig) (takes_queue p t)),
    if takes_own t then set_thread i (t\<lparr>sig_pending := sig_pending t AND NOT (sigbit sig), sig_queue := without sig (sig_queue t)\<rparr>) p
    else p\<lparr>proc_pending := proc_pending p AND NOT (sigbit sig), proc_queue := without sig (proc_queue p)\<rparr>)"
proof -
  note c = ctzll_unique [OF assms(2-4)]
  have "takes_set p t \<noteq> 0" using assms(3) by auto
  then show ?thesis
    using c unfolding take_signal_def Let_def t_def [symmetric] queue_take_find
    by (auto simp: takes_set_def takes_own_def takes_queue_def without_def)
qed

lemma recalc_thread_fields [simp]:
  "i < length (threads p) \<Longrightarrow> sig_blocked (threads (recalc_thread i p) ! i) = sig_blocked (threads p ! i)"
  "i < length (threads p) \<Longrightarrow> tid (threads (recalc_thread i p) ! i) = tid (threads p ! i)"
  "proc_flags (recalc_thread i p) = proc_flags p"
  by (simp_all add: recalc_thread_def)

lemma run_handler_exact:
  assumes "run_handler p i sig action info old_mask True fs = (p', fs')" "i < length (threads p)"
  shows "fs' = fs" "proc_flags p' = proc_flags p" "actions p' = actions p" "proc_pending p' = proc_pending p" "proc_queue p' = proc_queue p"
    "log p' = log p @ (if syscall_restart (threads p ! i) \<and> sa_flags action AND SA_RESTART = 0
        then [Syscall_interrupted (tid (threads p ! i))] else []) @ [Signal_frame (tid (threads p ! i)) action info old_mask]"
    "sig_pending (threads p' ! i) = sig_pending (threads p ! i)" "sig_queue (threads p' ! i) = sig_queue (threads p ! i)"
    "\<not> syscall_restart (threads p' ! i)"
    "sig_blocked (threads p' ! i) =
      (sig_blocked (threads p ! i) OR (if sa_flags action AND SA_NODEFER = 0 then sa_mask action OR sigbit sig else sa_mask action))
        AND NOT (sigbit SIGKILL OR sigbit SIGSTOP)"
  using assms by (auto simp: run_handler_def Let_def signal_mask_def)

text \<open>
  C19: delivery to a handler. Let \<open>sig\<close> be the lowest signal the thread can take, of those sent to the thread
  itself if it can take any of them and else of those sent to the process, and let it be caught. Delivery takes exactly this
  signal out of the set and its first node out of the queue it comes from and leaves the other set and queue alone; the frame
  of the handler gets the action, the \<^verbatim>\<open>siginfo\<close> of that node, or a plain one if there is none, and the
  mask to restore; an interrupted call that is not to be restarted is ended first. The action is reset when it has
  \<^verbatim>\<open>SA_RESETHAND\<close>. While the handler runs, the action's mask and, without \<^verbatim>\<open>SA_NODEFER\<close>, the signal itself are
  blocked on top of the thread's mask, but never SIGKILL or SIGSTOP.
\<close>

theorem signal_deliver_runs_handler:
  fixes p :: process and i sig :: nat
  defines "t \<equiv> threads p ! i"
  defines "action \<equiv> actions p ! (sig - 1)"
  defines "node \<equiv> find (\<lambda>n. si_signo n = sig) (takes_queue p t)"
  assumes "signal_deliver p i True fs = (p', fs')" "i < length (threads p)"
    and "valid_sig sig" "takes_set p t AND sigbit sig \<noteq> 0" "\<forall>s. 1 \<le> s \<and> s < sig \<longrightarrow> takes_set p t AND sigbit s = 0"
    and "sa_handler action \<noteq> SIG_DFL" "sa_handler action \<noteq> SIG_IGN"
  shows "proc_flags p' = proc_flags p \<and> fs' = fs \<and>
    sig_pending (threads p' ! i) = (if takes_own t then sig_pending t AND NOT (sigbit sig) else sig_pending t) \<and>
    sig_queue (threads p' ! i) = (if takes_own t then without sig (sig_queue t) else sig_queue t) \<and>
    proc_pending p' = (if takes_own t then proc_pending p else proc_pending p AND NOT (sigbit sig)) \<and>
    proc_queue p' = (if takes_own t then proc_queue p else without sig (proc_queue p)) \<and>
    actions p' = (if sa_flags action AND SA_RESETHAND \<noteq> 0 then (actions p)[sig - 1 := zero_action] else actions p) \<and>
    log p' = log p @ (case node of None \<Rightarrow> [] | Some n \<Rightarrow> [Slab_free n]) @
      (if syscall_restart t \<and> sa_flags action AND SA_RESTART = 0 then [Syscall_interrupted (tid t)] else []) @
      [Signal_frame (tid t) action (case node of None \<Rightarrow> kernel_siginfo sig | Some n \<Rightarrow> n) (sig_blocked t)] \<and>
    \<not> syscall_restart (threads p' ! i) \<and>
    sig_blocked (threads p' ! i) =
      (sig_blocked t OR (if sa_flags action AND SA_NODEFER = 0 then sa_mask action OR sigbit sig else sa_mask action))
        AND NOT (sigbit SIGKILL OR sigbit SIGSTOP)"
proof -
  define q where "q = (if takes_own t then set_thread i (t\<lparr>sig_pending := sig_pending t AND NOT (sigbit sig), sig_queue := without sig (sig_queue t)\<rparr>) p
    else p\<lparr>proc_pending := proc_pending p AND NOT (sigbit sig), proc_queue := without sig (proc_queue p)\<rparr>)"
  have take: "take_signal p i = (Some (sig, node), q)"
    using take_signal_exact [of sig p i] assms(6-8) unfolding q_def node_def t_def by simp
  have q: "actions q = actions p" "sig_blocked (threads q ! i) = sig_blocked t" "proc_flags q = proc_flags p" "log q = log p"
    "tid (threads q ! i) = tid t" "i < length (threads q)" "syscall_restart (threads q ! i) = syscall_restart t"
    using assms(5) by (simp_all add: q_def t_def)
  define q2 where "q2 = (if sa_flags action AND SA_RESETHAND \<noteq> 0 then q\<lparr>actions := (actions q)[sig - 1 := zero_action]\<rparr> else q)"
  define q3 where "q3 = slab_free_node node (recalc_thread i q2)"
  have q3: "i < length (threads q3)" "proc_flags q3 = proc_flags p" "tid (threads q3 ! i) = tid t" "sig_blocked (threads q3 ! i) = sig_blocked t"
    "sig_pending (threads q3 ! i) = sig_pending (threads q ! i)" "sig_queue (threads q3 ! i) = sig_queue (threads q ! i)"
    "proc_pending q3 = proc_pending q" "proc_queue q3 = proc_queue q" "syscall_restart (threads q3 ! i) = syscall_restart t"
    "actions q3 = actions q2" "log q3 = log p @ (case node of None \<Rightarrow> [] | Some n \<Rightarrow> [Slab_free n])"
    using q by (simp_all add: q3_def q2_def recalc_thread_def slab_free_node_def split: option.split)
  have "run_handler q3 i sig action (case node of None \<Rightarrow> kernel_siginfo sig | Some n \<Rightarrow> n) (sig_blocked t) True fs = (p', fs')"
    using assms(4,9,10) take q by (simp add: signal_deliver_def Let_def action_def q2_def q3_def)
  note run = run_handler_exact [OF this q3(1), unfolded q3]
  have own: "sig_pending (threads q ! i) = (if takes_own t then sig_pending t AND NOT (sigbit sig) else sig_pending t)"
    "sig_queue (threads q ! i) = (if takes_own t then without sig (sig_queue t) else sig_queue t)"
    "proc_pending q = (if takes_own t then proc_pending p else proc_pending p AND NOT (sigbit sig))"
    "proc_queue q = (if takes_own t then proc_queue p else without sig (proc_queue p))"
    using assms(5) by (simp_all add: q_def t_def)
  have "actions q2 = (if sa_flags action AND SA_RESETHAND \<noteq> 0 then (actions p)[sig - 1 := zero_action] else actions p)"
    using q(1) by (simp add: q2_def)
  then show ?thesis using run unfolding own by simp
qed

theorem signal_deliver_runs_handler_witness:
  "case signal_deliver (example_process\<lparr>proc_pending := sigbit 15, proc_queue := [example_info]\<rparr>) 1 True Map.empty of
     (p', fs') \<Rightarrow> log p' = [Slab_free example_info, Signal_frame 6 example_action example_info 0] \<and> proc_pending p' = 0 \<and> proc_queue p' = [] \<and>
       sig_blocked (threads p' ! 1) = (0 OR 1 OR sigbit 15) AND NOT (sigbit SIGKILL OR sigbit SIGSTOP)"
proof -
  let ?p = "example_process\<lparr>proc_pending := sigbit 15, proc_queue := [example_info]\<rparr>"
  obtain p' fs' where r: "signal_deliver ?p 1 True Map.empty = (p', fs')"
    by fastforce
  have t: "\<not> takes_own (example_thread 6)" "takes_set ?p (example_thread 6) = sigbit 15" "takes_queue ?p (example_thread 6) = [example_info]"
    by (simp_all add: takes_own_def takes_set_def takes_queue_def example_thread_def)
  have low: "\<forall>s. 1 \<le> s \<and> s < 15 \<longrightarrow> sigbit 15 AND sigbit s = 0" by (auto simp: and_sigbit_0 bit_sigbit)
  have h: "sa_handler example_action \<noteq> SIG_DFL" "sa_handler example_action \<noteq> SIG_IGN"
    by (simp_all add: example_action_def SIG_DFL_def SIG_IGN_def)
  have "sigbit 15 AND sigbit 15 \<noteq> 0" by (simp add: sigbit_def)
  then show ?thesis
    using signal_deliver_runs_handler [OF r, of 15] r t low h
    by (simp add: example_thread_def example_action_def without_def)
qed

end
