(* ===== verification/Ctype.thy ===== *)
theory Ctype
  imports Vex_Prelude
begin

text \<open>
  Character classes, \<^verbatim>\<open>kernel/libk/ctype.c\<close>. The table is transcribed entry by entry: the
  lower-case form, the upper-case form and the class flags of a byte. It has 256 entries of
  which the source initialises 217; C zeroes the rest. A set of flags is a list of them.
\<close>

datatype ct = CT_CT | CT_GR | CT_SP | CT_BL | CT_UC | CT_LC | CT_DD | CT_XD | CT_PT | CT_WS

type_synonym ctype_ent = "int \<times> int \<times> ct list"

definition CTYPE_SIZE :: int where
  "CTYPE_SIZE = 256"

definition ctype_ascii :: "ctype_ent list" where
  "ctype_ascii = [
    (0x00, 0x00, [CT_CT]), (0x01, 0x01, [CT_CT]), (0x02, 0x02, [CT_CT]), (0x03, 0x03, [CT_CT]),
    (0x04, 0x04, [CT_CT]), (0x05, 0x05, [CT_CT]), (0x06, 0x06, [CT_CT]), (0x07, 0x07, [CT_CT]),
    (0x08, 0x08, [CT_CT]), (0x09, 0x09, [CT_CT, CT_SP, CT_BL]), (0x0A, 0x0A, [CT_CT, CT_SP]),
    (0x0B, 0x0B, [CT_CT, CT_SP]), (0x0C, 0x0C, [CT_CT, CT_SP]), (0x0D, 0x0D, [CT_CT, CT_SP]),
    (0x0E, 0x0E, [CT_CT]), (0x0F, 0x0F, [CT_CT]), (0x10, 0x10, [CT_CT]), (0x11, 0x11, [CT_CT]),
    (0x12, 0x12, [CT_CT]), (0x13, 0x13, [CT_CT]), (0x14, 0x14, [CT_CT]), (0x15, 0x15, [CT_CT]),
    (0x16, 0x16, [CT_CT]), (0x17, 0x17, [CT_CT]), (0x18, 0x18, [CT_CT]), (0x19, 0x19, [CT_CT]),
    (0x1A, 0x1A, [CT_CT]), (0x1B, 0x1B, [CT_CT]), (0x1C, 0x1C, [CT_CT]), (0x1D, 0x1D, [CT_CT]),
    (0x1E, 0x1E, [CT_CT]), (0x1F, 0x1F, [CT_CT]), (0x20, 0x20, [CT_SP, CT_BL, CT_WS]),
    (0x21, 0x21, [CT_GR, CT_PT]), (0x22, 0x22, [CT_GR, CT_PT]), (0x23, 0x23, [CT_GR, CT_PT]),
    (0x24, 0x24, [CT_GR, CT_PT]), (0x25, 0x25, [CT_GR, CT_PT]), (0x26, 0x26, [CT_GR, CT_PT]),
    (0x27, 0x27, [CT_GR, CT_PT]), (0x28, 0x28, [CT_GR, CT_PT]), (0x29, 0x29, [CT_GR, CT_PT]),
    (0x2A, 0x2A, [CT_GR, CT_PT]), (0x2B, 0x2B, [CT_GR, CT_PT]), (0x2C, 0x2C, [CT_GR, CT_PT]),
    (0x2D, 0x2D, [CT_GR, CT_PT]), (0x2E, 0x2E, [CT_GR, CT_PT]), (0x2F, 0x2F, [CT_GR, CT_PT]),
    (0x30, 0x30, [CT_GR, CT_DD, CT_XD]), (0x31, 0x31, [CT_GR, CT_DD, CT_XD]),
    (0x32, 0x32, [CT_GR, CT_DD, CT_XD]), (0x33, 0x33, [CT_GR, CT_DD, CT_XD]),
    (0x34, 0x34, [CT_GR, CT_DD, CT_XD]), (0x35, 0x35, [CT_GR, CT_DD, CT_XD]),
    (0x36, 0x36, [CT_GR, CT_DD, CT_XD]), (0x37, 0x37, [CT_GR, CT_DD, CT_XD]),
    (0x38, 0x38, [CT_GR, CT_DD, CT_XD]), (0x39, 0x39, [CT_GR, CT_DD, CT_XD]), (0x3A, 0x3A, [CT_GR, CT_PT]),
    (0x3B, 0x3B, [CT_GR, CT_PT]), (0x3C, 0x3C, [CT_GR, CT_PT]), (0x3D, 0x3D, [CT_GR, CT_PT]),
    (0x3E, 0x3E, [CT_GR, CT_PT]), (0x3F, 0x3F, [CT_GR, CT_PT]), (0x40, 0x40, [CT_GR, CT_PT]),
    (0x61, 0x41, [CT_GR, CT_UC, CT_XD]), (0x62, 0x42, [CT_GR, CT_UC, CT_XD]),
    (0x63, 0x43, [CT_GR, CT_UC, CT_XD]), (0x64, 0x44, [CT_GR, CT_UC, CT_XD]),
    (0x65, 0x45, [CT_GR, CT_UC, CT_XD]), (0x66, 0x46, [CT_GR, CT_UC, CT_XD]), (0x67, 0x47, [CT_GR, CT_UC]),
    (0x68, 0x48, [CT_GR, CT_UC]), (0x69, 0x49, [CT_GR, CT_UC]), (0x6A, 0x4A, [CT_GR, CT_UC]),
    (0x6B, 0x4B, [CT_GR, CT_UC]), (0x6C, 0x4C, [CT_GR, CT_UC]), (0x6D, 0x4D, [CT_GR, CT_UC]),
    (0x6E, 0x4E, [CT_GR, CT_UC]), (0x6F, 0x4F, [CT_GR, CT_UC]), (0x70, 0x50, [CT_GR, CT_UC]),
    (0x71, 0x51, [CT_GR, CT_UC]), (0x72, 0x52, [CT_GR, CT_UC]), (0x73, 0x53, [CT_GR, CT_UC]),
    (0x74, 0x54, [CT_GR, CT_UC]), (0x75, 0x55, [CT_GR, CT_UC]), (0x76, 0x56, [CT_GR, CT_UC]),
    (0x77, 0x57, [CT_GR, CT_UC]), (0x78, 0x58, [CT_GR, CT_UC]), (0x79, 0x59, [CT_GR, CT_UC]),
    (0x7A, 0x5A, [CT_GR, CT_UC]), (0x5B, 0x5B, [CT_GR, CT_PT]), (0x5C, 0x5C, [CT_GR, CT_PT]),
    (0x5D, 0x5D, [CT_GR, CT_PT]), (0x5E, 0x5E, [CT_GR, CT_PT]), (0x5F, 0x5F, [CT_GR, CT_PT]),
    (0x60, 0x60, [CT_GR, CT_PT]), (0x61, 0x41, [CT_GR, CT_LC, CT_XD]), (0x62, 0x42, [CT_GR, CT_LC, CT_XD]),
    (0x63, 0x43, [CT_GR, CT_LC, CT_XD]), (0x64, 0x44, [CT_GR, CT_LC, CT_XD]),
    (0x65, 0x45, [CT_GR, CT_LC, CT_XD]), (0x66, 0x46, [CT_GR, CT_LC, CT_XD]), (0x67, 0x47, [CT_GR, CT_LC]),
    (0x68, 0x48, [CT_GR, CT_LC]), (0x69, 0x49, [CT_GR, CT_LC]), (0x6A, 0x4A, [CT_GR, CT_LC]),
    (0x6B, 0x4B, [CT_GR, CT_LC]), (0x6C, 0x4C, [CT_GR, CT_LC]), (0x6D, 0x4D, [CT_GR, CT_LC]),
    (0x6E, 0x4E, [CT_GR, CT_LC]), (0x6F, 0x4F, [CT_GR, CT_LC]), (0x70, 0x50, [CT_GR, CT_LC]),
    (0x71, 0x51, [CT_GR, CT_LC]), (0x72, 0x52, [CT_GR, CT_LC]), (0x73, 0x53, [CT_GR, CT_LC]),
    (0x74, 0x54, [CT_GR, CT_LC]), (0x75, 0x55, [CT_GR, CT_LC]), (0x76, 0x56, [CT_GR, CT_LC]),
    (0x77, 0x57, [CT_GR, CT_LC]), (0x78, 0x58, [CT_GR, CT_LC]), (0x79, 0x59, [CT_GR, CT_LC]),
    (0x7A, 0x5A, [CT_GR, CT_LC]), (0x7B, 0x7B, [CT_GR, CT_PT]), (0x7C, 0x7C, [CT_GR, CT_PT]),
    (0x7D, 0x7D, [CT_GR, CT_PT]), (0x7E, 0x7E, [CT_GR, CT_PT]), (0x7F, 0x7F, [CT_CT])]"

definition ctype_high :: "ctype_ent list" where
  "ctype_high = [
    (0x80, 0x80, []), (0x81, 0x81, []), (0x82, 0x82, []), (0x83, 0x83, []), (0x84, 0x84, []), (0x85, 0x85, []),
    (0x86, 0x86, []), (0x87, 0x87, []), (0x88, 0x88, []), (0x89, 0x89, []), (0x8A, 0x8A, []), (0x8B, 0x8B, []),
    (0x8C, 0x8C, []), (0x8D, 0x8D, []), (0x8E, 0x8E, []), (0x8F, 0x8F, []), (0x90, 0x90, []), (0x91, 0x91, []),
    (0x92, 0x92, []), (0x93, 0x93, []), (0x94, 0x94, []), (0x95, 0x95, []), (0x96, 0x96, []), (0x97, 0x97, []),
    (0x98, 0x98, []), (0x99, 0x99, []), (0x9A, 0x9A, []), (0x9B, 0x9B, []), (0x9C, 0x9C, []), (0x9D, 0x9D, []),
    (0x9E, 0x9E, []), (0x9F, 0x9F, []), (0xA0, 0xA0, []), (0xA1, 0xA1, []), (0xA2, 0xA2, []), (0xA3, 0xA3, []),
    (0xA4, 0xA4, []), (0xA5, 0xA5, []), (0xA6, 0xA6, []), (0xA7, 0xA7, []), (0xA8, 0xA8, []), (0xA9, 0xA9, []),
    (0xAA, 0xAA, []), (0xAB, 0xAB, []), (0xAC, 0xAC, []), (0xAD, 0xAD, []), (0xAE, 0xAE, []), (0xAF, 0xAF, []),
    (0xB0, 0xB0, []), (0xB1, 0xB1, []), (0xB2, 0xB2, []), (0xB3, 0xB3, []), (0xB4, 0xB4, []), (0xB5, 0xB5, []),
    (0xB6, 0xB6, []), (0xB7, 0xB7, []), (0xB8, 0xB8, []), (0xB9, 0xB9, []), (0xBA, 0xBA, []), (0xBB, 0xBB, []),
    (0xBC, 0xBC, []), (0xBD, 0xBD, []), (0xBE, 0xBE, []), (0xBF, 0xBF, []), (0xC0, 0xC0, []), (0xC1, 0xC1, []),
    (0xC2, 0xC2, []), (0xC3, 0xC3, []), (0xC4, 0xC4, []), (0xC5, 0xC5, []), (0xC6, 0xC6, []), (0xC7, 0xC7, []),
    (0xC8, 0xC8, []), (0xC9, 0xC9, []), (0xCA, 0xCA, []), (0xCB, 0xCB, []), (0xCC, 0xCC, []), (0xCD, 0xCD, []),
    (0xCE, 0xCE, []), (0xCF, 0xCF, []), (0xD0, 0xD0, []), (0xD1, 0xD1, []), (0xD2, 0xD2, []), (0xD3, 0xD3, []),
    (0xD4, 0xD4, []), (0xD5, 0xD5, []), (0xD6, 0xD6, []), (0xD7, 0xD7, []), (0xD8, 0xD8, [])]"

definition ctype_table :: "ctype_ent list" where
  "ctype_table = ctype_ascii @ ctype_high @ replicate 39 (0, 0, [])"

definition ctype :: "int \<Rightarrow> ctype_ent" where
  "ctype codepoint = ctype_table ! nat (codepoint mod CTYPE_SIZE)"

definition lower :: "ctype_ent \<Rightarrow> int" where
  "lower e = fst e"

definition upper :: "ctype_ent \<Rightarrow> int" where
  "upper e = fst (snd e)"

definition has_flag :: "ctype_ent \<Rightarrow> ct list \<Rightarrow> bool" where
  "has_flag e fs = list_ex (\<lambda>f. List.member (snd (snd e)) f) fs"

definition isalnum :: "int \<Rightarrow> bool" where
  "isalnum codepoint = (if codepoint < 0 then False else has_flag (ctype codepoint) [CT_UC, CT_LC, CT_DD])"

definition isalpha :: "int \<Rightarrow> bool" where
  "isalpha codepoint = (if codepoint < 0 then False else has_flag (ctype codepoint) [CT_UC, CT_LC])"

definition isblank :: "int \<Rightarrow> bool" where
  "isblank codepoint = (if codepoint < 0 then False else has_flag (ctype codepoint) [CT_BL])"

definition iscntrl :: "int \<Rightarrow> bool" where
  "iscntrl codepoint = (if codepoint < 0 then False else has_flag (ctype codepoint) [CT_CT])"

definition isdigit :: "int \<Rightarrow> bool" where
  "isdigit codepoint = (if codepoint < 0 then False else has_flag (ctype codepoint) [CT_DD])"

definition isgraph :: "int \<Rightarrow> bool" where
  "isgraph codepoint = (if codepoint < 0 then False else has_flag (ctype codepoint) [CT_GR])"

definition islower :: "int \<Rightarrow> bool" where
  "islower codepoint = (if codepoint < 0 then False else has_flag (ctype codepoint) [CT_LC])"

definition isprint :: "int \<Rightarrow> bool" where
  "isprint codepoint = (if codepoint < 0 then False else has_flag (ctype codepoint) [CT_GR, CT_WS])"

definition ispunct :: "int \<Rightarrow> bool" where
  "ispunct codepoint = (if codepoint < 0 then False else has_flag (ctype codepoint) [CT_PT])"

definition isspace :: "int \<Rightarrow> bool" where
  "isspace codepoint = (if codepoint < 0 then False else has_flag (ctype codepoint) [CT_SP])"

definition isupper :: "int \<Rightarrow> bool" where
  "isupper codepoint = (if codepoint < 0 then False else has_flag (ctype codepoint) [CT_UC])"

definition isxdigit :: "int \<Rightarrow> bool" where
  "isxdigit codepoint = (if codepoint < 0 then False else has_flag (ctype codepoint) [CT_XD])"

definition tolower :: "int \<Rightarrow> int" where
  "tolower codepoint = (if codepoint < 0 then codepoint else lower (ctype codepoint))"

definition toupper :: "int \<Rightarrow> int" where
  "toupper codepoint = (if codepoint < 0 then codepoint else upper (ctype codepoint))"

lemmas ctype_defs = isalnum_def isalpha_def isblank_def iscntrl_def isdigit_def isgraph_def islower_def isprint_def
  ispunct_def isspace_def isupper_def isxdigit_def tolower_def toupper_def

subsection \<open>The classes of ASCII\<close>

text \<open>What an entry says of its byte, checked entry by entry.\<close>

definition ent_ok :: "int \<Rightarrow> ctype_ent \<Rightarrow> bool" where
  "ent_ok c e \<longleftrightarrow>
     has_flag e [CT_DD] = (0x30 \<le> c \<and> c \<le> 0x39) \<and> has_flag e [CT_UC] = (0x41 \<le> c \<and> c \<le> 0x5A) \<and>
     has_flag e [CT_LC] = (0x61 \<le> c \<and> c \<le> 0x7A) \<and>
     has_flag e [CT_XD] = (0x30 \<le> c \<and> c \<le> 0x39 \<or> 0x41 \<le> c \<and> c \<le> 0x46 \<or> 0x61 \<le> c \<and> c \<le> 0x66) \<and>
     has_flag e [CT_SP] = (c = 0x20 \<or> 0x09 \<le> c \<and> c \<le> 0x0D) \<and> has_flag e [CT_BL] = (c = 0x20 \<or> c = 0x09) \<and>
     has_flag e [CT_CT] = (c < 0x20 \<or> c = 0x7F) \<and> has_flag e [CT_GR] = (0x21 \<le> c \<and> c \<le> 0x7E) \<and>
     has_flag e [CT_WS] = (c = 0x20) \<and>
     has_flag e [CT_PT] = (0x21 \<le> c \<and> c \<le> 0x7E \<and> \<not> (0x30 \<le> c \<and> c \<le> 0x39) \<and> \<not> (0x41 \<le> c \<and> c \<le> 0x5A) \<and> \<not> (0x61 \<le> c \<and> c \<le> 0x7A)) \<and>
     lower e = (if 0x41 \<le> c \<and> c \<le> 0x5A then c + 0x20 else c) \<and> upper e = (if 0x61 \<le> c \<and> c \<le> 0x7A then c - 0x20 else c)"

lemma ctype_ascii_ok: "list_all (\<lambda>(c, e). ent_ok c e) (zip [0..127] ctype_ascii)"
  by code_simp

lemma ctype_high_ok: "list_all (\<lambda>(c, e). e = (c, c, [])) (zip [128..216] ctype_high)"
  by code_simp

lemma ctype_lengths [simp]: "length ctype_ascii = 128" "length ctype_high = 89"
  by (simp_all add: ctype_ascii_def ctype_high_def)

lemma zip_upto_nth:
  assumes "list_all (\<lambda>(c, e). P c e) (zip [a..b] xs)" "length xs = nat (b - a + 1)" "a \<le> c" "c \<le> b"
  shows "P c (xs ! nat (c - a))"
proof -
  have "(c, xs ! nat (c - a)) \<in> set (zip [a..b] xs)"
    using assms by (auto simp: in_set_zip nth_upto intro!: exI [of _ "nat (c - a)"])
  then show ?thesis
    using assms(1) by (auto simp: list_all_iff)
qed

lemma ctype_ent_ok:
  assumes "0 \<le> c" "c < 0x80"
  shows "ent_ok c (ctype c)"
proof -
  have "nat c < 128"
    using assms by simp
  then show ?thesis
    using zip_upto_nth [OF ctype_ascii_ok, of c] assms by (simp add: ctype_def ctype_table_def nth_append CTYPE_SIZE_def)
qed

lemma ctype_high_ent:
  assumes "0x80 \<le> c" "c \<le> 0xD8"
  shows "ctype c = (c, c, [])"
proof -
  have "nat c - 128 = nat (c - 128)" "\<not> nat c < 128" "nat (c - 128) < 89"
    using assms by simp_all
  then show ?thesis
    using zip_upto_nth [OF ctype_high_ok, of c] assms by (simp add: ctype_def ctype_table_def nth_append CTYPE_SIZE_def)
qed

lemma ctype_past_table:
  assumes "0xD9 \<le> c" "c \<le> 0xFF"
  shows "ctype c = (0, 0, [])"
proof -
  have "nat c - 128 - 89 < 39" "\<not> nat c < 128" "\<not> nat c - 128 < 89"
    using assms by auto
  then show ?thesis
    using assms by (simp add: ctype_def ctype_table_def nth_append CTYPE_SIZE_def)
qed

lemma has_flag_Cons: "has_flag e (f # g # fs) = (has_flag e [f] \<or> has_flag e (g # fs))"
  by (simp add: has_flag_def)

text \<open>The entry of an ASCII byte in terms of the functions.\<close>

lemma ascii_ok:
  assumes "0 \<le> c" "c < 0x80"
  shows "isdigit c = (0x30 \<le> c \<and> c \<le> 0x39)" "isupper c = (0x41 \<le> c \<and> c \<le> 0x5A)" "islower c = (0x61 \<le> c \<and> c \<le> 0x7A)"
    "isalpha c = (isupper c \<or> islower c)" "isalnum c = (isupper c \<or> islower c \<or> isdigit c)"
    "isxdigit c = (0x30 \<le> c \<and> c \<le> 0x39 \<or> 0x41 \<le> c \<and> c \<le> 0x46 \<or> 0x61 \<le> c \<and> c \<le> 0x66)"
    "isspace c = (c = 0x20 \<or> 0x09 \<le> c \<and> c \<le> 0x0D)" "isblank c = (c = 0x20 \<or> c = 0x09)"
    "iscntrl c = (c < 0x20 \<or> c = 0x7F)" "isgraph c = (0x21 \<le> c \<and> c \<le> 0x7E)" "isprint c = (isgraph c \<or> c = 0x20)"
    "ispunct c = (isgraph c \<and> \<not> isalnum c)"
    "tolower c = (if isupper c then c + 0x20 else c)" "toupper c = (if islower c then c - 0x20 else c)"
  using ctype_ent_ok [OF assms] assms by (simp_all add: ent_ok_def ctype_defs has_flag_Cons) blast+

text \<open>
  on ASCII every class function decides exactly the class of the C locale and the case
  conversions exchange the letters and keep everything else.
\<close>

theorem ctype_ascii_classes:
  assumes "0 \<le> c" "c < 0x80"
  shows "(isdigit c \<longleftrightarrow> 0x30 \<le> c \<and> c \<le> 0x39) \<and> (isalpha c \<longleftrightarrow> 0x41 \<le> c \<and> c \<le> 0x5A \<or> 0x61 \<le> c \<and> c \<le> 0x7A) \<and>
    (isalnum c \<longleftrightarrow> isalpha c \<or> isdigit c) \<and> (isgraph c \<longleftrightarrow> isalnum c \<or> ispunct c) \<and> (isprint c \<longleftrightarrow> isgraph c \<or> c = 0x20) \<and>
    (iscntrl c \<longleftrightarrow> \<not> isprint c) \<and> (isspace c \<longleftrightarrow> c = 0x20 \<or> 0x09 \<le> c \<and> c \<le> 0x0D) \<and>
    (isxdigit c \<longleftrightarrow> isdigit c \<or> 0x41 \<le> c \<and> c \<le> 0x46 \<or> 0x61 \<le> c \<and> c \<le> 0x66) \<and>
    tolower (toupper c) = tolower c \<and> toupper (tolower c) = toupper c \<and> (isalpha c \<or> tolower c = c \<and> toupper c = c)"
proof -
  note ok = ascii_ok [OF assms]
  consider (up) "0x41 \<le> c" "c \<le> 0x5A" | (lo) "0x61 \<le> c" "c \<le> 0x7A"
    | (other) "\<not> (0x41 \<le> c \<and> c \<le> 0x5A)" "\<not> (0x61 \<le> c \<and> c \<le> 0x7A)"
    by linarith
  then have "tolower (toupper c) = tolower c \<and> toupper (tolower c) = toupper c"
  proof cases
    case up
    then have "toupper c = c" "tolower c = c + 0x20"
      using ok(2,3,13,14) by simp_all
    then show ?thesis
      using up ascii_ok(3,14) [of "c + 0x20"] by simp
  next
    case lo
    then have "toupper c = c - 0x20" "tolower c = c"
      using ok(2,3,13,14) by simp_all
    then show ?thesis
      using lo ascii_ok(2,13) [of "c - 0x20"] by simp
  next
    case other
    then have "toupper c = c" "tolower c = c"
      using ok(2,3,13,14) by simp_all
    then show ?thesis by simp
  qed
  moreover have "iscntrl c \<longleftrightarrow> \<not> isprint c" "isgraph c \<longleftrightarrow> isalnum c \<or> ispunct c"
    unfolding ascii_ok(9,10,11,12,5,1,2,3) [OF assms] using assms by auto
  moreover have "isalpha c \<or> tolower c = c \<and> toupper c = c"
    using ok(4,13,14) by simp
  ultimately show ?thesis
    using ok(1-7,11) by blast
qed

theorem ctype_ascii_classes_witness: "isalpha 0x51 \<and> tolower (toupper 0x51) = tolower 0x51 \<and> isgraph 0x51"
  using ctype_ascii_classes [of "0x51"] by simp

text \<open>
  the table ends at 0xD8: the case conversions map every byte from 0xD9 up to zero instead
  of keeping it, so two different strings of such bytes fold to the same one.
\<close>

theorem tolower_past_table: "(\<forall>c\<in>{0xD9..0xFF}. tolower c = 0 \<and> toupper c = 0) \<and> (\<forall>c\<in>{0x80..0xD8}. tolower c = c \<and> toupper c = c)"
  by (simp add: tolower_def toupper_def ctype_past_table ctype_high_ent lower_def upper_def)

theorem tolower_past_table_witness: "tolower 0xE9 = tolower 0xE8"
  using tolower_past_table by simp

end
