(* ===== verification/Cstring.thy ===== *)
theory Cstring
  imports Ctype "HOL-Library.List_Lexorder" "HOL-Library.Sublist"
begin

text \<open>
  Byte and string functions, \<^verbatim>\<open>kernel/libk/string.c\<close> and \<^verbatim>\<open>kernel/libk/strings.c\<close>. A pointer into
  a buffer is the list of the bytes from there to the end of the buffer, so reading or
  writing through a pointer at the end of its buffer is the empty list. Every function
  returns an option: None is an access outside the buffer. A function that writes returns
  the new contents of the destination from the pointer on; a function that returns a pointer
  returns its distance from the argument. \<open>char\<close> is signed.
\<close>

definition chr_val :: "u8 \<Rightarrow> int" where
  "chr_val c = sint c"

fun memchr :: "u8 list \<Rightarrow> int \<Rightarrow> nat \<Rightarrow> nat option option" where
  "memchr buf chr 0 = Some None"
| "memchr [] chr (Suc n) = None"
| "memchr (b # bs) chr (Suc n) =
     (if uint b = chr then Some (Some 0) else map_option (map_option Suc) (memchr bs chr n))"

fun memcmp :: "u8 list \<Rightarrow> u8 list \<Rightarrow> nat \<Rightarrow> int option" where
  "memcmp ba bb 0 = Some 0"
| "memcmp (a # as) (b # bs) (Suc n) = (if a \<noteq> b then Some (uint a - uint b) else memcmp as bs n)"
| "memcmp _ _ (Suc n) = None"

fun memcpy :: "u8 list \<Rightarrow> u8 list \<Rightarrow> nat \<Rightarrow> u8 list option" where
  "memcpy dst src 0 = Some dst"
| "memcpy (d # ds) (s # ss) (Suc n) = map_option ((#) s) (memcpy ds ss n)"
| "memcpy _ _ (Suc n) = None"

text \<open>The two loops of \<^verbatim>\<open>memmove\<close>, in one memory, at byte positions.\<close>

fun move_up :: "u8 list \<Rightarrow> nat \<Rightarrow> nat \<Rightarrow> nat \<Rightarrow> u8 list" where
  "move_up mem dp sp 0 = mem"
| "move_up mem dp sp (Suc n) = move_up (mem[dp := mem ! sp]) (dp + 1) (sp + 1) n"

fun move_down :: "u8 list \<Rightarrow> nat \<Rightarrow> nat \<Rightarrow> nat \<Rightarrow> u8 list" where
  "move_down mem dp sp 0 = mem"
| "move_down mem dp sp (Suc n) = move_down (mem[dp + n := mem ! (sp + n)]) dp sp n"

definition memmove :: "u8 list \<Rightarrow> nat \<Rightarrow> nat \<Rightarrow> nat \<Rightarrow> u8 list" where
  "memmove mem dst src n =
     (if dst < src then move_up mem dst src n
      else if dst > src then move_down mem dst src n
      else mem)"

fun memset :: "u8 list \<Rightarrow> u8 \<Rightarrow> nat \<Rightarrow> u8 list option" where
  "memset dst chr 0 = Some dst"
| "memset [] chr (Suc n) = None"
| "memset (d # ds) chr (Suc n) = map_option ((#) chr) (memset ds chr n)"

fun strcpy :: "u8 list \<Rightarrow> u8 list \<Rightarrow> u8 list option" where
  "strcpy (d # ds) (c # cs) = (if c = 0 then Some (c # ds) else map_option ((#) c) (strcpy ds cs))"
| "strcpy _ _ = None"

fun strcat :: "u8 list \<Rightarrow> u8 list \<Rightarrow> u8 list option" where
  "strcat [] src = None"
| "strcat (d # ds) src = (if d = 0 then strcpy (d # ds) src else map_option ((#) d) (strcat ds src))"

fun strchr :: "u8 list \<Rightarrow> int \<Rightarrow> nat option option" where
  "strchr [] chr = None"
| "strchr (c # cs) chr =
     (if chr_val c = chr then Some (Some 0)
      else if c = 0 then Some None
      else map_option (map_option Suc) (strchr cs chr))"

fun strcmp :: "u8 list \<Rightarrow> u8 list \<Rightarrow> int option" where
  "strcmp (a # as) (b # bs) = (if a \<noteq> 0 \<and> a = b then strcmp as bs else Some (chr_val a - chr_val b))"
| "strcmp _ _ = None"

fun strcspn :: "u8 list \<Rightarrow> u8 list \<Rightarrow> nat option" where
  "strcspn [] syms = None"
| "strcspn (c # cs) syms =
     (if c = 0 then Some 0
      else case strchr syms (chr_val c) of
             None \<Rightarrow> None
           | Some (Some _) \<Rightarrow> Some 0
           | Some None \<Rightarrow> map_option Suc (strcspn cs syms))"

fun strlen :: "u8 list \<Rightarrow> nat option" where
  "strlen [] = None"
| "strlen (c # cs) = (if c = 0 then Some 0 else map_option Suc (strlen cs))"

fun strncat_copy :: "u8 list \<Rightarrow> u8 list \<Rightarrow> nat \<Rightarrow> u8 list option" where
  "strncat_copy [] src 0 = None"
| "strncat_copy (d # ds) src 0 = Some (0 # ds)"
| "strncat_copy (d # ds) (c # cs) (Suc n) = (if c = 0 then Some (c # ds) else map_option ((#) c) (strncat_copy ds cs n))"
| "strncat_copy _ _ (Suc n) = None"

fun strncat :: "u8 list \<Rightarrow> u8 list \<Rightarrow> nat \<Rightarrow> u8 list option" where
  "strncat [] src n = None"
| "strncat (d # ds) src n = (if d = 0 then strncat_copy (d # ds) src n else map_option ((#) d) (strncat ds src n))"

fun strncmp :: "u8 list \<Rightarrow> u8 list \<Rightarrow> nat \<Rightarrow> int option" where
  "strncmp sa sb 0 = Some 0"
| "strncmp (a # as) (b # bs) (Suc n) = (if a \<noteq> 0 \<and> a = b then strncmp as bs n else Some (chr_val a - chr_val b))"
| "strncmp _ _ (Suc n) = None"

text \<open>After the terminator is copied, \<^verbatim>\<open>strncpy\<close> fills the rest of the \<open>n\<close> bytes with zeros.\<close>

fun strncpy :: "u8 list \<Rightarrow> u8 list \<Rightarrow> nat \<Rightarrow> u8 list option" where
  "strncpy dst src 0 = Some dst"
| "strncpy (d # ds) (c # cs) (Suc n) =
     (if c = 0 then map_option ((#) c) (memset ds 0 n) else map_option ((#) c) (strncpy ds cs n))"
| "strncpy _ _ (Suc n) = None"

text \<open>The loop of \<^verbatim>\<open>strnlen\<close> reads the byte before it compares the index with the size.\<close>

fun strnlen_from :: "u8 list \<Rightarrow> nat \<Rightarrow> nat \<Rightarrow> nat option" where
  "strnlen_from [] i n = None"
| "strnlen_from (c # cs) i n = (if c \<noteq> 0 \<and> i < n then strnlen_from cs (i + 1) n else Some i)"

definition strnlen :: "u8 list \<Rightarrow> nat \<Rightarrow> nat option" where
  "strnlen str n = strnlen_from str 0 n"

fun strpbrk :: "u8 list \<Rightarrow> u8 list \<Rightarrow> nat option option" where
  "strpbrk [] syms = None"
| "strpbrk (c # cs) syms =
     (if c = 0 then Some None
      else case strchr syms (chr_val c) of
             None \<Rightarrow> None
           | Some (Some _) \<Rightarrow> Some (Some 0)
           | Some None \<Rightarrow> map_option (map_option Suc) (strpbrk cs syms))"

fun strrchr_from :: "u8 list \<Rightarrow> int \<Rightarrow> nat \<Rightarrow> nat option \<Rightarrow> nat option option" where
  "strrchr_from [] chr i cp = None"
| "strrchr_from (c # cs) chr i cp =
     (let cp = (if chr_val c = chr then Some i else cp)
      in if c = 0 then Some cp else strrchr_from cs chr (i + 1) cp)"

definition strrchr :: "u8 list \<Rightarrow> int \<Rightarrow> nat option option" where
  "strrchr str chr = strrchr_from str chr 0 None"

fun strspn :: "u8 list \<Rightarrow> u8 list \<Rightarrow> nat option" where
  "strspn [] syms = None"
| "strspn (c # cs) syms =
     (if c = 0 then Some 0
      else case strchr syms (chr_val c) of
             None \<Rightarrow> None
           | Some None \<Rightarrow> Some 0
           | Some (Some _) \<Rightarrow> map_option Suc (strspn cs syms))"

text \<open>The inner loop of \<^verbatim>\<open>strstr\<close>: whether the substring is used up.\<close>

fun strstr_match :: "u8 list \<Rightarrow> u8 list \<Rightarrow> bool option" where
  "strstr_match ap [] = None"
| "strstr_match ap (b # bp) =
     (if b = 0 then Some True
      else case ap of [] \<Rightarrow> None | a # ap \<Rightarrow> if a = b then strstr_match ap bp else Some False)"

fun strstr :: "u8 list \<Rightarrow> u8 list \<Rightarrow> nat option option" where
  "strstr [] substr = None"
| "strstr (c # cs) substr =
     (if c = 0 then Some None
      else case strstr_match (c # cs) substr of
             None \<Rightarrow> None
           | Some True \<Rightarrow> Some (Some 0)
           | Some False \<Rightarrow> map_option (map_option Suc) (strstr cs substr))"

text \<open>The size of \<^verbatim>\<open>kstrncpy\<close> and \<^verbatim>\<open>kstrncat\<close> wraps when the loop condition decrements it at zero.\<close>

fun kstrncpy :: "u8 list \<Rightarrow> u8 list \<Rightarrow> u64 \<Rightarrow> u8 list option" where
  "kstrncpy dst [] n = None"
| "kstrncpy dst (c # cs) n =
     (let done = (\<lambda>n. if n \<noteq> 0 then (case dst of [] \<Rightarrow> None | d # ds \<Rightarrow> Some (0 # ds)) else Some dst)
      in if c = 0 then done n
         else if n = 0 then done (n - 1)
         else case dst of [] \<Rightarrow> None | d # ds \<Rightarrow> map_option ((#) c) (kstrncpy ds cs (n - 1)))"

fun kstrncat :: "u8 list \<Rightarrow> u8 list \<Rightarrow> u64 \<Rightarrow> u8 list option" where
  "kstrncat [] src n = None"
| "kstrncat (d # ds) src n =
     (let append = (\<lambda>dst n. case strnlen src (unat (n - 1)) of
                        None \<Rightarrow> None
                      | Some nc \<Rightarrow> if nc < length dst then memcpy (dst[nc := 0]) src nc else None)
      in if d = 0 then append (d # ds) n
         else if n = 0 then append (d # ds) (n - 1)
         else map_option ((#) d) (kstrncat ds src (n - 1)))"

fun strcasecmp :: "u8 list \<Rightarrow> u8 list \<Rightarrow> int option" where
  "strcasecmp (a # as) (b # bs) =
     (if a \<noteq> 0 \<and> tolower (chr_val a) = tolower (chr_val b) then strcasecmp as bs
      else Some (tolower (uint a) - tolower (uint b)))"
| "strcasecmp _ _ = None"

fun strncasecmp :: "u8 list \<Rightarrow> u8 list \<Rightarrow> nat \<Rightarrow> int option" where
  "strncasecmp sa sb 0 = Some 0"
| "strncasecmp (a # as) (b # bs) (Suc n) =
     (if a \<noteq> 0 \<and> tolower (chr_val a) = tolower (chr_val b) then strncasecmp as bs n
      else Some (tolower (chr_val a) - tolower (chr_val b)))"
| "strncasecmp _ _ (Suc n) = None"


subsection \<open>Moving bytes\<close>

lemma length_move [simp]:
  "length (move_up mem dp sp n) = length mem" "length (move_down mem dp sp n) = length mem"
  by (induction n arbitrary: mem dp sp) simp_all

lemma move_up_nth:
  "dp < sp \<Longrightarrow> sp + n \<le> length mem \<Longrightarrow> i < length mem \<Longrightarrow>
    move_up mem dp sp n ! i = (if dp \<le> i \<and> i < dp + n then mem ! (sp + (i - dp)) else mem ! i)"
proof (induction n arbitrary: mem dp sp)
  case (Suc n)
  have "move_up mem dp sp (Suc n) ! i =
      (if dp + 1 \<le> i \<and> i < dp + 1 + n then mem[dp := mem ! sp] ! (sp + 1 + (i - (dp + 1))) else mem[dp := mem ! sp] ! i)"
    using Suc.prems Suc.IH [of "dp + 1" "sp + 1" "mem[dp := mem ! sp]"] by simp
  then show ?case
    using Suc.prems by (auto simp: nth_list_update le_less_Suc_eq Suc_diff_Suc)
qed auto

lemma move_down_nth:
  "sp < dp \<Longrightarrow> dp + n \<le> length mem \<Longrightarrow> i < length mem \<Longrightarrow>
    move_down mem dp sp n ! i = (if dp \<le> i \<and> i < dp + n then mem ! (sp + (i - dp)) else mem ! i)"
proof (induction n arbitrary: mem)
  case (Suc n)
  have "move_down mem dp sp (Suc n) ! i =
      (if dp \<le> i \<and> i < dp + n then mem[dp + n := mem ! (sp + n)] ! (sp + (i - dp)) else mem[dp + n := mem ! (sp + n)] ! i)"
    using Suc.prems Suc.IH [of "mem[dp + n := mem ! (sp + n)]"] by simp
  then show ?case
    using Suc.prems by (auto simp: nth_list_update less_Suc_eq)
qed auto

text \<open>
  C29: \<^verbatim>\<open>memmove\<close> moves the bytes as they were before the call, however the two ranges overlap,
  and changes nothing else.
\<close>

theorem memmove_correct:
  assumes "dst + n \<le> length mem" "src + n \<le> length mem"
  shows "memmove mem dst src n = take dst mem @ take n (drop src mem) @ drop (dst + n) mem"
proof (rule nth_equalityI)
  show "length (memmove mem dst src n) = length (take dst mem @ take n (drop src mem) @ drop (dst + n) mem)"
    using assms by (simp add: memmove_def)
  fix i
  assume "i < length (memmove mem dst src n)"
  then have i: "i < length mem"
    by (simp add: memmove_def split: if_splits)
  have "memmove mem dst src n ! i = (if dst \<le> i \<and> i < dst + n then mem ! (src + (i - dst)) else mem ! i)"
    using i assms by (simp add: memmove_def move_up_nth move_down_nth)
  then show "memmove mem dst src n ! i = (take dst mem @ take n (drop src mem) @ drop (dst + n) mem) ! i"
    using i assms by (auto simp: nth_append)
qed

theorem memmove_correct_witness: "memmove [1, 2, 3, 4, 5] 1 0 3 = [1, 1, 2, 3, 5]"
  using memmove_correct [of 1 3 "[1, 2, 3, 4, 5]" 0] by simp

subsection \<open>Terminated strings\<close>

lemma strlen_cstr: "0 \<notin> set xs \<Longrightarrow> strlen (xs @ 0 # r) = Some (length xs)"
  by (induction xs) auto

lemma strcpy_cstr:
  "0 \<notin> set xs \<Longrightarrow> length xs < length dst \<Longrightarrow> strcpy dst (xs @ 0 # r) = Some (xs @ 0 # drop (length xs + 1) dst)"
proof (induction xs arbitrary: dst)
  case Nil
  then show ?case by (cases dst) auto
next
  case (Cons x xs)
  then show ?case by (cases dst) auto
qed

lemma strcat_cstr:
  "0 \<notin> set ys \<Longrightarrow> 0 \<notin> set xs \<Longrightarrow> length xs \<le> length d \<Longrightarrow>
    strcat (ys @ 0 # d) (xs @ 0 # r) = Some (ys @ xs @ 0 # drop (length xs) d)"
  by (induction ys) (auto simp: strcpy_cstr)

lemma sint_u8_eq: "chr_val a = chr_val b \<longleftrightarrow> a = b"
  by (auto simp: chr_val_def intro: signed_word_eqI)

lemma chr_val_0 [simp]: "chr_val 0 = 0" "chr_val a = 0 \<longleftrightarrow> a = 0"
  using sint_u8_eq [of a 0] by (simp_all add: chr_val_def)

lemma strcmp_cstr:
  "0 \<notin> set xs \<Longrightarrow> 0 \<notin> set ys \<Longrightarrow> \<exists>r. strcmp (xs @ 0 # a) (ys @ 0 # b) = Some r \<and> (r = 0 \<longleftrightarrow> xs = ys) \<and>
    (r < 0 \<longleftrightarrow> map chr_val (xs @ [0]) < map chr_val (ys @ [0]))"
proof (induction xs arbitrary: ys)
  case Nil
  then show ?case
    by (cases ys) (auto simp: sint_u8_eq)
next
  case (Cons x xs)
  then show ?case
  proof (cases ys)
    case Nil
    then show ?thesis using Cons.prems by auto
  next
    case (Cons y ys')
    then show ?thesis
      using Cons.IH [of ys'] Cons.prems \<open>0 \<notin> set ys\<close> sint_u8_eq [of x y] by (cases "x = y") auto
  qed
qed


lemma strncmp_cstr:
  "0 \<notin> set xs \<Longrightarrow> 0 \<notin> set ys \<Longrightarrow>
    \<exists>r. strncmp (xs @ 0 # a) (ys @ 0 # b) n = Some r \<and> (r = 0 \<longleftrightarrow> take n xs = take n ys)"
proof (induction n arbitrary: xs ys)
  case (Suc n)
  consider "xs = []" | "ys = []" | x xs' y ys' where "xs = x # xs'" "ys = y # ys'"
    by (meson neq_Nil_conv)
  then show ?case
  proof cases
    case 1
    then show ?thesis using Suc.prems by (cases ys) auto
  next
    case 2
    then show ?thesis using Suc.prems by (cases xs) auto
  next
    case 3
    then show ?thesis
      using Suc.IH [of xs' ys'] Suc.prems sint_u8_eq [of x y] by (cases "x = y") auto
  qed
qed auto

text \<open>
  \<^verbatim>\<open>strcmp\<close> of two terminated strings stays inside them, is zero exactly for equal strings, and
  is negative exactly when the first string, its terminator included, comes first in the
  lexicographic order of signed characters; \<^verbatim>\<open>strncmp\<close> decides equality of the first \<open>n\<close> bytes.
\<close>

theorem strcmp_correct:
  assumes "0 \<notin> set xs" "0 \<notin> set ys"
  shows "(\<exists>r. strcmp (xs @ 0 # a) (ys @ 0 # b) = Some r \<and> (r = 0 \<longleftrightarrow> xs = ys) \<and>
      (r < 0 \<longleftrightarrow> map chr_val (xs @ [0]) < map chr_val (ys @ [0]))) \<and>
    (\<exists>r. strncmp (xs @ 0 # a) (ys @ 0 # b) n = Some r \<and> (r = 0 \<longleftrightarrow> take n xs = take n ys))"
  using strcmp_cstr [OF assms] strncmp_cstr [OF assms] by blast

theorem strcmp_correct_witness: "\<exists>r. strcmp ([0x61, 0x62] @ 0 # []) ([0x61, 0x63] @ 0 # []) = Some r \<and> r \<noteq> 0"
  using strcmp_correct [of "[0x61, 0x62]" "[0x61, 0x63]" "[]" "[]"] by auto

lemma strstr_match_cstr:
  "0 \<notin> set xs \<Longrightarrow> 0 \<notin> set ys \<Longrightarrow> strstr_match (xs @ 0 # a) (ys @ 0 # b) = Some (prefix ys xs)"
proof (induction ys arbitrary: xs)
  case (Cons y ys)
  then show ?case by (cases xs) auto
qed simp

text \<open>
  \<^verbatim>\<open>strstr\<close> in a terminated string that is not empty finds the first place where the substring
  occurs, and nothing when it occurs nowhere.
\<close>

theorem strstr_first:
  assumes "0 \<notin> set xs" "0 \<notin> set ys" "ys \<noteq> []"
  shows "case strstr (xs @ 0 # a) (ys @ 0 # b) of
      None \<Rightarrow> False
    | Some None \<Rightarrow> \<not> sublist ys xs
    | Some (Some i) \<Rightarrow> prefix ys (drop i xs) \<and> (\<forall>j < i. \<not> prefix ys (drop j xs))"
  using assms(1)
proof (induction xs)
  case Nil
  then show ?case using assms by simp
next
  case (Cons x xs)
  have m: "strstr_match (x # xs @ 0 # a) (ys @ 0 # b) = Some (prefix ys (x # xs))"
    using strstr_match_cstr [of "x # xs" ys a b] Cons.prems assms by simp
  show ?case
  proof (cases "prefix ys (x # xs)")
    case True
    then show ?thesis using m Cons.prems by simp
  next
    case False
    have IH: "case strstr (xs @ 0 # a) (ys @ 0 # b) of None \<Rightarrow> False | Some None \<Rightarrow> \<not> sublist ys xs
        | Some (Some i) \<Rightarrow> prefix ys (drop i xs) \<and> (\<forall>j < i. \<not> prefix ys (drop j xs))"
      using Cons by simp
    then show ?thesis
      using m False Cons.prems
      by (auto simp: sublist_Cons_right less_Suc_eq_0_disj split: option.splits)
  qed
qed

theorem strstr_first_witness: "strstr ([0x61, 0x62, 0x63] @ 0 # []) ([0x62] @ 0 # []) = Some (Some 1)"
proof -
  have "strstr ([0x61, 0x62, 0x63] @ 0 # []) ([0x62] @ 0 # []) \<noteq> None"
    "strstr ([0x61, 0x62, 0x63] @ 0 # []) ([0x62] @ 0 # []) \<noteq> Some None"
    using strstr_first [of "[0x61, 0x62, 0x63]" "[0x62]" "[]" "[]"] by (auto split: option.splits)
  then show ?thesis
    by simp
qed

subsection \<open>Bounded copies\<close>

lemma strnlen_from_cstr: "0 \<notin> set xs \<Longrightarrow> i \<le> n \<Longrightarrow> strnlen_from (xs @ 0 # r) i n = Some (min (i + length xs) n)"
  by (induction xs arbitrary: i) (auto simp: min_def)

lemma strnlen_from_full: "0 \<notin> set xs \<Longrightarrow> i + length xs \<le> n \<Longrightarrow> strnlen_from xs i n = None"
  by (induction xs arbitrary: i) auto

text \<open>
  \<^verbatim>\<open>strnlen\<close> of a terminated string is the smaller of its length and the bound; but in a buffer
  of exactly \<open>n\<close> bytes without a terminator it reads the byte past the end, as it looks at a
  byte before it checks the bound.
\<close>

theorem strnlen_overread:
  "(0 \<notin> set xs \<longrightarrow> strnlen (xs @ 0 # r) n = Some (min (length xs) n)) \<and>
   (0 \<notin> set xs \<and> length xs = n \<longrightarrow> strnlen xs n = None)"
  by (simp add: strnlen_def strnlen_from_cstr strnlen_from_full)

theorem strnlen_overread_witness: "strnlen [0x61, 0x62] 2 = None \<and> strnlen [0x61, 0, 0x62] 2 = Some 1"
  using strnlen_overread [of "[0x61, 0x62]" "[]" 2] strnlen_overread [of "[0x61]" "[0x62]" 2] by simp

lemma unat_Suc_pred: "n \<noteq> 0 \<Longrightarrow> unat n = Suc (unat (n - 1))" for n :: u64
  by (simp add: unat_minus_one unat_gt_0)

lemma kstrncpy_fits:
  "0 \<notin> set xs \<Longrightarrow> length xs < unat n \<Longrightarrow> length xs < length dst \<Longrightarrow>
    kstrncpy dst (xs @ 0 # r) n = Some (xs @ 0 # drop (length xs + 1) dst)"
proof (induction xs arbitrary: dst n)
  case Nil
  then show ?case by (cases dst) auto
next
  case (Cons x xs)
  have "n \<noteq> 0"
    using Cons.prems by auto
  moreover from unat_Suc_pred [OF this] have "length xs < unat (n - 1)"
    using Cons.prems by simp
  ultimately show ?case
    using Cons unat_Suc_pred [of n] by (cases dst) auto
qed

lemma kstrncpy_exact:
  "0 \<notin> set xs \<Longrightarrow> length xs = unat n \<Longrightarrow> length dst = unat n \<Longrightarrow> kstrncpy dst (xs @ 0 # r) n = Some xs"
proof (induction xs arbitrary: dst n)
  case Nil
  then show ?case by (simp add: unat_eq_0)
next
  case (Cons x xs)
  have "n \<noteq> 0"
    using Cons.prems by auto
  moreover from unat_Suc_pred [OF this] have "length xs = unat (n - 1)"
    using Cons.prems by simp
  ultimately show ?case
    using Cons unat_Suc_pred [of n] by (cases dst) auto
qed

lemma kstrncpy_long:
  "0 \<notin> set xs \<Longrightarrow> unat n < length xs \<Longrightarrow> length dst = unat n \<Longrightarrow> kstrncpy dst (xs @ 0 # r) n = None"
proof (induction xs arbitrary: dst n)
  case (Cons x xs)
  show ?case
  proof (cases "n = 0")
    case True
    then show ?thesis using Cons.prems by simp
  next
    case False
    then have "unat (n - 1) < length xs" "unat n = Suc (unat (n - 1))"
      using Cons.prems unat_Suc_pred [of n] by auto
    then show ?thesis
      using Cons False by (cases dst) auto
  qed
qed simp

text \<open>
  C28: what \<^verbatim>\<open>kstrncpy\<close> leaves in a buffer of exactly the size it is given. A shorter string is
  copied with its terminator; a string of just that length is copied without one; for a
  longer string the size wraps in the loop condition and the terminator is written past the
  end of the buffer.
\<close>

theorem kstrncpy_outcome:
  assumes "0 \<notin> set xs" "length dst = unat n"
  shows "kstrncpy dst (xs @ 0 # r) n =
    (if length xs < unat n then Some (xs @ 0 # drop (length xs + 1) dst)
     else if length xs = unat n then Some xs
     else None)"
  using assms kstrncpy_fits [of xs n dst r] kstrncpy_exact [of xs n dst r] kstrncpy_long [of xs n dst r]
  by (simp add: not_less)

theorem kstrncpy_outcome_witness:
  "kstrncpy [9, 9, 9] ([1, 2, 3, 4] @ 0 # []) 3 = None \<and> kstrncpy [9, 9, 9] ([1] @ 0 # []) 3 = Some [1, 0, 9]"
  using kstrncpy_outcome [of "[1, 2, 3, 4]" "[9, 9, 9]" 3 "[]"] kstrncpy_outcome [of "[1]" "[9, 9, 9]" 3 "[]"] by simp

end
