(* ===== verification/Strtol.thy ===== *)
theory Strtol
  imports Cstring "HOL-Library.Signed_Division"
begin

text \<open>
  Integer parsing, the two macros of \<^verbatim>\<open>kernel/libk/stdlib.c\<close> that define \<^verbatim>\<open>strtol\<close> and its family. A
  pointer is the list of bytes from it on, as in \<^verbatim>\<open>Cstring\<close>, and None is a read outside the
  buffer. The result is the value and the pointer stored through \<^verbatim>\<open>endptr\<close>. The limits are
  computed with C's division, which rounds toward zero (\<open>sdiv\<close>, \<open>smod\<close>). The guard of the loop
  keeps the accumulator inside its type, so it is an \<open>int\<close>.
\<close>

definition digits :: "u8 list" where
  "digits = map word_of_int ([48..57] @ [97..122])"

definition read_chr :: "u8 list \<Rightarrow> (int \<times> u8 list) option" where
  "read_chr p = (case p of [] \<Rightarrow> None | c # p \<Rightarrow> Some (chr_val c, p))"

text \<open>The index of a digit in the table, which is its value.\<close>

definition digit_of :: "int \<Rightarrow> int \<Rightarrow> int option" where
  "digit_of chr base = (case memchr digits (tolower chr) (nat base) of Some (Some i) \<Rightarrow> Some (int i) | _ \<Rightarrow> None)"

fun skip_spaces :: "u8 list \<Rightarrow> (int \<times> u8 list) option" where
  "skip_spaces [] = None"
| "skip_spaces (c # p) = (if isspace (chr_val c) then skip_spaces p else Some (chr_val c, p))"

definition read_sign :: "int \<Rightarrow> u8 list \<Rightarrow> (bool \<times> int \<times> u8 list) option" where
  "read_sign chr p =
     (if chr = 0x2D then map_option (\<lambda>(chr, p). (True, chr, p)) (read_chr p)
      else if chr = 0x2B then map_option (\<lambda>(chr, p). (False, chr, p)) (read_chr p)
      else Some (False, chr, p))"

text \<open>
  The base prefix. \<open>p\<close> points after the character \<open>chr\<close>; after a prefix the next character is
  read behind it.
\<close>

definition read_base :: "int \<Rightarrow> int \<Rightarrow> u8 list \<Rightarrow> (int \<times> int \<times> u8 list) option" where
  "read_base base chr p =
     (if chr = 0x30 then
        case p of
          [] \<Rightarrow> None
        | n # q \<Rightarrow>
            if (base = 0 \<or> base = 2) \<and> (n = 0x42 \<or> n = 0x62) then map_option (\<lambda>(chr, q). (2, chr, q)) (read_chr q)
            else if (base = 0 \<or> base = 16) \<and> (n = 0x58 \<or> n = 0x78) then map_option (\<lambda>(chr, q). (16, chr, q)) (read_chr q)
            else if base = 0 then Some (8, chr, p)
            else Some (base, chr, p)
      else if base = 0 then Some (10, chr, p)
      else Some (base, chr, p))"

definition clamp_base :: "int \<Rightarrow> int" where
  "clamp_base base = (let base = (if base < 2 then 2 else base) in if base > 36 then 36 else base)"

text \<open>
  The loop after an overflow: the pointer is advanced, then the character under it is read,
  as long as it is a digit.
\<close>

fun skip_digits :: "int \<Rightarrow> u8 list \<Rightarrow> u8 list option" where
  "skip_digits base [] = None"
| "skip_digits base [c] = None"
| "skip_digits base (c # d # p) =
     (if digit_of (chr_val d) base \<noteq> None then skip_digits base (d # p) else Some (d # p))"

text \<open>
  The main loop. \<open>chr\<close> is the character before \<open>p\<close>; the result is Inl the pointer after an
  overflow, or Inr the value and the pointer to the first character that is no digit.
\<close>

fun accumulate :: "int \<Rightarrow> int \<Rightarrow> int \<Rightarrow> u8 list \<Rightarrow> int \<Rightarrow> (u8 list + int \<times> u8 list) option" where
  "accumulate base limit limdigit [] accum = None"
| "accumulate base limit limdigit (c # p) accum =
     (case digit_of (chr_val c) base of
        None \<Rightarrow> Some (Inr (accum, c # p))
      | Some d \<Rightarrow>
          if accum < limit \<or> (accum = limit \<and> d < limdigit) then accumulate base limit limdigit p (accum * base + d)
          else map_option Inl (skip_digits base p))"

text \<open>
  The head of the function, up to the loop: the sign, the base and the pointer to the
  character the loop starts with.
\<close>

definition strto_head :: "u8 list \<Rightarrow> int \<Rightarrow> (bool \<times> int \<times> u8 list) option" where
  "strto_head nptr base =
     (case skip_spaces nptr of None \<Rightarrow> None | Some (chr, p) \<Rightarrow>
      case read_sign chr p of None \<Rightarrow> None | Some (neg, chr, p) \<Rightarrow>
      case read_base base chr p of None \<Rightarrow> None | Some (base, chr, p) \<Rightarrow>
        Some (neg, clamp_base base, word_of_int chr # p))"

definition strtoint :: "int \<Rightarrow> int \<Rightarrow> u8 list \<Rightarrow> int \<Rightarrow> (int \<times> u8 list) option" where
  "strtoint max_value min_value nptr base =
     (case strto_head nptr base of None \<Rightarrow> None | Some (neg, base, p) \<Rightarrow>
        let limdigit = (if neg then min_value smod - base else max_value smod base);
            limit = (if neg then min_value sdiv - base else max_value sdiv base)
        in case accumulate base limit limdigit p 0 of
             None \<Rightarrow> None
           | Some (Inl q) \<Rightarrow> Some (if neg then min_value else max_value, q)
           | Some (Inr (accum, q)) \<Rightarrow> Some (if neg then - accum else accum, q))"

definition strtouint :: "int \<Rightarrow> u8 list \<Rightarrow> int \<Rightarrow> (int \<times> u8 list) option" where
  "strtouint max_value nptr base =
     (case strto_head nptr base of None \<Rightarrow> None | Some (neg, base, p) \<Rightarrow>
        let limdigit = max_value mod base;
            limit = max_value div base
        in case accumulate base limit limdigit p 0 of
             None \<Rightarrow> None
           | Some (Inl q) \<Rightarrow> Some (max_value, q)
           | Some (Inr (accum, q)) \<Rightarrow> Some (if neg then - accum mod (max_value + 1) else accum, q))"

definition LONG_MAX :: int where
  "LONG_MAX = 2 ^ 63 - 1"

definition LONG_MIN :: int where
  "LONG_MIN = - (2 ^ 63)"

definition ULONG_MAX :: int where
  "ULONG_MAX = 2 ^ 64 - 1"

definition strtol :: "u8 list \<Rightarrow> int \<Rightarrow> (int \<times> u8 list) option" where
  "strtol = strtoint LONG_MAX LONG_MIN"

definition strtoul :: "u8 list \<Rightarrow> int \<Rightarrow> (int \<times> u8 list) option" where
  "strtoul = strtouint ULONG_MAX"


subsection \<open>Digits\<close>

lemma memchr_nth:
  "distinct xs \<Longrightarrow> i < n \<Longrightarrow> n \<le> length xs \<Longrightarrow> memchr xs (uint (xs ! i)) n = Some (Some i)"
proof (induction xs "uint (xs ! i)" n arbitrary: i rule: memchr.induct)
  case (3 b bs n)
  show ?case
  proof (cases i)
    case 0
    then show ?thesis by simp
  next
    case (Suc j)
    have "uint b \<noteq> uint (bs ! j)"
      using 3 Suc by (auto simp: word_uint_eq_iff [symmetric])
    then show ?thesis
      using "3.hyps" [of j] 3 Suc by simp
  qed
qed auto

lemma memchr_None: "chr \<notin> uint ` set xs \<Longrightarrow> n \<le> length xs \<Longrightarrow> memchr xs chr n = Some None"
  by (induction xs chr n rule: memchr.induct) auto

lemma digits_simps: "length digits = 36" "distinct digits" "list_all (\<lambda>c. tolower (chr_val c) = uint c) digits"
  "list_all (\<lambda>c. c \<noteq> 0 \<and> \<not> isspace (chr_val c) \<and> chr_val c \<noteq> 0x2B \<and> chr_val c \<noteq> 0x2D) digits"
  by code_simp+

lemma digit_of_nth: "i < nat base \<Longrightarrow> base \<le> 36 \<Longrightarrow> digit_of (chr_val (digits ! i)) base = Some (int i)"
  using digits_simps memchr_nth [of digits i "nat base"] by (simp add: digit_of_def list_all_length)

lemma digit_of_0: "base \<le> 36 \<Longrightarrow> digit_of 0 base = None"
proof -
  assume "base \<le> 36"
  moreover have "0 \<notin> uint ` set digits"
    using digits_simps(4) by (auto simp: list_all_iff uint_0_iff)
  moreover have "tolower 0 = 0"
    by code_simp
  ultimately show ?thesis
    using memchr_None [of 0 digits "nat base"] digits_simps(1) by (simp add: digit_of_def)
qed

text \<open>A number written with the digits of a base, most significant first.\<close>

definition numeral_bytes :: "nat list \<Rightarrow> u8 list" where
  "numeral_bytes ds = map ((!) digits) ds"

definition numeral_value :: "int \<Rightarrow> nat list \<Rightarrow> int \<Rightarrow> int" where
  "numeral_value base ds accum = foldl (\<lambda>a d. a * base + int d) accum ds"

lemma numeral_value_simps [simp]:
  "numeral_value base [] accum = accum" "numeral_value base (d # ds) accum = numeral_value base ds (accum * base + int d)"
  by (simp_all add: numeral_value_def)

lemma numeral_value_ge: "1 \<le> base \<Longrightarrow> 0 \<le> accum \<Longrightarrow> accum \<le> numeral_value base ds accum"
proof (induction ds arbitrary: accum)
  case (Cons d ds)
  have "accum \<le> accum * base + int d"
    using Cons.prems mult_left_mono [of 1 base accum] by simp
  also have "\<dots> \<le> numeral_value base ds (accum * base + int d)"
    using Cons by simp
  finally show ?case by simp
qed simp

lemma accumulate_numeral:
  assumes "2 \<le> base" "base \<le> 36" "\<forall>d\<in>set ds. d < nat base" "0 \<le> accum" "l = 0 \<or> l = limdigit" "0 \<le> l" "l \<le> base"
    and "numeral_value base ds accum < limit * base + l"
  shows "accumulate base limit limdigit (numeral_bytes ds @ 0 # r) accum = Some (Inr (numeral_value base ds accum, 0 # r))"
  using assms(3,4,8)
proof (induction ds arbitrary: accum)
  case Nil
  then show ?case
    using assms digit_of_0 by (simp add: numeral_bytes_def)
next
  case (Cons d ds)
  have dig: "digit_of (chr_val (digits ! d)) base = Some (int d)"
    using Cons.prems assms by (intro digit_of_nth) auto
  have "accum * base + int d < limit * base + l"
    using Cons.prems assms(1) numeral_value_ge [of base "accum * base + int d" ds] by simp
  then have "accum < limit \<or> accum = limit \<and> int d < limdigit"
  proof (cases "accum < limit")
    case False
    have "limit * base \<le> accum * base"
      using False assms(1) by (intro mult_right_mono) auto
    with \<open>accum * base + int d < limit * base + l\<close> have "int d < l"
      by linarith
    moreover have "accum = limit"
    proof (rule ccontr)
      assume "accum \<noteq> limit"
      then have "(limit + 1) * base \<le> accum * base"
        using False assms(1) by (intro mult_right_mono) auto
      then show False
        using \<open>accum * base + int d < limit * base + l\<close> assms(7) by (simp add: distrib_right)
    qed
    ultimately show ?thesis
      using assms(5) by auto
  qed simp
  then show ?case
    using Cons assms(1) dig by (simp add: numeral_bytes_def)
qed

lemma no_prefix:
  "list_all (\<lambda>c. c \<noteq> 0x42 \<and> c \<noteq> 0x62) (take 2 digits)" "list_all (\<lambda>c. c \<noteq> 0x58 \<and> c \<noteq> 0x78) (take 16 digits)"
  by code_simp+

lemma read_base_numeral:
  assumes "2 \<le> base" "base \<le> 36" "\<forall>d\<in>set ds. d < nat base"
  shows "read_base base chr (numeral_bytes ds @ 0 # r) = Some (base, chr, numeral_bytes ds @ 0 # r)"
proof -
  obtain x q where x: "numeral_bytes ds @ 0 # r = x # q" "x \<in> insert 0 (set (take (nat base) digits))"
  proof (cases ds)
    case Nil
    then show ?thesis
      by (intro that [of 0 r]) (simp_all add: numeral_bytes_def)
  next
    case (Cons d ds')
    then have "digits ! d \<in> set (take (nat base) digits)"
      using assms digits_simps(1) by (force simp: in_set_conv_nth)
    then show ?thesis
      using Cons by (intro that [of "digits ! d" "numeral_bytes ds' @ 0 # r"]) (simp_all add: numeral_bytes_def)
  qed
  have "base = 2 \<Longrightarrow> x \<noteq> 0x42 \<and> x \<noteq> 0x62" "base = 16 \<Longrightarrow> x \<noteq> 0x58 \<and> x \<noteq> 0x78"
    using x(2) no_prefix by (auto simp: list_all_iff)
  then show ?thesis
    using assms(1) unfolding x(1) by (auto simp: read_base_def)
qed

lemma strto_head_numeral:
  assumes "2 \<le> base" "base \<le> 36" "\<forall>d\<in>set ds. d < nat base" "ds \<noteq> []"
  shows "strto_head (numeral_bytes ds @ 0 # r) base = Some (False, base, numeral_bytes ds @ 0 # r)"
    "strto_head (0x2D # numeral_bytes ds @ 0 # r) base = Some (True, base, numeral_bytes ds @ 0 # r)"
proof -
  obtain d ds' where ds: "ds = d # ds'" "d < 36" "\<forall>d\<in>set ds'. d < nat base"
    using assms by (cases ds) auto
  let ?c = "digits ! d"
  have c: "\<not> isspace (chr_val ?c)" "chr_val ?c \<noteq> 0x2B" "chr_val ?c \<noteq> 0x2D" "word_of_int (chr_val ?c) = ?c"
    using digits_simps(1,4) ds(2) by (auto simp: list_all_length chr_val_def)
  have b: "numeral_bytes ds @ 0 # r = ?c # numeral_bytes ds' @ 0 # r"
    by (simp add: ds numeral_bytes_def)
  have m: "chr_val 0x2D = 0x2D" "\<not> isspace 0x2D"
    by code_simp+
  note base = read_base_numeral [OF assms(1,2) ds(3), of "chr_val ?c" r]
  have cl: "clamp_base base = base"
    using assms by (simp add: clamp_base_def)
  show "strto_head (numeral_bytes ds @ 0 # r) base = Some (False, base, numeral_bytes ds @ 0 # r)"
    unfolding b using c base cl by (simp add: strto_head_def read_sign_def)
  show "strto_head (0x2D # numeral_bytes ds @ 0 # r) base = Some (True, base, numeral_bytes ds @ 0 # r)"
    unfolding b using c base cl m by (simp add: strto_head_def read_sign_def read_chr_def)
qed

text \<open>
  C27: \<^verbatim>\<open>strtol\<close> reads back every number below \<^verbatim>\<open>LONG_MAX\<close> written with the digits of a base from 2
  to 36 and ended by a terminator, and every negated one whose leading part stays below
  the limit; it stops at the terminator. \<^verbatim>\<open>strtoul\<close> does so below \<^verbatim>\<open>ULONG_MAX\<close>.
\<close>

theorem strtol_reads_numerals:
  assumes "2 \<le> base" "base \<le> 36" "\<forall>d\<in>set ds. d < nat base" "ds \<noteq> []"
  shows "(numeral_value base ds 0 < LONG_MAX \<longrightarrow> strtol (numeral_bytes ds @ 0 # r) base = Some (numeral_value base ds 0, 0 # r)) \<and>
    (numeral_value base ds 0 < 2 ^ 63 div base * base \<longrightarrow>
      strtol (0x2D # numeral_bytes ds @ 0 # r) base = Some (- numeral_value base ds 0, 0 # r)) \<and>
    (numeral_value base ds 0 < ULONG_MAX \<longrightarrow> strtoul (numeral_bytes ds @ 0 # r) base = Some (numeral_value base ds 0, 0 # r))"
proof -
  note head = strto_head_numeral [OF assms, of r]
  have mod: "x div base * base + x mod base = x" "0 \<le> x mod base" "x mod base \<le> base" for x
    using assms(1) pos_mod_bound [of base x] by (simp_all add: less_imp_le)
  have "accumulate base (LONG_MAX sdiv base) (LONG_MAX smod base) (numeral_bytes ds @ 0 # r) 0 =
      Some (Inr (numeral_value base ds 0, 0 # r))" if "numeral_value base ds 0 < LONG_MAX"
    using that assms mod [of LONG_MAX]
    by (intro accumulate_numeral [where l = "LONG_MAX mod base"])
      (simp_all add: LONG_MAX_def signed_divide_int_eq_divide_int signed_modulo_int_eq_modulo_int)
  moreover have "accumulate base (LONG_MIN sdiv - base) (LONG_MIN smod - base) (numeral_bytes ds @ 0 # r) 0 =
      Some (Inr (numeral_value base ds 0, 0 # r))" if "numeral_value base ds 0 < 2 ^ 63 div base * base"
    using that assms
    by (intro accumulate_numeral [where l = 0]) (simp_all add: LONG_MIN_def signed_divide_int_eq_divide_int)
  moreover have "accumulate base (ULONG_MAX div base) (ULONG_MAX mod base) (numeral_bytes ds @ 0 # r) 0 =
      Some (Inr (numeral_value base ds 0, 0 # r))" if "numeral_value base ds 0 < ULONG_MAX"
    using that assms mod [of ULONG_MAX] by (intro accumulate_numeral [where l = "ULONG_MAX mod base"]) simp_all
  ultimately show ?thesis
    by (simp add: strtol_def strtoul_def strtoint_def strtouint_def head)
qed

theorem strtol_reads_numerals_witness:
  "strtol (numeral_bytes [1, 15] @ 0 # []) 16 = Some (31, [0]) \<and> strtol (0x2D # numeral_bytes [1, 15] @ 0 # []) 16 = Some (-31, [0])"
  using strtol_reads_numerals [of 16 "[1, 15]" "[]"] by (simp add: LONG_MAX_def)

lemma skip_digits_numeral:
  assumes "2 \<le> base" "base \<le> 36"
  shows "\<forall>d\<in>set ds. d < nat base \<Longrightarrow> ds \<noteq> [] \<Longrightarrow> skip_digits base (numeral_bytes ds @ 0 # r) = Some (0 # r)"
proof (induction ds)
  case (Cons d ds)
  show ?case
  proof (cases ds)
    case Nil
    then show ?thesis using digit_of_0 [OF assms(2)] by (simp add: numeral_bytes_def)
  next
    case (Cons d' ds')
    have "digit_of (chr_val (digits ! d')) base = Some (int d')" using Cons.prems Cons assms by (intro digit_of_nth) auto
    then show ?thesis using Cons.IH Cons.prems Cons by (simp add: numeral_bytes_def)
  qed
qed simp

text \<open>
  A numeral that reaches the bound: the loop stops at the digit that reaches it and skips the rest, which is right when there is a
  rest and steps over the terminator when there is none.
\<close>

lemma accumulate_overflow:
  fixes base limit limdigit l :: int
  assumes "2 \<le> base" "base \<le> 36" "0 \<le> l" "l \<le> base" "l = limdigit \<or> l = 0 \<and> limdigit \<le> 0"
  defines "bound \<equiv> limit * base + l"
  shows "\<forall>d\<in>set ds. d < nat base \<Longrightarrow> ds \<noteq> [] \<Longrightarrow> 0 \<le> accum \<Longrightarrow> accum < bound \<Longrightarrow> bound \<le> numeral_value base ds accum \<Longrightarrow>
    accumulate base limit limdigit (numeral_bytes ds @ 0 # r) accum =
      map_option Inl (if numeral_value base (butlast ds) accum < bound then skip_digits base (0 # r) else Some (0 # r))"
proof (induction ds arbitrary: accum)
  case (Cons d ds)
  let ?a = "accum * base + int d"
  have d: "int d < base" "digit_of (chr_val (digits ! d)) base = Some (int d)"
    using Cons.prems(1) assms(1,2) digit_of_nth [of d base] by auto
  have guard: "accum < limit \<or> accum = limit \<and> int d < limdigit \<longleftrightarrow> ?a < bound"
  proof (cases accum limit rule: linorder_cases)
    case less
    then have "(accum + 1) * base \<le> limit * base" using assms(1) by (intro mult_right_mono) auto
    then show ?thesis using less d(1) assms(3) by (simp add: bound_def distrib_right)
  next
    case equal
    then show ?thesis using assms(3,5) by (auto simp: bound_def)
  next
    case greater
    then have "(limit + 1) * base \<le> accum * base" using assms(1) by (intro mult_right_mono) auto
    then show ?thesis using greater assms(4) by (simp add: bound_def distrib_right)
  qed
  have a: "0 \<le> ?a" using Cons.prems(3) assms(1) by simp
  show ?case
  proof (cases "?a < bound")
    case True
    then have "ds \<noteq> []" using Cons.prems(5) by auto
    then show ?thesis using Cons.IH [of ?a] Cons.prems a True guard d(2) by (simp add: numeral_bytes_def)
  next
    case False
    have step: "accumulate base limit limdigit (numeral_bytes (d # ds) @ 0 # r) accum = map_option Inl (skip_digits base (numeral_bytes ds @ 0 # r))"
      using guard False d(2) by (auto simp: numeral_bytes_def)
    show ?thesis
    proof (cases "ds = []")
      case True
      then show ?thesis using step Cons.prems(4) by (simp add: numeral_bytes_def)
    next
      case ne: False
      have "?a \<le> numeral_value base (butlast ds) ?a" using assms(1) a by (intro numeral_value_ge) simp_all
      then show ?thesis
        using step False ne skip_digits_numeral [OF assms(1,2), of ds r] Cons.prems(1) by simp
    qed
  qed
qed simp

text \<open>
  C40: at the limits \<^verbatim>\<open>strtol\<close> and \<^verbatim>\<open>strtoul\<close> go wrong, in every base. The greatest value itself counts as an overflow,
  because the last digit is compared with a strict inequality. When only the last digit of a numeral
  brings it to the limit, the loop that skips the rest of the digits steps over the terminator and reads on behind
  the string, and outside the buffer if the string is at its end; a numeral that overflows before its last digit is handled properly. For a
  negative number the digit limit is not positive, so every number whose leading digits are those of the limit comes back as the least value.
\<close>

theorem strtol_limits:
  fixes base :: int and ds :: "nat list" and r :: "u8 list"
  assumes "2 \<le> base" "base \<le> 36" "\<forall>d\<in>set ds. d < nat base" "ds \<noteq> []"
  defines "rest \<equiv> (\<lambda>bound. if numeral_value base (butlast ds) 0 < bound then skip_digits base (0 # r) else Some (0 # r))"
  shows "(LONG_MAX \<le> numeral_value base ds 0 \<longrightarrow> strtol (numeral_bytes ds @ 0 # r) base = map_option (Pair LONG_MAX) (rest LONG_MAX)) \<and>
    (2 ^ 63 div base * base \<le> numeral_value base ds 0 \<longrightarrow>
      strtol (0x2D # numeral_bytes ds @ 0 # r) base = map_option (Pair LONG_MIN) (rest (2 ^ 63 div base * base))) \<and>
    (ULONG_MAX \<le> numeral_value base ds 0 \<longrightarrow> strtoul (numeral_bytes ds @ 0 # r) base = map_option (Pair ULONG_MAX) (rest ULONG_MAX)) \<and>
    skip_digits base [0] = None"
proof -
  note head = strto_head_numeral [OF assms(1-4), of r]
  have mod: "x div base * base + x mod base = x" "0 \<le> x mod base" "x mod base \<le> base" for x
    using assms(1) pos_mod_bound [of base x] by (simp_all add: less_imp_le)
  have pos: "0 < 2 ^ 63 div base * base"
    using assms(1,2) pos_imp_zdiv_pos_iff [of base "2 ^ 63"] by simp
  have sm: "LONG_MIN smod - base \<le> 0" "LONG_MIN sdiv - base = 2 ^ 63 div base"
    using assms(1) by (simp_all add: LONG_MIN_def signed_divide_int_eq_divide_int signed_modulo_int_def)
  have a1: "accumulate base (LONG_MAX sdiv base) (LONG_MAX smod base) (numeral_bytes ds @ 0 # r) 0 = map_option Inl (rest LONG_MAX)"
    if "LONG_MAX \<le> numeral_value base ds 0"
    using accumulate_overflow [OF assms(1,2) mod(2,3) [of LONG_MAX], where limdigit = "LONG_MAX mod base" and limit = "LONG_MAX div base" and ds = ds and accum = 0 and r = r] that assms mod(1) [of LONG_MAX]
    by (simp add: LONG_MAX_def signed_divide_int_eq_divide_int signed_modulo_int_eq_modulo_int)
  have a2: "accumulate base (LONG_MIN sdiv - base) (LONG_MIN smod - base) (numeral_bytes ds @ 0 # r) 0 = map_option Inl (rest (2 ^ 63 div base * base))"
    if "2 ^ 63 div base * base \<le> numeral_value base ds 0"
    using accumulate_overflow [OF assms(1,2), where l = 0 and limdigit = "LONG_MIN smod - base" and limit = "2 ^ 63 div base" and ds = ds and accum = 0 and r = r] that assms sm pos by simp
  have a3: "accumulate base (ULONG_MAX div base) (ULONG_MAX mod base) (numeral_bytes ds @ 0 # r) 0 = map_option Inl (rest ULONG_MAX)"
    if "ULONG_MAX \<le> numeral_value base ds 0"
    using accumulate_overflow [OF assms(1,2) mod(2,3) [of ULONG_MAX], where limdigit = "ULONG_MAX mod base" and limit = "ULONG_MAX div base" and ds = ds and accum = 0 and r = r] that assms mod(1) [of ULONG_MAX]
    by (simp add: ULONG_MAX_def)
  show ?thesis
    using a1 a2 a3 by (auto simp: strtol_def strtoul_def strtoint_def strtouint_def head split: option.splits)
qed

theorem strtol_limits_witness:
  "strtol (numeral_bytes [9,2,2,3,3,7,2,0,3,6,8,5,4,7,7,5,8,0,7] @ [0]) 10 = None \<and>
   map_option fst (strtol (0x2D # numeral_bytes [9,2,2,3,3,7,2,0,3,6,8,5,4,7,7,5,8,0,1] @ [0, 0]) 10) = Some LONG_MIN"
proof -
  have d: "digit_of (chr_val 0) 10 = None" by code_simp
  show ?thesis
    using strtol_limits [of 10 "[9,2,2,3,3,7,2,0,3,6,8,5,4,7,7,5,8,0,7]" "[]"]
      strtol_limits [of 10 "[9,2,2,3,3,7,2,0,3,6,8,5,4,7,7,5,8,0,1]" "[0]"] d
    by (simp add: LONG_MAX_def)
qed

end
