(* ===== verification/Gregorian.thy ===== *)
theory Gregorian
  imports Main
begin

text \<open>
  The proleptic Gregorian calendar as the reference of \<^verbatim>\<open>kernel/time/calendar.c\<close>: which years are
  leap, how long a month is, what day follows a day; and the numbering of days by eras of 400
  years that start in March, which the code uses, proved to count exactly these days.
\<close>

definition DAYS_PER_ERA :: int where "DAYS_PER_ERA = 146097"
definition EPOCH_SHIFT :: int where "EPOCH_SHIFT = 719468"

subsection \<open>The Gregorian calendar\<close>

definition leap :: "int \<Rightarrow> bool" where
  "leap y \<longleftrightarrow> y mod 4 = 0 \<and> (y mod 100 \<noteq> 0 \<or> y mod 400 = 0)"

definition month_length :: "int \<Rightarrow> int \<Rightarrow> int" where
  "month_length y m = (if m = 2 then if leap y then 29 else 28 else if m \<in> {4, 6, 9, 11} then 30 else 31)"

definition valid_date :: "int \<times> int \<times> int \<Rightarrow> bool" where
  "valid_date = (\<lambda>(y, m, d). 1 \<le> m \<and> m \<le> 12 \<and> 1 \<le> d \<and> d \<le> month_length y m)"

definition next_day :: "int \<times> int \<times> int \<Rightarrow> int \<times> int \<times> int" where
  "next_day = (\<lambda>(y, m, d).
     if d < month_length y m then (y, m, d + 1) else if m < 12 then (y, m + 1, 1) else (y + 1, 1, 1))"

subsection \<open>Days and dates\<close>

text \<open>The code's arithmetic with the division of the integers, split into the part for the days.\<close>

definition year_start :: "int \<Rightarrow> int" where
  "year_start y = 365 * y + y div 4 - y div 100"

definition month_start :: "int \<Rightarrow> int" where
  "month_start m = (153 * m + 2) div 5"

definition year_of :: "int \<Rightarrow> int" where
  "year_of doe = (doe - doe div 1460 + doe div 36524 - doe div 146096) div 365"

definition month_of :: "int \<Rightarrow> int" where
  "month_of doy = (5 * doy + 2) div 153"

definition year_days :: "int \<Rightarrow> int" where
  "year_days y = (if leap (y + 1) then 366 else 365)"

definition march_date :: "int \<Rightarrow> int \<Rightarrow> int \<times> int \<times> int" where
  "march_date y doy =
     (let m = month_of doy; d = doy - month_start m + 1
      in if m < 10 then (y, m + 3, d) else (y + 1, m - 9, d))"

definition date_of_days :: "int \<Rightarrow> int \<times> int \<times> int" where
  "date_of_days days =
     (let s = days + EPOCH_SHIFT; era = s div DAYS_PER_ERA; doe = s mod DAYS_PER_ERA; y = year_of doe
      in march_date (y + era * 400) (doe - year_start y))"

definition days_of_date :: "int \<times> int \<times> int \<Rightarrow> int" where
  "days_of_date = (\<lambda>(y, m, d).
     let y = (if m > 2 then y else y - 1); m = (if m > 2 then m - 3 else m + 9)
     in y div 400 * DAYS_PER_ERA + (year_start (y mod 400) + (month_start m + d - 1)) - EPOCH_SHIFT)"

text \<open>The years of an era: \<^const>\<open>year_of\<close> finds the year whose days hold the day. It is monotone,
  so the first and the last day of each of the 400 years decide.\<close>

lemma div_gap:
  fixes a b k :: int
  assumes "a \<le> b" "0 < k"
  shows "a - a div k \<le> b - b div k"
proof -
  have "b - a \<le> (b - a) * k"
    using assms by (simp add: mult_le_cancel_left1)
  then have "b \<le> a + (b - a) * k" by simp
  then have "b div k \<le> (a + (b - a) * k) div k"
    by (rule zdiv_mono1 [OF _ assms(2)])
  also have "\<dots> = a div k + (b - a)"
    using assms(2) by simp
  finally show ?thesis by simp
qed

lemma year_of_mono:
  assumes "a \<le> b"
  shows "year_of a \<le> year_of b"
proof -
  have q: "x div 146096 = x div 36524 div 4" for x :: int
    by (simp add: zdiv_zmult2_eq [symmetric])
  have "a - a div 1460 \<le> b - b div 1460"
    by (rule div_gap [OF assms]) simp
  moreover have "a div 36524 - a div 146096 \<le> b div 36524 - b div 146096"
    unfolding q by (rule div_gap [OF zdiv_mono1 [OF assms]]) simp_all
  ultimately show ?thesis
    unfolding year_of_def by (intro zdiv_mono1) simp_all
qed

lemma year_of_ends:
  "list_all (\<lambda>y. year_of (year_start y) = y \<and> year_of (year_start y + year_days y - 1) = y \<and>
     year_start (y + 1) = year_start y + year_days y - (if y = 399 then 1 else 0)) [0..399]"
  by code_simp

lemma year_ends:
  assumes "0 \<le> y" "y \<le> 399"
  shows "year_of (year_start y) = y" "year_of (year_start y + year_days y - 1) = y"
    "year_start (y + 1) = year_start y + year_days y - (if y = 399 then 1 else 0)"
  using year_of_ends assms by (simp_all add: list_all_iff del: upto.simps upto_rec_numeral upto_aux_rec)

lemma year_of_within:
  assumes "0 \<le> y" "y \<le> 399" "0 \<le> doy" "doy < year_days y"
  shows "year_of (year_start y + doy) = y"
  using year_of_mono [of "year_start y" "year_start y + doy"] year_of_mono [of "year_start y + doy" "year_start y + year_days y - 1"]
    year_ends [OF assms(1,2)] assms by simp

lemma year_start_values: "year_start 0 = 0" "year_start 399 = 145731" "year_of 0 = 0" "year_of 146096 = 399" "year_days 399 = 366"
  by (simp_all add: year_start_def year_of_def year_days_def leap_def)

lemma year_of_range:
  assumes "0 \<le> doe" "doe < DAYS_PER_ERA"
  shows "0 \<le> year_of doe" "year_of doe \<le> 399" "year_start (year_of doe) \<le> doe" "doe < year_start (year_of doe) + year_days (year_of doe)"
proof -
  let ?y = "year_of doe"
  show y: "0 \<le> ?y" "?y \<le> 399"
    using year_of_mono [of 0 doe] year_of_mono [of doe 146096] assms by (simp_all add: year_start_values DAYS_PER_ERA_def)
  show "year_start ?y \<le> doe"
  proof (rule ccontr)
    assume less: "\<not> ?thesis"
    then have "?y \<noteq> 0"
      using assms by (metis year_start_values(1))
    then have "year_start ?y = year_start (?y - 1) + year_days (?y - 1)" "year_of (year_start (?y - 1) + year_days (?y - 1) - 1) = ?y - 1"
      using year_ends [of "?y - 1"] y by simp_all
    with less year_of_mono [of doe "year_start (?y - 1) + year_days (?y - 1) - 1"] show False by simp
  qed
  show "doe < year_start ?y + year_days ?y"
  proof (rule ccontr)
    assume ge: "\<not> ?thesis"
    then have "?y \<noteq> 399"
      using assms year_start_values by (auto simp: DAYS_PER_ERA_def)
    then have "year_start (?y + 1) \<le> doe" "year_of (year_start (?y + 1)) = ?y + 1"
      using year_ends [of ?y] year_ends(1) [of "?y + 1"] y ge by simp_all
    with year_of_mono [of "year_start (?y + 1)" doe] show False by simp
  qed
qed

text \<open>The months, counted from March.\<close>

lemma le_div_iff:
  fixes m a k :: int
  assumes "0 < k"
  shows "m \<le> a div k \<longleftrightarrow> m * k \<le> a"
proof -
  have "m * k \<le> a \<Longrightarrow> m \<le> a div k"
    using zdiv_mono1 [of "m * k" a k] assms by simp
  moreover have "m \<le> a div k \<Longrightarrow> m * k \<le> a"
    using mult_right_mono [of m "a div k" k] assms pos_mod_sign [of k a] div_mult_mod_eq [of a k] by linarith
  ultimately show ?thesis by blast
qed

lemma month_of_iff: "month_of doy = m \<longleftrightarrow> month_start m \<le> doy \<and> doy < month_start (m + 1)"
proof -
  have "month_of doy = m \<longleftrightarrow> m \<le> month_of doy \<and> \<not> m + 1 \<le> month_of doy"
    by linarith
  also have "\<dots> \<longleftrightarrow> \<not> doy + 1 \<le> month_start m \<and> doy + 1 \<le> month_start (m + 1)"
    unfolding month_of_def month_start_def by (subst (1 2 3 4) le_div_iff, simp_all) linarith
  finally show ?thesis by linarith
qed

lemma month_starts:
  "month_start 0 = 0" "month_start 1 = 31" "month_start 2 = 61" "month_start 3 = 92" "month_start 4 = 122"
  "month_start 5 = 153" "month_start 6 = 184" "month_start 7 = 214" "month_start 8 = 245" "month_start 9 = 275"
  "month_start 10 = 306" "month_start 11 = 337" "month_start 12 = 367"
  by (simp_all add: month_start_def)

lemma months:
  "{0..11} = {0, 1, 2, 3, 4, 5, 6, 7, 8, 9, 10, 11 :: int}" "{1..12} = {1, 2, 3, 4, 5, 6, 7, 8, 9, 10, 11, 12 :: int}"
  by code_simp+

lemma month_of_range:
  assumes "0 \<le> doy" "doy \<le> 365"
  shows "month_of doy \<in> {0, 1, 2, 3, 4, 5, 6, 7, 8, 9, 10, 11}"
proof -
  have "0 \<le> month_of doy" "month_of doy < 12"
    using le_div_iff [of 153 0 "5 * doy + 2"] le_div_iff [of 153 12 "5 * doy + 2"] assms
    by (simp_all add: month_of_def)
  then have "month_of doy \<in> {0..11}" by simp
  then show ?thesis unfolding months .
qed

lemma leap_era: "leap (y + e * 400) = leap y"
proof -
  have "(y + e * 400) mod 4 = y mod 4" using mod_mult_self1 [of y "e * 100" 4] by (simp add: mult.commute)
  moreover have "(y + e * 400) mod 100 = y mod 100" using mod_mult_self1 [of y "e * 4" 100] by (simp add: mult.commute)
  ultimately show ?thesis by (simp add: leap_def)
qed

lemma year_days_era: "year_days (y + e * 400) = year_days y"
  using leap_era [of "y + 1" e] by (simp add: year_days_def algebra_simps)

lemma march_date_valid:
  assumes "0 \<le> doy" "doy < year_days y"
  shows "valid_date (march_date y doy)"
proof -
  have "doy \<le> 365" using assms(2) by (simp add: year_days_def split: if_splits)
  then have m: "month_of doy \<in> {0, 1, 2, 3, 4, 5, 6, 7, 8, 9, 10, 11}"
    using assms(1) by (intro month_of_range)
  have in_m: "month_start (month_of doy) \<le> doy" "doy < month_start (month_of doy + 1)"
    using month_of_iff [of doy "month_of doy"] by simp_all
  from m in_m assms(2) show ?thesis
    by (elim insertE) (simp_all add: march_date_def Let_def valid_date_def month_length_def month_starts year_days_def split: if_splits)
qed

lemma march_date_next:
  assumes "0 \<le> doy" "doy + 1 < year_days y"
  shows "march_date y (doy + 1) = next_day (march_date y doy)"
proof -
  let ?m = "month_of doy"
  have doy: "doy \<le> 364" using assms(2) by (simp add: year_days_def split: if_splits)
  have m: "?m \<in> {0, 1, 2, 3, 4, 5, 6, 7, 8, 9, 10, 11}"
    using assms(1) doy by (intro month_of_range) simp_all
  have in_m: "month_start ?m \<le> doy" "doy < month_start (?m + 1)"
    using month_of_iff [of doy ?m] by simp_all
  show ?thesis
  proof (cases "doy + 1 < month_start (?m + 1)")
    case True
    then have "month_of (doy + 1) = ?m"
      using in_m by (simp add: month_of_iff)
    with m in_m(1) True assms(2) show ?thesis
      by (elim insertE)
         (simp_all add: march_date_def Let_def next_day_def month_length_def month_starts year_days_def split: if_splits)
  next
    case False
    then have last: "doy = month_start (?m + 1) - 1" using in_m by simp
    have "?m \<noteq> 11"
    proof
      assume "?m = 11"
      then show False using last doy by (simp add: month_starts)
    qed
    from m last this have "month_start (?m + 1) \<le> doy + 1 \<and> doy + 1 < month_start (?m + 1 + 1)"
      by (elim insertE) (simp_all add: month_starts)
    then have "month_of (doy + 1) = ?m + 1"
      by (simp only: month_of_iff)
    with m last \<open>?m \<noteq> 11\<close> show ?thesis
      by (elim insertE) (simp_all add: march_date_def Let_def next_day_def month_length_def month_starts)
  qed
qed

lemma march_date_new_year: "march_date (y + 1) 0 = next_day (march_date y (year_days y - 1))"
proof -
  have "month_of (year_days y - 1) = 11" "month_of 0 = 0"
    by (simp_all add: month_of_iff month_starts year_days_def)
  then show ?thesis
    by (simp add: march_date_def Let_def next_day_def month_length_def month_starts year_days_def)
qed

lemma march_date_of_valid:
  assumes "valid_date (y, m, d)" "m > 2 \<Longrightarrow> ym = (y, m - 3)" "m \<le> 2 \<Longrightarrow> ym = (y - 1, m + 9)"
    and doy: "doy = month_start (snd ym) + d - 1"
  shows "0 \<le> doy" "doy < year_days (fst ym)" "march_date (fst ym) doy = (y, m, d)" "month_of doy = snd ym"
proof -
  have m: "1 \<le> m" "m \<le> 12" and d: "1 \<le> d" "d \<le> month_length y m"
    using assms(1) by (simp_all add: valid_date_def)
  then have "m \<in> {1..12}" by simp
  then have "m \<in> {1, 2, 3, 4, 5, 6, 7, 8, 9, 10, 11, 12}" unfolding months .
  then have *: "0 \<le> doy \<and> doy < year_days (fst ym) \<and> month_start (snd ym) \<le> doy \<and> doy < month_start (snd ym + 1)"
    using assms d by (elim insertE) (simp_all add: month_starts month_length_def year_days_def split: if_splits)
  then show "0 \<le> doy" "doy < year_days (fst ym)" by simp_all
  show "month_of doy = snd ym" using * by (simp add: month_of_iff)
  then show "march_date (fst ym) doy = (y, m, d)"
    using assms(2,3) doy m by (cases "m > 2") (simp_all add: march_date_def Let_def)
qed

lemma days_of_march_date:
  assumes "0 \<le> doy" "doy \<le> 365"
  shows "days_of_date (march_date y doy) = y div 400 * DAYS_PER_ERA + (year_start (y mod 400) + doy) - EPOCH_SHIFT"
  using month_of_range [OF assms] by (elim insertE) (simp_all add: march_date_def days_of_date_def Let_def)

lemma year_start_bound: "0 \<le> y \<Longrightarrow> y \<le> 399 \<Longrightarrow> year_start y \<le> 145731"
  unfolding year_start_def by linarith

lemma date_of_days_split:
  assumes "0 \<le> y" "y \<le> 399" "0 \<le> doy" "doy < year_days y"
  shows "date_of_days (era * DAYS_PER_ERA + (year_start y + doy) - EPOCH_SHIFT) = march_date (y + era * 400) doy"
proof -
  have "0 \<le> year_start y" using assms by (simp add: year_start_def)
  moreover have "year_start y + doy < DAYS_PER_ERA"
    using year_ends(3) [OF assms(1,2)] assms year_start_bound [of "y + 1"] by (simp add: DAYS_PER_ERA_def year_start_values split: if_splits)
  ultimately show ?thesis
    using assms year_of_within [OF assms]
    by (simp add: date_of_days_def Let_def)
qed

lemma days_cases:
  obtains era y doy where "0 \<le> y" "y \<le> 399" "0 \<le> doy" "doy < year_days y"
    "days = era * DAYS_PER_ERA + (year_start y + doy) - EPOCH_SHIFT"
proof -
  let ?doe = "(days + EPOCH_SHIFT) mod DAYS_PER_ERA"
  have doe: "0 \<le> ?doe" "?doe < DAYS_PER_ERA"
    by (simp_all add: DAYS_PER_ERA_def)
  have "(days + EPOCH_SHIFT) div DAYS_PER_ERA * DAYS_PER_ERA + ?doe = days + EPOCH_SHIFT"
    by (rule div_mult_mod_eq)
  with year_of_range [OF doe] show ?thesis
    by (intro that [of "year_of ?doe" "?doe - year_start (year_of ?doe)" "(days + EPOCH_SHIFT) div DAYS_PER_ERA"]) simp_all
qed

lemma year_days_le: "doy < year_days y \<Longrightarrow> doy \<le> 365"
  by (simp add: year_days_def split: if_splits)

lemma days_of_date_of_days: "days_of_date (date_of_days days) = days"
proof (rule days_cases [of days])
  fix era y doy
  assume *: "0 \<le> y" "y \<le> 399" "0 \<le> doy" "doy < year_days y" and days: "days = era * DAYS_PER_ERA + (year_start y + doy) - EPOCH_SHIFT"
  have "days_of_date (march_date (y + era * 400) doy) = days"
    using * days by (simp add: days_of_march_date year_days_le)
  with * days show ?thesis by (simp add: date_of_days_split)
qed

lemma valid_date_of_days: "valid_date (date_of_days days)"
proof (rule days_cases [of days])
  fix era y doy
  assume *: "0 \<le> y" "y \<le> 399" "0 \<le> doy" "doy < year_days y" and days: "days = era * DAYS_PER_ERA + (year_start y + doy) - EPOCH_SHIFT"
  have "valid_date (march_date (y + era * 400) doy)"
    using * by (intro march_date_valid) (simp_all add: year_days_era)
  with * days show ?thesis by (simp add: date_of_days_split)
qed

lemma date_of_days_of_date:
  assumes "valid_date date"
  shows "date_of_days (days_of_date date) = date"
proof -
  obtain y m d where date: "date = (y, m, d)" by (cases date)
  define ym where "ym = (if m > 2 then (y, m - 3) else (y - 1, m + 9))"
  note march = march_date_of_valid [OF assms [unfolded date], of ym, OF _ _ refl]
  let ?y = "fst ym" let ?doy = "month_start (snd ym) + d - 1"
  have m: "0 \<le> ?doy" "?doy < year_days ?y" "march_date ?y ?doy = date"
    using march by (simp_all add: ym_def date)
  have "days_of_date date = ?y div 400 * DAYS_PER_ERA + (year_start (?y mod 400) + ?doy) - EPOCH_SHIFT"
    by (simp add: days_of_date_def date ym_def Let_def)
  moreover have "year_days (?y mod 400) = year_days ?y"
    using year_days_era [of "?y mod 400" "?y div 400"] by simp
  ultimately show ?thesis
    using date_of_days_split [of "?y mod 400" ?doy "?y div 400"] m by simp
qed

lemma date_of_days_next: "date_of_days (days + 1) = next_day (date_of_days days)"
proof (rule days_cases [of days])
  fix era y doy
  assume *: "0 \<le> y" "y \<le> 399" "0 \<le> doy" "doy < year_days y" and days: "days = era * DAYS_PER_ERA + (year_start y + doy) - EPOCH_SHIFT"
  have before: "date_of_days days = march_date (y + era * 400) doy"
    using * days by (simp add: date_of_days_split)
  show ?thesis
  proof (cases "doy + 1 < year_days y")
    case True
    then have "date_of_days (era * DAYS_PER_ERA + (year_start y + (doy + 1)) - EPOCH_SHIFT) = march_date (y + era * 400) (doy + 1)"
      using * by (intro date_of_days_split) simp_all
    moreover have "days + 1 = era * DAYS_PER_ERA + (year_start y + (doy + 1)) - EPOCH_SHIFT"
      using days by simp
    ultimately show ?thesis
      using True *(3) before by (simp only:) (simp add: march_date_next year_days_era)
  next
    case False
    then have doy: "doy = year_days (y + era * 400) - 1" using * by (simp add: year_days_era)
    have "date_of_days (days + 1) = march_date (y + era * 400 + 1) 0"
    proof (cases "y = 399")
      case True
      have "date_of_days ((era + 1) * DAYS_PER_ERA + (year_start 0 + 0) - EPOCH_SHIFT) = march_date (0 + (era + 1) * 400) 0"
        by (rule date_of_days_split) (simp_all add: year_days_def)
      moreover have "days + 1 = (era + 1) * DAYS_PER_ERA + (year_start 0 + 0) - EPOCH_SHIFT"
        using True days doy by (simp add: year_days_era year_start_values DAYS_PER_ERA_def)
      moreover have "0 + (era + 1) * 400 = y + era * 400 + 1"
        using True by simp
      ultimately show ?thesis by (simp only:)
    next
      case False
      have "date_of_days (era * DAYS_PER_ERA + (year_start (y + 1) + 0) - EPOCH_SHIFT) = march_date (y + 1 + era * 400) 0"
        using False * by (intro date_of_days_split) (simp_all add: year_days_def)
      moreover have "days + 1 = era * DAYS_PER_ERA + (year_start (y + 1) + 0) - EPOCH_SHIFT"
        using False days doy year_ends(3) [OF *(1,2)] by (simp add: year_days_era)
      moreover have "y + 1 + era * 400 = y + era * 400 + 1" by simp
      ultimately show ?thesis by (simp only:)
    qed
    with before doy march_date_new_year [of "y + era * 400"] show ?thesis by simp
  qed
qed

end
