(* ===== verification/Calendar.thy ===== *)
theory Calendar
  imports Vex_Prelude Gregorian "HOL-Library.Signed_Division" "HOL-Library.Monad_Syntax"
begin

text \<open>
  The calendar, \<^verbatim>\<open>kernel/time/calendar.c\<close>: seconds since 1970 to a proleptic Gregorian date and
  back. C's division rounds toward zero (\<open>sdiv\<close>, \<open>smod\<close>). The unsigned fields are words, and their products are
  32-bit products as in the code. The conversions come in two forms: \<open>calendar_from_time_i64\<close> and \<open>calendar_to_time_i64\<close> compute
  as the code does, with signed 64-bit quantities, and have no value when one of them overflows, which is undefined
  in C; \<open>calendar_from_time\<close> and \<open>calendar_to_time\<close> compute with integers. They are proved to
  agree wherever the code does not overflow, and it is proved where that is.

  The reference is the calendar of theory \<open>Gregorian\<close>.
\<close>

record calendar_time =
  year :: int
  month :: u32
  day :: u32
  hour :: u32
  minute :: u32
  second :: u32

definition SECONDS_PER_DAY :: int where "SECONDS_PER_DAY = 86400"

definition floor_div :: "int \<Rightarrow> int \<Rightarrow> int" where
  "floor_div v divisor =
     (let quotient = v sdiv divisor
      in if v smod divisor < 0 then quotient - 1 else quotient)"

definition calendar_from_time :: "int \<Rightarrow> calendar_time" where
  "calendar_from_time time =
     (let days = floor_div time SECONDS_PER_DAY;
          seconds = time - days * SECONDS_PER_DAY;
          shifted = days + EPOCH_SHIFT;
          era = floor_div shifted DAYS_PER_ERA;
          day_of_era = shifted - era * DAYS_PER_ERA;
          year_of_era = (day_of_era - day_of_era sdiv 1460 + day_of_era sdiv 36524 - day_of_era sdiv 146096) sdiv 365;
          day_of_year = day_of_era - (365 * year_of_era + year_of_era sdiv 4 - year_of_era sdiv 100);
          month_from_march = (5 * day_of_year + 2) sdiv 153;
          out = \<lparr>year = year_of_era + era * 400,
                 month = (if month_from_march < 10 then of_int (month_from_march + 3) else of_int (month_from_march - 9)),
                 day = of_int (day_of_year - (153 * month_from_march + 2) sdiv 5 + 1),
                 hour = of_int (seconds sdiv 3600), minute = of_int ((seconds sdiv 60) smod 60), second = of_int (seconds smod 60)\<rparr>
      in if month_from_march < 10 then out else out\<lparr>year := year out + 1\<rparr>)"

definition calendar_to_time :: "calendar_time \<Rightarrow> int" where
  "calendar_to_time calendar =
     (let (yr, month_from_march) =
            (if month calendar > 2 then (year calendar, uint (month calendar) - 3)
             else (year calendar - 1, uint (month calendar) + 9));
          era = floor_div yr 400;
          year_of_era = yr - era * 400;
          day_of_year = (153 * month_from_march + 2) sdiv 5 + uint (day calendar) - 1;
          day_of_era = year_of_era * 365 + year_of_era sdiv 4 - year_of_era sdiv 100 + day_of_year;
          days = era * DAYS_PER_ERA + day_of_era - EPOCH_SHIFT
      in days * SECONDS_PER_DAY + uint (hour calendar * 3600) + uint (minute calendar * 60) + uint (second calendar))"

text \<open>The code, with its 64-bit arithmetic.\<close>

definition i64 :: "int \<Rightarrow> int option" where
  "i64 x = (if -9223372036854775808 \<le> x \<and> x \<le> 9223372036854775807 then Some x else None)"

definition floor_div_i64 :: "int \<Rightarrow> int \<Rightarrow> int option" where
  "floor_div_i64 v divisor =
     (let quotient = v sdiv divisor
      in if v smod divisor < 0 then i64 (quotient - 1) else i64 quotient)"

definition calendar_from_time_i64 :: "int \<Rightarrow> calendar_time option" where
  "calendar_from_time_i64 time = do {
     days \<leftarrow> floor_div_i64 time SECONDS_PER_DAY;
     midnight \<leftarrow> i64 (days * SECONDS_PER_DAY);
     seconds \<leftarrow> i64 (time - midnight);
     shifted \<leftarrow> i64 (days + EPOCH_SHIFT);
     era \<leftarrow> floor_div_i64 shifted DAYS_PER_ERA;
     era_start \<leftarrow> i64 (era * DAYS_PER_ERA);
     day_of_era \<leftarrow> i64 (shifted - era_start);
     year_of_era \<leftarrow> i64 ((day_of_era - day_of_era sdiv 1460 + day_of_era sdiv 36524 - day_of_era sdiv 146096) sdiv 365);
     day_of_year \<leftarrow> i64 (day_of_era - (365 * year_of_era + year_of_era sdiv 4 - year_of_era sdiv 100));
     month_from_march \<leftarrow> i64 ((5 * day_of_year + 2) sdiv 153);
     era_years \<leftarrow> i64 (era * 400);
     march_year \<leftarrow> i64 (year_of_era + era_years);
     final_year \<leftarrow> (if month_from_march < 10 then Some march_year else i64 (march_year + 1));
     Some \<lparr>year = final_year,
           month = (if month_from_march < 10 then of_int (month_from_march + 3) else of_int (month_from_march - 9)),
           day = of_int (day_of_year - (153 * month_from_march + 2) sdiv 5 + 1),
           hour = of_int (seconds sdiv 3600), minute = of_int ((seconds sdiv 60) smod 60), second = of_int (seconds smod 60)\<rparr>
   }"

definition calendar_to_time_i64 :: "calendar_time \<Rightarrow> int option" where
  "calendar_to_time_i64 calendar = do {
     (yr, month_from_march) \<leftarrow>
       (if month calendar > 2 then Some (year calendar, uint (month calendar) - 3)
        else map_option (\<lambda>yr. (yr, uint (month calendar) + 9)) (i64 (year calendar - 1)));
     era \<leftarrow> floor_div_i64 yr 400;
     era_years \<leftarrow> i64 (era * 400);
     year_of_era \<leftarrow> i64 (yr - era_years);
     day_of_year \<leftarrow> i64 ((153 * month_from_march + 2) sdiv 5 + uint (day calendar) - 1);
     day_of_era \<leftarrow> i64 (year_of_era * 365 + year_of_era sdiv 4 - year_of_era sdiv 100 + day_of_year);
     era_days \<leftarrow> i64 (era * DAYS_PER_ERA);
     shifted \<leftarrow> i64 (era_days + day_of_era);
     days \<leftarrow> i64 (shifted - EPOCH_SHIFT);
     time \<leftarrow> i64 (days * SECONDS_PER_DAY);
     time \<leftarrow> i64 (time + uint (hour calendar * 3600));
     time \<leftarrow> i64 (time + uint (minute calendar * 60));
     i64 (time + uint (second calendar))
   }"

definition date_of :: "calendar_time \<Rightarrow> int \<times> int \<times> int" where
  "date_of c = (year c, uint (month c), uint (day c))"

definition time_of_day :: "calendar_time \<Rightarrow> int" where
  "time_of_day c = uint (hour c) * 3600 + uint (minute c) * 60 + uint (second c)"

definition valid_calendar :: "calendar_time \<Rightarrow> bool" where
  "valid_calendar c \<longleftrightarrow> valid_date (date_of c) \<and> uint (hour c) < 24 \<and> uint (minute c) < 60 \<and> uint (second c) < 60"

lemma sdiv_pos: "0 \<le> a \<Longrightarrow> 0 < k \<Longrightarrow> a sdiv k = a div k" for a k :: int
  by (simp add: signed_divide_int_def sgn_if)

lemma smod_pos: "0 \<le> a \<Longrightarrow> 0 < k \<Longrightarrow> a smod k = a mod k" for a k :: int
  by (simp add: signed_modulo_int_def sgn_if)

lemma sdiv_neg: "a < 0 \<Longrightarrow> 0 < k \<Longrightarrow> a sdiv k = - ((- a) div k)" for a k :: int
  by (simp add: signed_divide_int_def sgn_if)

lemma smod_neg: "a < 0 \<Longrightarrow> 0 < k \<Longrightarrow> a smod k = - ((- a) mod k)" for a k :: int
  by (simp add: signed_modulo_int_def sgn_if)

lemma floor_div_eq:
  assumes "0 < k"
  shows "floor_div a k = a div k"
proof (cases "a < 0")
  case True
  have "a mod k < k" using assms by simp
  with True assms show ?thesis
    by (simp add: floor_div_def Let_def sdiv_neg smod_neg zdiv_zminus1_eq_if zmod_zminus1_eq_if)
next
  case False
  with assms show ?thesis
    by (simp add: floor_div_def Let_def sdiv_pos smod_pos not_less)
qed

subsection \<open>The code\<close>

lemma uint_of_int_u32: "0 \<le> x \<Longrightarrow> x < 2 ^ 32 \<Longrightarrow> uint (word_of_int x :: u32) = x"
  by (simp add: uint_word_of_int take_bit_int_eq_self)

lemma year_code:
  assumes "0 \<le> doe" "0 \<le> year_of doe"
  shows "(doe - doe sdiv 1460 + doe sdiv 36524 - doe sdiv 146096) sdiv 365 = year_of doe"
proof -
  have "0 \<le> doe - doe div 1460 + doe div 36524 - doe div 146096"
    using assms(2) le_div_iff [of 365 0] by (simp add: year_of_def)
  with assms(1) show ?thesis by (simp add: sdiv_pos year_of_def)
qed

lemma year_start_code: "0 \<le> y \<Longrightarrow> 365 * y + y sdiv 4 - y sdiv 100 = year_start y"
  by (simp add: sdiv_pos year_start_def)

lemma month_code: "0 \<le> doy \<Longrightarrow> (5 * doy + 2) sdiv 153 = month_of doy"
  by (simp add: sdiv_pos month_of_def)

lemma month_start_code: "0 \<le> m \<Longrightarrow> (153 * m + 2) sdiv 5 = month_start m"
  by (simp add: sdiv_pos month_start_def)

lemma from_time_eq:
  "calendar_from_time time =
     (case date_of_days (time div SECONDS_PER_DAY) of (y, m, d) \<Rightarrow>
      let s = time mod SECONDS_PER_DAY
      in \<lparr>year = y, month = of_int m, day = of_int d, hour = of_int (s div 3600), minute = of_int (s div 60 mod 60),
          second = of_int (s mod 60)\<rparr>)"
proof -
  let ?days = "time div SECONDS_PER_DAY" and ?s = "time mod SECONDS_PER_DAY"
  let ?doe = "(?days + EPOCH_SHIFT) mod DAYS_PER_ERA"
  let ?y = "year_of ?doe"
  let ?doy = "?doe - year_start ?y"
  have s: "0 \<le> ?s" "?s sdiv 60 = ?s div 60" "?s sdiv 3600 = ?s div 3600" "?s smod 60 = ?s mod 60" "(?s div 60) smod 60 = ?s div 60 mod 60"
    by (simp_all add: SECONDS_PER_DAY_def sdiv_pos smod_pos)
  have fd: "floor_div time SECONDS_PER_DAY = ?days" "floor_div (?days + EPOCH_SHIFT) DAYS_PER_ERA = (?days + EPOCH_SHIFT) div DAYS_PER_ERA"
    by (simp_all add: floor_div_eq SECONDS_PER_DAY_def DAYS_PER_ERA_def)
  have doe: "0 \<le> ?doe" "?doe < DAYS_PER_ERA"
    by (simp_all add: DAYS_PER_ERA_def)
  note y = year_of_range [OF doe]
  have doy: "0 \<le> ?doy" "?doy \<le> 365"
    using y year_days_le [of ?doy ?y] by simp_all
  have m: "0 \<le> month_of ?doy"
    using month_of_range [OF doy] unfolding months [symmetric] by simp
  note code = year_code [OF doe(1) y(1)] year_start_code [OF y(1)] month_code [OF doy(1)] month_start_code [OF m]
  show ?thesis
    unfolding calendar_from_time_def Let_def fd minus_div_mult_eq_mod s code date_of_days_def march_date_def
    by simp
qed

lemma date_fits:
  assumes "valid_date (y, m, d)"
  shows "uint (of_int m :: u32) = m" "uint (of_int d :: u32) = d" "1 \<le> m" "m \<le> 12" "1 \<le> d" "d \<le> 31"
proof -
  show "1 \<le> m" "m \<le> 12" "1 \<le> d" "d \<le> 31"
    using assms by (simp_all add: valid_date_def month_length_def split: if_splits)
  then show "uint (of_int m :: u32) = m" "uint (of_int d :: u32) = d"
    by (simp_all add: uint_of_int_u32)
qed

lemma from_time_date: "date_of (calendar_from_time time) = date_of_days (time div SECONDS_PER_DAY)"
proof -
  obtain y m d where ymd: "date_of_days (time div SECONDS_PER_DAY) = (y, m, d)"
    by (rule prod_cases3)
  then have "valid_date (y, m, d)"
    using valid_date_of_days [of "time div SECONDS_PER_DAY"] by simp
  from date_fits [OF this] show ?thesis
    unfolding from_time_eq ymd by (simp add: date_of_def Let_def)
qed

lemma from_time_clock:
  "uint (hour (calendar_from_time time)) = time mod SECONDS_PER_DAY div 3600"
  "uint (minute (calendar_from_time time)) = time mod SECONDS_PER_DAY div 60 mod 60"
  "uint (second (calendar_from_time time)) = time mod SECONDS_PER_DAY mod 60"
proof -
  have s: "0 \<le> time mod SECONDS_PER_DAY" "time mod SECONDS_PER_DAY < 86400"
    by (simp_all add: SECONDS_PER_DAY_def)
  then have "time mod SECONDS_PER_DAY div 3600 < 2 ^ 32" "0 \<le> time mod SECONDS_PER_DAY div 3600"
    using zdiv_mono1 [of "time mod SECONDS_PER_DAY" 86400 3600] by simp_all
  then show "uint (hour (calendar_from_time time)) = time mod SECONDS_PER_DAY div 3600"
    unfolding from_time_eq Let_def by (simp add: split_beta uint_of_int_u32)
  have "x mod 60 < 2 ^ 32" for x :: int
    using pos_mod_bound [of 60 x] by simp
  then show "uint (minute (calendar_from_time time)) = time mod SECONDS_PER_DAY div 60 mod 60"
      "uint (second (calendar_from_time time)) = time mod SECONDS_PER_DAY mod 60"
    unfolding from_time_eq Let_def by (simp_all add: split_beta uint_of_int_u32)
qed

lemma to_time_eq:
  assumes "valid_calendar c"
  shows "calendar_to_time c = days_of_date (date_of c) * SECONDS_PER_DAY + time_of_day c"
proof -
  let ?m = "uint (month c)"
  have m: "1 \<le> ?m" "?m \<le> 12" and h: "uint (hour c) < 24" "uint (minute c) < 60"
    using assms by (simp_all add: valid_calendar_def valid_date_def date_of_def)
  have gt: "month c > 2 \<longleftrightarrow> ?m > 2"
    by (simp add: word_less_def)
  have clock: "uint (hour c * 3600) = uint (hour c) * 3600" "uint (minute c * 60) = uint (minute c) * 60"
    using h by (simp_all add: uint_word_ariths)
  have ym: "year_start (y mod 400) = (y - y div 400 * 400) * 365 + (y - y div 400 * 400) sdiv 4 - (y - y div 400 * 400) sdiv 100" for y
    by (simp add: year_start_def sdiv_pos minus_div_mult_eq_mod)
  show ?thesis
    using m month_start_code [of "?m - 3"] month_start_code [of "?m + 9"]
    unfolding calendar_to_time_def days_of_date_def date_of_def time_of_day_def clock
    by (simp add: gt floor_div_eq Let_def ym algebra_simps)
qed

lemma valid_from_time: "valid_calendar (calendar_from_time time)"
proof -
  have "time mod SECONDS_PER_DAY div 3600 < 24"
    using zdiv_mono1 [of "time mod SECONDS_PER_DAY" 86399 3600] by (simp add: SECONDS_PER_DAY_def)
  then show ?thesis
    by (simp add: valid_calendar_def from_time_date valid_date_of_days from_time_clock)
qed

lemma clock_split: "(s div 3600) * 3600 + (s div 60 mod 60) * 60 + s mod 60 = s" for s :: int
proof -
  have "s div 3600 = s div 60 div 60" by (simp add: zdiv_zmult2_eq [symmetric])
  then have "s div 3600 * 60 + s div 60 mod 60 = s div 60" by simp
  then have "(s div 3600 * 60 + s div 60 mod 60) * 60 + s mod 60 = s" by simp
  then show ?thesis by (simp add: algebra_simps)
qed

lemma to_time_from_time: "calendar_to_time (calendar_from_time time) = time"
  using to_time_eq [OF valid_from_time, of time]
  by (simp add: from_time_date days_of_date_of_days time_of_day_def from_time_clock clock_split)

lemma clock_join:
  fixes h m s :: int
  assumes "0 \<le> h" "h < 24" "0 \<le> m" "m < 60" "0 \<le> s" "s < 60"
  defines "t \<equiv> h * 3600 + m * 60 + s"
  shows "0 \<le> t" "t < 86400" "t div 3600 = h" "t div 60 mod 60 = m" "t mod 60 = s"
proof -
  show "0 \<le> t" "t < 86400" using assms by (simp_all add: t_def)
  have t: "t = s + (h * 60 + m) * 60" by (simp add: t_def)
  have "t div 60 = h * 60 + m" "t mod 60 = s"
    using assms(5,6) div_mult_self1 [of 60 s "h * 60 + m"] mod_mult_self1 [of s "h * 60 + m" 60] unfolding t
    by (simp_all only:) simp_all
  moreover have "t div 3600 = t div 60 div 60" by (simp add: zdiv_zmult2_eq [symmetric])
  ultimately show "t div 3600 = h" "t div 60 mod 60 = m" "t mod 60 = s"
    using assms by simp_all
qed

lemma next_second:
  fixes t k :: int
  assumes "0 < k"
  shows "t mod k < k - 1 \<Longrightarrow> (t + 1) mod k = t mod k + 1 \<and> (t + 1) div k = t div k"
    and "\<not> t mod k < k - 1 \<Longrightarrow> (t + 1) mod k = 0"
proof -
  have t: "t + 1 = (t mod k + 1) + t div k * k" by simp
  have r: "0 \<le> t mod k" "t mod k < k" using assms by simp_all
  show "(t + 1) mod k = t mod k + 1 \<and> (t + 1) div k = t div k" if "t mod k < k - 1"
    using r that assms by (subst (1 2) t, simp only: mod_mult_self1 div_mult_self1) simp
  show "(t + 1) mod k = 0" if "\<not> t mod k < k - 1"
  proof -
    have "t mod k + 1 = k" using r that by simp
    then show ?thesis by (subst t) (simp only: mod_mult_self1 mod_self)
  qed
qed

text \<open>
  C30: the conversion of a time to a date is the Gregorian calendar. Time 0 is midnight of
  1970-01-01, a day later is the next day of the calendar at the same time of day, and within
  a day the clock counts the seconds.
\<close>

theorem calendar_from_time_gregorian:
  "date_of (calendar_from_time 0) = (1970, 1, 1) \<and> time_of_day (calendar_from_time 0) = 0 \<and>
   date_of (calendar_from_time (time + 86400)) = next_day (date_of (calendar_from_time time)) \<and>
   time_of_day (calendar_from_time (time + 86400)) = time_of_day (calendar_from_time time) \<and>
   (if time_of_day (calendar_from_time time) < 86399
    then time_of_day (calendar_from_time (time + 1)) = time_of_day (calendar_from_time time) + 1 \<and>
         date_of (calendar_from_time (time + 1)) = date_of (calendar_from_time time)
    else time_of_day (calendar_from_time (time + 1)) = 0)"
proof -
  have clock: "time_of_day (calendar_from_time t) = t mod 86400" for t
    by (simp add: time_of_day_def from_time_clock clock_split SECONDS_PER_DAY_def)
  have "date_of_days 0 = (1970, 1, 1)"
    by code_simp
  moreover have "date_of (calendar_from_time (time + 86400)) = next_day (date_of (calendar_from_time time))"
    using date_of_days_next [of "time div 86400"] div_add_self2 [of 86400 time]
    by (simp add: from_time_date SECONDS_PER_DAY_def)
  moreover have "(time + 1) mod 86400 = time mod 86400 + 1 \<and> (time + 1) div 86400 = time div 86400" if "time mod 86400 < 86399"
    using next_second(1) [of 86400 time] that by simp
  moreover have "(time + 1) mod 86400 = 0" if "\<not> time mod 86400 < 86399"
    using next_second(2) [of 86400 time] that by simp
  ultimately show ?thesis
    unfolding clock by (simp add: from_time_date SECONDS_PER_DAY_def)
qed

lemma calendar_from_to:
  assumes c: "valid_calendar c"
  shows "calendar_from_time (calendar_to_time c) = c"
proof -
  let ?s = "time_of_day c"
  have s: "0 \<le> ?s" "?s < 86400" "?s div 3600 = uint (hour c)" "?s div 60 mod 60 = uint (minute c)" "?s mod 60 = uint (second c)"
    unfolding time_of_day_def using c by (auto simp: valid_calendar_def intro!: clock_join)
  have time: "calendar_to_time c div SECONDS_PER_DAY = days_of_date (date_of c)" "calendar_to_time c mod SECONDS_PER_DAY = ?s"
    unfolding to_time_eq [OF c] using s(1,2) by (simp_all add: SECONDS_PER_DAY_def)
  have "date_of_days (days_of_date (date_of c)) = date_of c"
    using c by (simp add: date_of_days_of_date valid_calendar_def)
  then show ?thesis
    unfolding from_time_eq time by (simp add: Let_def s date_of_def)
qed

subsection \<open>64-bit arithmetic\<close>

lemma i64_Some: "-9223372036854775808 \<le> x \<Longrightarrow> x \<le> 9223372036854775807 \<Longrightarrow> i64 x = Some x"
  by (simp add: i64_def)

lemma i64_eq_Some: "i64 x = Some y \<longleftrightarrow> y = x \<and> -9223372036854775808 \<le> x \<and> x \<le> 9223372036854775807"
  by (auto simp: i64_def)

lemma i64_bind_cong: "x = y \<Longrightarrow> f x = g \<Longrightarrow> i64 x \<bind> f = i64 y \<bind> (\<lambda>_. g)"
  by (simp add: i64_def)

lemma floor_div_i64_eq:
  assumes "0 < k"
  shows "floor_div_i64 a k = i64 (a div k)"
  using floor_div_eq [OF assms, of a] by (simp add: floor_div_i64_def floor_div_def Let_def split: if_splits)

text \<open>The ranges of the quantities that do not depend on the era.\<close>

lemma era_ranges:
  fixes x :: int
  defines "doe \<equiv> x mod DAYS_PER_ERA"
  defines "doy \<equiv> doe - year_start (year_of doe)"
  shows "0 \<le> doe" "doe < 146097" "0 \<le> year_of doe" "year_of doe \<le> 399" "0 \<le> doy" "doy \<le> 365" "0 \<le> month_of doy" "month_of doy \<le> 11"
proof -
  show doe: "0 \<le> doe" "doe < 146097" by (simp_all add: doe_def DAYS_PER_ERA_def)
  note y = year_of_range [of doe]
  have y': "0 \<le> year_of doe" "year_of doe < 400" using y doe by (simp_all add: DAYS_PER_ERA_def)
  then show "0 \<le> year_of doe" "year_of doe \<le> 399" by simp_all
  show doy: "0 \<le> doy" "doy \<le> 365"
    using y doe year_days_le [of doy "year_of doe"] by (simp_all add: doy_def DAYS_PER_ERA_def)
  show "0 \<le> month_of doy" "month_of doy \<le> 11" using month_of_range [OF doy] unfolding months [symmetric] by simp_all
qed

lemma from_time_ranges:
  fixes time d m sh e doe y doy mo :: int
  assumes "time = d * 86400 + m" "0 \<le> m" "m < 86400" "-9223372036854775808 \<le> time" "time \<le> 9223372036854775807"
    "sh = d + 719468" "sh = e * 146097 + doe" "0 \<le> doe" "doe < 146097" "0 \<le> y" "y \<le> 399"
  shows "i64 d = Some d" "i64 m = Some m" "i64 sh = Some sh" "i64 e = Some e" "i64 (e * 146097) = Some (e * 146097)" "i64 doe = Some doe"
    "i64 y = Some y" "i64 (e * 400) = Some (e * 400)" "i64 (y + e * 400) = Some (y + e * 400)" "i64 (y + e * 400 + 1) = Some (y + e * 400 + 1)"
    "-9223372036854775808 \<le> d * 86400 \<Longrightarrow> i64 (d * 86400) = Some (d * 86400)"
proof -
  have d: "-110000000000000 \<le> d" "d \<le> 110000000000000" using assms(1-5) by linarith+
  then have e: "-1000000000 \<le> e" "e \<le> 1000000000" using assms(6-9) by linarith+
  show "i64 d = Some d" "i64 m = Some m" "i64 sh = Some sh" "i64 e = Some e" "i64 (e * 146097) = Some (e * 146097)" "i64 doe = Some doe"
    "i64 y = Some y" "i64 (e * 400) = Some (e * 400)" "i64 (y + e * 400) = Some (y + e * 400)" "i64 (y + e * 400 + 1) = Some (y + e * 400 + 1)"
    using assms(2,3,6,8-11) d e by (simp_all add: i64_eq_Some)
  show "-9223372036854775808 \<le> d * 86400 \<Longrightarrow> i64 (d * 86400) = Some (d * 86400)"
    using assms(1-5) by (simp add: i64_eq_Some)
qed

lemma from_time_i64_eq:
  assumes "i64 time = Some time"
  shows "calendar_from_time_i64 time = (if -9223372036854775808 \<le> time div 86400 * 86400 then Some (calendar_from_time time) else None)"
proof -
  define d m where dm: "d = time div 86400" "m = time mod 86400"
  define sh where sh: "sh = d + EPOCH_SHIFT"
  define e doe where edoe: "e = sh div DAYS_PER_ERA" "doe = sh mod DAYS_PER_ERA"
  define y where y: "y = year_of doe"
  define doy where doy: "doy = doe - year_start y"
  have rg: "0 \<le> doe" "doe < 146097" "0 \<le> y" "y \<le> 399" "0 \<le> doy" "doy \<le> 365" "0 \<le> month_of doy" "month_of doy \<le> 11"
    using era_ranges [of sh] by (simp_all add: edoe(2) y doy)
  have t: "time = d * 86400 + m" "0 \<le> m" "m < 86400" "-9223372036854775808 \<le> time" "time \<le> 9223372036854775807"
    using assms by (simp_all add: i64_eq_Some dm)
  have s: "sh = d + 719468" "sh = e * 146097 + doe" by (simp_all add: sh EPOCH_SHIFT_def edoe DAYS_PER_ERA_def)
  note ok = from_time_ranges [OF t s rg(1-4)]
  have small: "i64 doy = Some doy" "i64 (month_of doy) = Some (month_of doy)" using rg by (simp_all add: i64_eq_Some)
  have un: "time - d * SECONDS_PER_DAY = m" "sh - e * DAYS_PER_ERA = doe"
    "floor_div time SECONDS_PER_DAY = d" "floor_div sh DAYS_PER_ERA = e"
    "floor_div_i64 time SECONDS_PER_DAY = Some d" "floor_div_i64 sh DAYS_PER_ERA = Some e"
    using t(1-3) s(2) rg(1,2) ok(1,4) by (simp_all add: SECONDS_PER_DAY_def DAYS_PER_ERA_def floor_div_eq floor_div_i64_eq dm(1) [symmetric] edoe(1) [unfolded DAYS_PER_ERA_def, symmetric])
  have code: "(doe - doe sdiv 1460 + doe sdiv 36524 - doe sdiv 146096) sdiv 365 = y" "doe - (365 * y + y sdiv 4 - y sdiv 100) = doy"
    "(5 * doy + 2) sdiv 153 = month_of doy"
    using year_code [OF rg(1)] year_start_code [OF rg(3)] month_code [OF rg(5)] rg(3) by (simp_all add: y [symmetric] doy)
  show ?thesis
  proof (cases "-9223372036854775808 \<le> d * 86400")
    case False
    then have "i64 (d * SECONDS_PER_DAY) = None" by (simp add: i64_def SECONDS_PER_DAY_def)
    then show ?thesis using False by (simp add: calendar_from_time_i64_def un dm(1) [symmetric])
  next
    case True
    have prod: "i64 (d * SECONDS_PER_DAY) = Some (d * SECONDS_PER_DAY)" "i64 (e * DAYS_PER_ERA) = Some (e * DAYS_PER_ERA)"
      using ok(11) [OF True] ok(5) by (simp_all add: SECONDS_PER_DAY_def DAYS_PER_ERA_def)
    show ?thesis
      unfolding calendar_from_time_i64_def calendar_from_time_def Let_def un Option.bind.bind_lunit prod ok small sh [symmetric] code dm(1) [symmetric]
      using True by simp
  qed
qed

lemma to_time_ranges:
  fixes d e doe k h mi se :: int
  assumes "d = e * 146097 + doe - 719468" "0 \<le> doe" "doe < 150000" "0 \<le> h" "h < 24" "0 \<le> mi" "mi < 60" "0 \<le> se" "se < 60"
    "-9223372036854775808 \<le> d * 86400" "d * 86400 + h * 3600 + mi * 60 + se \<le> 9223372036854775807" "0 \<le> k" "k < 400"
  shows "i64 e = Some e" "i64 (e * 400) = Some (e * 400)" "i64 k = Some k" "i64 doe = Some doe" "i64 (e * 146097) = Some (e * 146097)"
    "i64 (e * 146097 + doe) = Some (e * 146097 + doe)" "i64 d = Some d" "i64 (d * 86400) = Some (d * 86400)"
    "i64 (d * 86400 + h * 3600) = Some (d * 86400 + h * 3600)" "i64 (d * 86400 + h * 3600 + mi * 60) = Some (d * 86400 + h * 3600 + mi * 60)"
    "i64 (d * 86400 + h * 3600 + mi * 60 + se) = Some (d * 86400 + h * 3600 + mi * 60 + se)"
    "i64 (e * 400 + k) = Some (e * 400 + k)"
proof -
  have d: "-110000000000000 \<le> d" "d \<le> 110000000000000" using assms(4-11) by linarith+
  then have e: "-1000000000 \<le> e" "e \<le> 1000000000" using assms(1-3) by linarith+
  show "i64 e = Some e" "i64 (e * 400) = Some (e * 400)" "i64 k = Some k" "i64 doe = Some doe" "i64 (e * 146097) = Some (e * 146097)"
    "i64 (e * 146097 + doe) = Some (e * 146097 + doe)" "i64 d = Some d" "i64 (e * 400 + k) = Some (e * 400 + k)"
    using assms(2,3,12,13) d e by (simp_all add: i64_eq_Some)
  show "i64 (d * 86400) = Some (d * 86400)"
    "i64 (d * 86400 + h * 3600) = Some (d * 86400 + h * 3600)" "i64 (d * 86400 + h * 3600 + mi * 60) = Some (d * 86400 + h * 3600 + mi * 60)"
    "i64 (d * 86400 + h * 3600 + mi * 60 + se) = Some (d * 86400 + h * 3600 + mi * 60 + se)"
    using assms(4-11) by (simp_all add: i64_eq_Some)
qed

lemma to_time_i64_eq:
  assumes c: "valid_calendar c"
  shows "calendar_to_time_i64 c =
    (if -9223372036854775808 \<le> days_of_date (date_of c) * 86400 \<and> calendar_to_time c \<le> 9223372036854775807 then Some (calendar_to_time c) else None)"
proof -
  let ?m = "uint (month c)" and ?h = "uint (hour c)" and ?mi = "uint (minute c)" and ?se = "uint (second c)"
  define yr mfm where ym: "yr = (if ?m > 2 then year c else year c - 1)" "mfm = (if ?m > 2 then ?m - 3 else ?m + 9)"
  define e k where ek: "e = yr div 400" "k = yr mod 400"
  define doy where doy: "doy = month_start mfm + uint (day c) - 1"
  define doe where doe: "doe = year_start k + doy"
  define d where d: "d = e * 146097 + doe - 719468"
  have m: "1 \<le> ?m" "?m \<le> 12" "1 \<le> uint (day c)" "uint (day c) \<le> 31" and h: "0 \<le> ?h" "?h < 24" "0 \<le> ?mi" "?mi < 60" "0 \<le> ?se" "?se < 60"
    using c date_fits(3-6) [of "year c" ?m "uint (day c)"] by (simp_all add: valid_calendar_def date_of_def)
  have gt: "month c > 2 \<longleftrightarrow> ?m > 2" by (simp add: word_less_def)
  have clock: "uint (hour c * 3600) = ?h * 3600" "uint (minute c * 60) = ?mi * 60"
    using h by (simp_all add: uint_word_ariths)
  have mfm: "0 \<le> mfm" "mfm \<le> 11" using m by (simp_all add: ym)
  have k: "0 \<le> k" "k < 400" "yr = e * 400 + k" by (simp_all add: ek)
  have doy_range: "0 \<le> doy" "doy < 400"
    using m(3,4) mfm zdiv_mono1 [of "153 * mfm + 2" 1685 5] pos_imp_zdiv_nonneg_iff [of 5 "153 * mfm + 2"] by (simp_all add: doy month_start_def)
  have "0 \<le> year_start k" using k(1) unfolding year_start_def by linarith
  then have doe_range: "0 \<le> doe" "doe < 150000"
    using doy_range year_start_bound [of k] k(1,2) by (simp_all add: doe)
  have days: "days_of_date (date_of c) = d"
    by (simp add: days_of_date_def date_of_def Let_def d doe doy ek ym DAYS_PER_ERA_def EPOCH_SHIFT_def)
  have total: "calendar_to_time c = d * 86400 + ?h * 3600 + ?mi * 60 + ?se"
    by (simp add: to_time_eq [OF c] days time_of_day_def SECONDS_PER_DAY_def)
  have code: "(153 * mfm + 2) sdiv 5 + uint (day c) - 1 = doy" "k * 365 + k sdiv 4 - k sdiv 100 + doy = doe"
    using mfm k by (simp_all add: doy doe month_start_def year_start_def sdiv_pos)
  have run: "calendar_to_time_i64 c = (if ?m > 2 then Some yr else i64 yr) \<bind> (\<lambda>yr. i64 e \<bind> (\<lambda>_. i64 (e * 400) \<bind> (\<lambda>_. i64 k \<bind> (\<lambda>_.
      i64 doy \<bind> (\<lambda>_. i64 doe \<bind> (\<lambda>_. i64 (e * 146097) \<bind> (\<lambda>_. i64 (e * 146097 + doe) \<bind> (\<lambda>_. i64 d \<bind> (\<lambda>_.
      i64 (d * 86400) \<bind> (\<lambda>_. i64 (d * 86400 + ?h * 3600) \<bind> (\<lambda>_. i64 (d * 86400 + ?h * 3600 + ?mi * 60) \<bind> (\<lambda>_.
      i64 (d * 86400 + ?h * 3600 + ?mi * 60 + ?se)))))))))))))"
  proof -
    have "(if month c > 2 then Some (year c, ?m - 3) else map_option (\<lambda>yr. (yr, ?m + 9)) (i64 (year c - 1)))
        = (if ?m > 2 then Some yr else i64 yr) \<bind> (\<lambda>_. Some (yr, mfm))"
      by (simp add: gt ym i64_def)
    note start = this
    have e: "floor_div_i64 yr 400 = i64 e" by (simp add: floor_div_i64_eq ek)
    show ?thesis
      unfolding calendar_to_time_i64_def start Option.bind_assoc Option.bind.bind_lunit prod.case e
      by (intro arg_cong2 [where f = Option.bind] ext refl i64_bind_cong)
        (simp_all only: k(3) add_diff_cancel_left' code clock DAYS_PER_ERA_def EPOCH_SHIFT_def SECONDS_PER_DAY_def d)
  qed
  show ?thesis
  proof (cases "-9223372036854775808 \<le> d * 86400 \<and> calendar_to_time c \<le> 9223372036854775807")
    case True
    have "i64 doy = Some doy" using doy_range by (simp add: i64_eq_Some)
    with True show ?thesis
      unfolding run total days
      using to_time_ranges [OF d doe_range h _ _ k(1,2)] by (simp add: k(3) [symmetric])
  next
    case False
    have "calendar_to_time_i64 c \<noteq> Some t" for t
      using False unfolding run total by (auto simp: Option.bind_eq_Some_conv i64_eq_Some)
    then have "calendar_to_time_i64 c = None" by blast
    then show ?thesis using False unfolding days by (simp only: if_False)
  qed
qed

lemma i64_conversions:
  assumes "-(2 ^ 63) \<le> time" "time < 2 ^ 63"
  shows "calendar_from_time_i64 time = Some c \<longleftrightarrow> valid_calendar c \<and> calendar_to_time_i64 c = Some time"
    "calendar_from_time_i64 time =
      (if -(2 ^ 63) \<le> time div SECONDS_PER_DAY * SECONDS_PER_DAY then Some (calendar_from_time time) else None)"
    "valid_calendar c \<Longrightarrow> calendar_to_time_i64 c =
      (if -(2 ^ 63) \<le> days_of_date (date_of c) * SECONDS_PER_DAY \<and> calendar_to_time c < 2 ^ 63 then Some (calendar_to_time c) else None)"
proof -
  have t: "i64 time = Some time" using assms by (simp add: i64_eq_Some)
  note eqs = from_time_i64_eq [OF t] to_time_i64_eq
  show "calendar_from_time_i64 time =
      (if -(2 ^ 63) \<le> time div SECONDS_PER_DAY * SECONDS_PER_DAY then Some (calendar_from_time time) else None)"
    by (simp add: eqs(1) SECONDS_PER_DAY_def)
  show "valid_calendar c \<Longrightarrow> calendar_to_time_i64 c =
      (if -(2 ^ 63) \<le> days_of_date (date_of c) * SECONDS_PER_DAY \<and> calendar_to_time c < 2 ^ 63 then Some (calendar_to_time c) else None)"
    by (simp add: eqs(2) SECONDS_PER_DAY_def)
  have midnight: "days_of_date (date_of (calendar_from_time time)) = time div 86400"
    by (simp add: from_time_date days_of_date_of_days SECONDS_PER_DAY_def)
  show "calendar_from_time_i64 time = Some c \<longleftrightarrow> valid_calendar c \<and> calendar_to_time_i64 c = Some time"
  proof
    assume "calendar_from_time_i64 time = Some c"
    then show "valid_calendar c \<and> calendar_to_time_i64 c = Some time"
      using assms(2) midnight by (auto simp: eqs(1) eqs(2) [OF valid_from_time] valid_from_time to_time_from_time split: if_splits)
  next
    assume *: "valid_calendar c \<and> calendar_to_time_i64 c = Some time"
    then have time: "time = calendar_to_time c" "-9223372036854775808 \<le> days_of_date (date_of c) * 86400"
      by (auto simp: eqs(2) split: if_splits)
    have "c = calendar_from_time time" using calendar_from_to [of c] * time(1) by simp
    then show "calendar_from_time_i64 time = Some c" using time(2) midnight by (simp add: eqs(1))
  qed
qed

text \<open>
  C31: Converting with the code's signed 64-bit arithmetic is a round trip in both directions. For any 64-bit time, \<open>calendar_from_time\<close>
  returns the calendar \<open>c\<close> exactly when \<open>c\<close> is a valid calendar and \<open>calendar_to_time\<close> returns that time for it. The
  conversion overflows for no time but those of the first partial day of the 64-bit range, where the product \<open>days * SECONDS_PER_DAY\<close> is
  below the least 64-bit integer; wherever it returns, the calendar is the one computed with integers. And for a valid calendar
  \<open>calendar_to_time\<close> overflows exactly when midnight of its day is below the range or its time is above it.
\<close>

theorem calendar_roundtrip:
  assumes "-(2 ^ 63) \<le> time" "time < 2 ^ 63"
  shows "(calendar_from_time_i64 time = Some c \<longleftrightarrow> valid_calendar c \<and> calendar_to_time_i64 c = Some time)
    \<and> calendar_from_time_i64 time =
      (if -(2 ^ 63) \<le> time div SECONDS_PER_DAY * SECONDS_PER_DAY then Some (calendar_from_time time) else None)
    \<and> (valid_calendar c \<longrightarrow> calendar_to_time_i64 c =
      (if -(2 ^ 63) \<le> days_of_date (date_of c) * SECONDS_PER_DAY \<and> calendar_to_time c < 2 ^ 63 then Some (calendar_to_time c) else None))"
  using i64_conversions(1,3) [OF assms, of c] i64_conversions(2) [OF assms] by simp

text \<open>The last second of the 64-bit range, and the first one, which cannot be converted.\<close>

theorem calendar_roundtrip_witness:
  "valid_calendar \<lparr>year = 292277026596, month = 12, day = 4, hour = 15, minute = 30, second = 7\<rparr>
    \<and> calendar_to_time_i64 \<lparr>year = 292277026596, month = 12, day = 4, hour = 15, minute = 30, second = 7\<rparr> = Some (2 ^ 63 - 1)
    \<and> calendar_from_time_i64 (-(2 ^ 63)) = None"
proof -
  let ?c = "\<lparr>year = 292277026596, month = 12, day = 4, hour = 15, minute = 30, second = 7\<rparr>"
  have "calendar_from_time_i64 (2 ^ 63 - 1) = Some ?c"
    by code_simp
  moreover have "calendar_from_time_i64 (2 ^ 63 - 1) = Some ?c \<longleftrightarrow> valid_calendar ?c \<and> calendar_to_time_i64 ?c = Some (2 ^ 63 - 1)"
    by (rule conjunct1 [OF calendar_roundtrip]) simp_all
  moreover have "calendar_from_time_i64 (-(2 ^ 63)) = None"
    using calendar_roundtrip [of "-(2 ^ 63)"] by (simp add: SECONDS_PER_DAY_def)
  ultimately show ?thesis by blast
qed

end
