(* ===== verification/Fat_Time.thy ===== *)
theory Fat_Time
  imports Calendar
begin

text \<open>
  FAT time stamps, \<^verbatim>\<open>kernel/fs/fat/fat_time.c\<close>. The two little-endian words of a stamp are held as
  their values.
\<close>

record timespec =
  tv_sec :: int
  tv_nsec :: int

record fat_timestamp =
  stamp_date :: u16
  stamp_time :: u16
  tenth :: u8

definition FAT_YEAR_BASE :: int where "FAT_YEAR_BASE = 1980"
definition FAT_TIME_MIN :: int where "FAT_TIME_MIN = 315532800"
definition FAT_TIME_MAX :: int where "FAT_TIME_MAX = 4354819199"
definition FAT_NSEC_PER_HUNDREDTH :: int where "FAT_NSEC_PER_HUNDREDTH = 10000000"

definition fat_time_pack :: "timespec \<Rightarrow> fat_timestamp" where
  "fat_time_pack time =
     (let (seconds, nsec) = (tv_sec time, tv_nsec time);
          (seconds, nsec) = (if seconds < FAT_TIME_MIN then (FAT_TIME_MIN, 0) else (seconds, nsec));
          (seconds, nsec) = (if seconds > FAT_TIME_MAX then (FAT_TIME_MAX, 0) else (seconds, nsec));
          calendar = calendar_from_time seconds;
          yr = word_of_int (year calendar - FAT_YEAR_BASE) :: u32
      in \<lparr>stamp_date = ucast (push_bit 9 yr OR push_bit 5 (month calendar) OR day calendar),
          stamp_time = ucast (push_bit 11 (hour calendar) OR push_bit 5 (minute calendar) OR second calendar div 2),
          tenth = word_of_int (uint (second calendar mod 2 * 100) + nsec sdiv FAT_NSEC_PER_HUNDREDTH)\<rparr>)"

definition fat_time_unpack :: "fat_timestamp \<Rightarrow> timespec" where
  "fat_time_unpack stamp =
     (let date = stamp_date stamp; time = stamp_time stamp;
          calendar = \<lparr>year = FAT_YEAR_BASE + uint (drop_bit 9 date), month = ucast (drop_bit 5 date AND 0x0F),
                      day = ucast (date AND 0x1F), hour = ucast (drop_bit 11 time),
                      minute = ucast (drop_bit 5 time AND 0x3F), second = ucast (time AND 0x1F) * 2\<rparr>
      in if month calendar < 1 \<or> month calendar > 12 \<or> day calendar < 1 \<or> tenth stamp > 199
         then \<lparr>tv_sec = 0, tv_nsec = 0\<rparr>
         else \<lparr>tv_sec = calendar_to_time calendar + uint (tenth stamp div 100),
               tv_nsec = uint (tenth stamp mod 100) * FAT_NSEC_PER_HUNDREDTH\<rparr>)"

subsection \<open>The years a stamp can hold\<close>

definition days_before :: "int \<Rightarrow> int" where
  "days_before y = 365 * y + y div 4 - y div 100 + y div 400"

lemma days_before_mono:
  assumes "a \<le> b"
  shows "days_before a + 365 * (b - a) \<le> days_before b"
proof -
  have q: "x div 100 = x div 4 div 25" for x :: int
    by (simp add: zdiv_zmult2_eq [symmetric])
  have "a div 4 - a div 100 \<le> b div 4 - b div 100"
    unfolding q by (rule div_gap [OF zdiv_mono1 [OF assms]]) simp_all
  moreover have "a div 400 \<le> b div 400"
    by (rule zdiv_mono1 [OF assms]) simp
  ultimately show ?thesis by (simp add: days_before_def algebra_simps)
qed

lemma days_before_era:
  assumes "0 \<le> r" "r < 400"
  shows "days_before (r + e * 400) = e * DAYS_PER_ERA + year_start r"
proof -
  have "r + e * 400 = r + (e * 100) * 4" "r + e * 400 = r + (e * 4) * 100" by simp_all
  then have "(r + e * 400) div 4 = e * 100 + r div 4" "(r + e * 400) div 100 = e * 4 + r div 100"
    by (simp_all only: div_mult_self1 not_False_eq_True zero_neq_numeral)
  moreover have "(r + e * 400) div 400 = e"
    using assms by (simp only: div_mult_self1 zero_neq_numeral not_False_eq_True div_pos_pos_trivial)
  moreover have "365 * (r + e * 400) + (e * 100 + p) - (e * 4 + q) + e = e * 146097 + (365 * r + p - q)" for p q
    by simp
  ultimately show ?thesis
    by (simp only: days_before_def year_start_def DAYS_PER_ERA_def)
qed

lemma year_start_days: "y div 400 * DAYS_PER_ERA + year_start (y mod 400) = days_before y"
  using days_before_era [of "y mod 400" "y div 400"] by simp

lemma days_of_date_bounds:
  assumes "valid_date (y, m, d)"
  shows "y \<le> a \<Longrightarrow> days_of_date (y, m, d) \<le> days_before a + 305 - EPOCH_SHIFT"
    and "b \<le> y \<Longrightarrow> days_before (b - 1) + 306 - EPOCH_SHIFT \<le> days_of_date (y, m, d)"
proof -
  define ym where "ym = (if m > 2 then (y, m - 3) else (y - 1, m + 9))"
  let ?y = "fst ym" and ?doy = "month_start (snd ym) + d - 1"
  have march: "0 \<le> ?doy" "?doy < year_days ?y" "month_of ?doy = snd ym"
    using march_date_of_valid [OF assms, of ym, OF _ _ refl] by (simp_all add: ym_def)
  then have doy: "0 \<le> ?doy" "?doy \<le> 365"
    using year_days_le [of ?doy ?y] by simp_all
  have days: "days_of_date (y, m, d) = days_before ?y + ?doy - EPOCH_SHIFT"
    by (simp add: days_of_date_def ym_def Let_def year_start_days)
  have m: "1 \<le> m" "m \<le> 12"
    using assms by (simp_all add: valid_date_def)
  have mono: "i \<le> j \<Longrightarrow> month_start i \<le> month_start j" for i j
    unfolding month_start_def by (rule zdiv_mono1) simp_all
  have in_m: "month_start (snd ym) \<le> ?doy" "?doy < month_start (snd ym + 1)"
    using march(3) by (simp_all add: month_of_iff)
  show "days_of_date (y, m, d) \<le> days_before a + 305 - EPOCH_SHIFT" if "y \<le> a"
  proof (cases "m > 2")
    case True
    then have "?doy < 306"
      using in_m(2) mono [of "snd ym + 1" 10] m by (simp add: ym_def month_starts)
    then show ?thesis
      using True days days_before_mono [OF that] that by (simp add: ym_def)
  next
    case False
    then show ?thesis
      using days doy days_before_mono [of "y - 1" a] that by (simp add: ym_def)
  qed
  show "days_before (b - 1) + 306 - EPOCH_SHIFT \<le> days_of_date (y, m, d)" if "b \<le> y"
  proof (cases "m > 2")
    case True
    then show ?thesis
      using days doy days_before_mono [of "b - 1" y] that by (simp add: ym_def)
  next
    case False
    then have "306 \<le> ?doy"
      using in_m(1) mono [of 10 "snd ym"] m by (simp add: ym_def month_starts)
    then show ?thesis
      using False days days_before_mono [of "b - 1" "y - 1"] that by (simp add: ym_def)
  qed
qed

lemma stamp_year:
  assumes "FAT_TIME_MIN \<le> t" "t \<le> FAT_TIME_MAX"
  shows "1980 \<le> year (calendar_from_time t)" "year (calendar_from_time t) \<le> 2107"
proof -
  obtain y m d where ymd: "date_of_days (t div 86400) = (y, m, d)" by (rule prod_cases3)
  then have y: "year (calendar_from_time t) = y"
    using from_time_date [of t] by (simp add: date_of_def SECONDS_PER_DAY_def)
  have v: "valid_date (y, m, d)" and days: "days_of_date (y, m, d) = t div 86400"
    using valid_date_of_days [of "t div 86400"] days_of_date_of_days [of "t div 86400"] ymd by simp_all
  have t: "3652 \<le> t div 86400" "t div 86400 \<le> 50402"
    using zdiv_mono1 [OF assms(1), of 86400] zdiv_mono1 [OF assms(2), of 86400] by (simp_all add: FAT_TIME_MIN_def FAT_TIME_MAX_def)
  show "1980 \<le> year (calendar_from_time t)"
    using days_of_date_bounds(1) [OF v, of 1979] days t(1) y
    by (cases "y \<le> 1979") (simp_all add: days_before_def EPOCH_SHIFT_def)
  show "year (calendar_from_time t) \<le> 2107"
    using days_of_date_bounds(2) [OF v, of 2108] days t(2) y
    by (cases "2108 \<le> y") (simp_all add: days_before_def EPOCH_SHIFT_def)
qed

subsection \<open>Packing\<close>

lemma pack_fields:
  fixes a b c :: u32
  assumes "unat a < 2 ^ (16 - (i + j))" "unat b < 2 ^ j" "unat c < 2 ^ i" "i + j \<le> 16"
  defines "w \<equiv> ucast (push_bit (i + j) a OR push_bit i b OR c) :: u16"
  shows "ucast (drop_bit (i + j) w) = a" "ucast (drop_bit i w AND mask j) = b" "ucast (w AND mask i) = c"
proof -
  note bits = bit_less_pow [OF assms(1)] bit_less_pow [OF assms(2)] bit_less_pow [OF assms(3)]
  show "ucast (drop_bit (i + j) w) = a"
    using assms(4) unfolding w_def by (auto simp: bit_eq_iff bit_simps add.commute dest: bits)
  show "ucast (drop_bit i w AND mask j) = b"
    using assms(4) unfolding w_def by (auto simp: bit_eq_iff bit_simps dest: bits)
  show "ucast (w AND mask i) = c"
    using assms(4) unfolding w_def by (auto simp: bit_eq_iff bit_simps dest: bits)
qed

lemma to_time_second:
  "calendar_to_time (c\<lparr>second := s\<rparr>) = calendar_to_time c - uint (second c) + uint s"
  by (simp add: calendar_to_time_def Let_def split_beta)

lemma unat_less_uint: "uint w < int n \<Longrightarrow> unat w < n"
  unfolding unat_eq_nat_uint using nat_less_iff [of "uint w" n] by blast

lemma calendar_bounds:
  assumes "valid_calendar c"
  shows "unat (month c) < 16" "unat (day c) < 32" "unat (hour c) < 32" "unat (minute c) < 64" "unat (second c) < 60"
    "1 \<le> month c" "month c \<le> 12" "1 \<le> day c"
proof -
  have "uint (day c) \<le> 31"
    using assms date_fits(6) [of "year c" "uint (month c)" "uint (day c)"] by (simp add: valid_calendar_def date_of_def)
  moreover have "uint (month c) \<le> 12" "1 \<le> uint (month c)" "1 \<le> uint (day c)"
      "uint (hour c) < 24" "uint (minute c) < 60" "uint (second c) < 60"
    using assms by (simp_all add: valid_calendar_def valid_date_def date_of_def)
  ultimately show "unat (month c) < 16" "unat (day c) < 32" "unat (hour c) < 32" "unat (minute c) < 64" "unat (second c) < 60"
    "1 \<le> month c" "month c \<le> 12" "1 \<le> day c"
    by (simp_all add: unat_less_uint word_le_def)
qed

lemma unpack_calendar:
  assumes c: "valid_calendar c" and y: "1980 \<le> year c" "year c \<le> 2107"
  defines "date \<equiv> ucast (push_bit 9 (word_of_int (year c - FAT_YEAR_BASE)) OR push_bit 5 (month c) OR day c) :: u16"
    and "time \<equiv> ucast (push_bit 11 (hour c) OR push_bit 5 (minute c) OR second c div 2) :: u16"
  shows "\<lparr>year = FAT_YEAR_BASE + uint (drop_bit 9 date), month = ucast (drop_bit 5 date AND 0x0F),
           day = ucast (date AND 0x1F), hour = ucast (drop_bit 11 time),
           minute = ucast (drop_bit 5 time AND 0x3F), second = ucast (time AND 0x1F) * 2\<rparr> =
         c\<lparr>second := second c div 2 * 2\<rparr>"
proof -
  let ?y = "word_of_int (year c - FAT_YEAR_BASE) :: u32"
  have uy: "uint ?y = year c - FAT_YEAR_BASE"
    using y by (intro uint_of_int_u32) (simp_all add: FAT_YEAR_BASE_def)
  then have uy': "unat ?y < 128"
    using y by (intro unat_less_uint) (simp add: FAT_YEAR_BASE_def)
  have sec: "unat (second c div 2) < 32"
    using calendar_bounds(5) [OF c] by (simp add: unat_div)
  have masks: "mask 4 = (0x0F :: u16)" "mask 5 = (0x1F :: u16)" "mask 6 = (0x3F :: u16)"
    by (simp_all add: mask_eq_exp_minus_1)
  note d = pack_fields [of ?y 5 4 "month c" "day c"]
  note t = pack_fields [of "hour c" 5 6 "minute c" "second c div 2"]
  have "ucast (drop_bit 9 date) = ?y" "ucast (drop_bit 5 date AND 0x0F) = month c" "ucast (date AND 0x1F) = day c"
    using d uy' calendar_bounds [OF c] by (simp_all add: date_def masks)
  moreover have "ucast (drop_bit 11 time) = hour c" "ucast (drop_bit 5 time AND 0x3F) = minute c" "ucast (time AND 0x1F) = second c div 2"
    using t sec calendar_bounds [OF c] by (simp_all add: time_def masks)
  moreover have "uint (drop_bit 9 date) = uint (ucast (drop_bit 9 date) :: u32)"
    by (simp add: uint_up_ucast is_up)
  ultimately show ?thesis
    using uy by simp
qed

lemma tenth_fields:
  assumes "0 \<le> r" "r < 2" "0 \<le> n" "n < 100"
  defines "w \<equiv> word_of_int (r * 100 + n) :: u8"
  shows "\<not> w > 199" "uint (w div 100) = r" "uint (w mod 100) = n"
proof -
  have w: "uint w = r * 100 + n"
    unfolding w_def uint_word_of_int using assms by (intro mod_pos_pos_trivial) simp_all
  show "\<not> w > 199" using assms w by (simp add: word_less_def)
  show "uint (w div 100) = r" "uint (w mod 100) = n"
    using assms w by (simp_all add: uint_div uint_mod)
qed

lemma second_parity:
  fixes s :: u32
  assumes "unat s < 60"
  shows "0 \<le> uint (s mod 2)" "uint (s mod 2) < 2" "uint (s mod 2 * 100) = uint (s mod 2) * 100"
    "uint (s div 2 * 2) = uint s - uint (s mod 2)"
proof -
  show r: "0 \<le> uint (s mod 2)" "uint (s mod 2) < 2"
    by (simp_all add: uint_mod)
  then show "uint (s mod 2 * 100) = uint (s mod 2) * 100"
    by (simp add: uint_word_ariths)
  have "uint s < 60"
    using assms nat_less_iff [of "uint s" 60] unfolding unat_eq_nat_uint by simp
  then have "uint s div 2 * 2 < 2 ^ 32"
    using minus_mod_eq_div_mult [of "uint s" 2] pos_mod_sign [of 2 "uint s"] by simp
  then show "uint (s div 2 * 2) = uint s - uint (s mod 2)"
    by (simp add: uint_word_ariths uint_div uint_mod minus_mod_eq_div_mult)
qed

text \<open>
  C32: a time that a FAT stamp can hold, 1980 to 2107, is read back from its stamp exactly, up to
  the hundredths of a second that the format keeps.
\<close>

theorem fat_time_roundtrip:
  assumes "FAT_TIME_MIN \<le> tv_sec time" "tv_sec time \<le> FAT_TIME_MAX" "0 \<le> tv_nsec time" "tv_nsec time < 1000000000"
  shows "fat_time_unpack (fat_time_pack time) =
    \<lparr>tv_sec = tv_sec time, tv_nsec = tv_nsec time div FAT_NSEC_PER_HUNDREDTH * FAT_NSEC_PER_HUNDREDTH\<rparr>"
proof -
  let ?c = "calendar_from_time (tv_sec time)" and ?n = "tv_nsec time div FAT_NSEC_PER_HUNDREDTH"
  have c: "valid_calendar ?c" by (rule valid_from_time)
  note y = stamp_year [OF assms(1,2)]
  have n: "0 \<le> ?n" "?n < 100"
    using assms(3,4) le_div_iff [of FAT_NSEC_PER_HUNDREDTH 100 "tv_nsec time"]
    by (simp_all add: FAT_NSEC_PER_HUNDREDTH_def not_le [symmetric])
  note s = second_parity [OF calendar_bounds(5) [OF c]]
  note tenth = tenth_fields [OF s(1,2) n]
  have pack: "fat_time_pack time =
     \<lparr>stamp_date = ucast (push_bit 9 (word_of_int (year ?c - FAT_YEAR_BASE) :: u32) OR push_bit 5 (month ?c) OR day ?c),
      stamp_time = ucast (push_bit 11 (hour ?c) OR push_bit 5 (minute ?c) OR second ?c div 2),
      tenth = word_of_int (uint (second ?c mod 2) * 100 + ?n)\<rparr>"
    using assms by (simp add: fat_time_pack_def Let_def sdiv_pos FAT_NSEC_PER_HUNDREDTH_def flip: s(3))
  have "calendar_to_time (?c\<lparr>second := second ?c div 2 * 2\<rparr>) + uint (second ?c mod 2) = tv_sec time"
    using to_time_from_time [of "tv_sec time"] by (simp add: to_time_second s(4))
  moreover have "\<not> (month ?c < 1 \<or> month ?c > 12 \<or> day ?c < 1)"
    using calendar_bounds(6,7,8) [OF c] unfolding not_less [symmetric] by blast
  ultimately show ?thesis
    unfolding fat_time_unpack_def pack fat_timestamp.select_convs Let_def unpack_calendar [OF c y] tenth
    using tenth(1) by simp
qed

lemma fat_time_roundtrip_witness:
  "fat_time_unpack (fat_time_pack \<lparr>tv_sec = 951868799, tv_nsec = 987654321\<rparr>) = \<lparr>tv_sec = 951868799, tv_nsec = 980000000\<rparr>"
  using fat_time_roundtrip [of "\<lparr>tv_sec = 951868799, tv_nsec = 987654321\<rparr>"]
  by (simp add: FAT_TIME_MIN_def FAT_TIME_MAX_def FAT_NSEC_PER_HUNDREDTH_def)

end
