(* ===== verification/Crc32.thy ===== *)
theory Crc32
  imports Vex_Prelude
begin

text \<open>
  The table-driven CRC, \<^verbatim>\<open>kernel/crypto/crc32.c\<close>, against the bit-serial register it speeds up. The
  register takes the message bit by bit, least significant bit of a byte first, shifts right,
  and adds the polynomial when the bit shifted out differs from the message bit.
\<close>

record crc32_table =
  table :: "u32 list"
  initial :: u32

definition CRC32_TABLE_SIZE :: nat where "CRC32_TABLE_SIZE = 256"

definition shift_left :: "u32 \<Rightarrow> u32 \<Rightarrow> u32" where
  "shift_left polynomial w = (if w AND 0x80000000 \<noteq> 0 then polynomial XOR push_bit 1 w else push_bit 1 w)"

definition shift_right :: "u32 \<Rightarrow> u32 \<Rightarrow> u32" where
  "shift_right polynomial w = (if w AND 1 \<noteq> 0 then polynomial XOR drop_bit 1 w else drop_bit 1 w)"

definition crc32_table_init :: "u32 \<Rightarrow> u32 \<Rightarrow> crc32_table" where
  "crc32_table_init polynomial init =
     \<lparr>table = map (\<lambda>i. (shift_left polynomial ^^ 8) (push_bit 24 (of_nat i))) [0..<CRC32_TABLE_SIZE], initial = init\<rparr>"

definition crc32_table_init_refin :: "u32 \<Rightarrow> u32 \<Rightarrow> crc32_table" where
  "crc32_table_init_refin polynomial init =
     \<lparr>table = map (\<lambda>i. (shift_right polynomial ^^ 8) (of_nat i)) [0..<CRC32_TABLE_SIZE], initial = init\<rparr>"

fun crc32_bytes :: "crc32_table \<Rightarrow> u8 list \<Rightarrow> u32 \<Rightarrow> u32" where
  "crc32_bytes t [] crc = crc"
| "crc32_bytes t (b # data) crc = crc32_bytes t data (table t ! unat ((crc XOR ucast b) AND 0xFF) XOR drop_bit 8 crc)"

definition crc32_update :: "crc32_table \<Rightarrow> u8 list \<Rightarrow> u32 \<Rightarrow> u32" where
  "crc32_update t data ext = crc32_bytes t data (NOT ext) XOR 0xFFFFFFFF"

definition bswap32 :: "u32 \<Rightarrow> u32" where
  "bswap32 w = push_bit 24 w OR push_bit 8 (w AND 0xFF00) OR (drop_bit 8 w AND 0xFF00) OR drop_bit 24 w"

definition crc32_update_refout :: "crc32_table \<Rightarrow> u8 list \<Rightarrow> u32 \<Rightarrow> u32" where
  "crc32_update_refout t data ext =
     (let w = crc32_update t data ext;
          w = drop_bit 1 (w AND 0xAAAAAAAA) OR push_bit 1 (w AND 0x55555555);
          w = drop_bit 2 (w AND 0xCCCCCCCC) OR push_bit 2 (w AND 0x33333333);
          w = drop_bit 4 (w AND 0xF0F0F0F0) OR push_bit 4 (w AND 0x0F0F0F0F)
      in bswap32 w)"

definition crc32_compute :: "crc32_table \<Rightarrow> u8 list \<Rightarrow> u32" where
  "crc32_compute t data = crc32_update t data (NOT (initial t))"

definition crc32_compute_refout :: "crc32_table \<Rightarrow> u8 list \<Rightarrow> u32" where
  "crc32_compute_refout t data = crc32_update_refout t data (NOT (initial t))"

definition crc32_iso3309_table :: crc32_table where
  "crc32_iso3309_table = crc32_table_init_refin 0xEDB88320 0xFFFFFFFF"

subsection \<open>The bit-serial register\<close>

definition register_bit :: "u32 \<Rightarrow> bool \<Rightarrow> u32 \<Rightarrow> u32" where
  "register_bit polynomial b crc = drop_bit 1 crc XOR (if bit crc 0 \<noteq> b then polynomial else 0)"

definition register_bits :: "u32 \<Rightarrow> bool list \<Rightarrow> u32 \<Rightarrow> u32" where
  "register_bits polynomial bs crc = fold (register_bit polynomial) bs crc"

definition message_bits :: "u8 list \<Rightarrow> bool list" where
  "message_bits data = concat (map (\<lambda>b. map (bit b) [0..<8]) data)"

lemma shift_right_eq: "shift_right p w = drop_bit 1 w XOR (if bit w 0 then p else 0)"
  by (simp add: shift_right_def and_one_eq bit_0 odd_iff_mod_2_eq_one xor.commute)

lemmas xor_ac = xor.assoc xor.commute xor.left_commute

lemma shift_right_xor: "shift_right p (a XOR b) = shift_right p a XOR shift_right p b"
proof -
  have "(if bit (a XOR b) 0 then p else 0) = (if bit a 0 then p else 0) XOR (if bit b 0 then p else 0)"
    by (simp add: bit_xor_iff)
  then show ?thesis
    unfolding shift_right_eq drop_bit_xor by (simp only: xor_ac)
qed

lemma shift_rights_xor: "(shift_right p ^^ n) (a XOR b) = (shift_right p ^^ n) a XOR (shift_right p ^^ n) b"
  by (induction n) (simp_all add: shift_right_xor)

lemma shift_rights_high: "(\<And>k. k < n \<Longrightarrow> \<not> bit w k) \<Longrightarrow> (shift_right p ^^ n) w = drop_bit n w"
proof (induction n)
  case (Suc n)
  then have "(shift_right p ^^ n) w = drop_bit n w" by simp
  moreover have "shift_right p (drop_bit n w) = drop_bit (Suc n) w"
    unfolding shift_right_eq using Suc.prems by (simp add: bit_drop_bit_eq)
  ultimately show ?case by simp
qed simp

lemma register_bits_byte:
  fixes b :: u8
  shows "register_bits p (map (bit b) [0..<n]) crc = (shift_right p ^^ n) (crc XOR ucast b) XOR drop_bit n (ucast b)"
proof (induction n)
  case (Suc n)
  let ?s = "(shift_right p ^^ n) (crc XOR ucast b)" and ?d = "drop_bit n (ucast b) :: u32"
  have "bit ?d 0 = bit b n"
    using bit_imp_le_length [of b n] by (auto simp: bit_simps)
  then have "register_bit p (bit b n) (?s XOR ?d) = shift_right p ?s XOR drop_bit 1 ?d"
    unfolding register_bit_def shift_right_eq drop_bit_xor bit_xor_iff by (auto simp: xor_ac)
  with Suc show ?case
    by (simp add: register_bits_def)
qed (simp add: register_bits_def xor.assoc)

lemma crc32_byte:
  fixes b :: u8
  assumes "t = crc32_table_init_refin p init"
  shows "table t ! unat ((crc XOR ucast b) AND 0xFF) XOR drop_bit 8 crc = register_bits p (map (bit b) [0..<8]) crc"
proof -
  let ?v = "crc XOR ucast b"
  have m: "(0xFF :: u32) = mask 8" by (simp add: mask_eq_exp_minus_1)
  have less: "unat (?v AND 0xFF) < 256"
    unfolding m by (simp add: unat_and_mask)
  then have entry: "table t ! unat (?v AND 0xFF) = (shift_right p ^^ 8) (?v AND 0xFF)"
    unfolding assms crc32_table_init_refin_def by (simp add: CRC32_TABLE_SIZE_def)
  have high: "(shift_right p ^^ 8) (?v AND NOT 0xFF) = drop_bit 8 crc"
  proof -
    have "(shift_right p ^^ 8) (?v AND NOT 0xFF) = drop_bit 8 (?v AND NOT 0xFF)"
      unfolding m by (rule shift_rights_high) (simp add: bit_simps)
    also have "\<dots> = drop_bit 8 crc"
      unfolding m by (auto simp: bit_eq_iff bit_simps dest: bit_imp_le_length)
    finally show ?thesis .
  qed
  have "?v = (?v AND 0xFF) XOR (?v AND NOT 0xFF)"
    by (auto simp: bit_eq_iff bit_simps)
  then have "(shift_right p ^^ 8) ?v = (shift_right p ^^ 8) (?v AND 0xFF) XOR drop_bit 8 crc"
    using shift_rights_xor [of 8 p "?v AND 0xFF" "?v AND NOT 0xFF"] high by simp
  moreover have "drop_bit 8 (ucast b :: u32) = 0"
    by (auto simp: bit_eq_iff bit_simps dest: bit_imp_le_length)
  ultimately show ?thesis
    using register_bits_byte [of p b 8 crc] entry by simp
qed

lemma crc32_bytes_register:
  assumes "t = crc32_table_init_refin p init"
  shows "crc32_bytes t data crc = register_bits p (message_bits data) crc"
  by (induction data arbitrary: crc)
     (simp_all add: crc32_byte [OF assms] register_bits_def message_bits_def)

lemma crc32_bytes_append: "crc32_bytes t (a @ b) crc = crc32_bytes t b (crc32_bytes t a crc)"
  by (induction a arbitrary: crc) simp_all

lemma xor_ones: "w XOR 0xFFFFFFFF = NOT w" for w :: u32
proof -
  have "(0xFFFFFFFF :: u32) = mask 32" by (simp add: mask_eq_exp_minus_1)
  then show ?thesis by (auto simp: bit_eq_iff bit_simps)
qed

text \<open>Reversing the order of the bits, in four steps of exchanging neighbours.\<close>

lemma bit_exchange:
  fixes w m m' :: u32
  shows "bit (drop_bit s (w AND m) OR push_bit s (w AND m')) k \<longleftrightarrow>
    bit m (s + k) \<and> bit w (s + k) \<or> s \<le> k \<and> k < 32 \<and> bit m' (k - s) \<and> bit w (k - s)"
  by (auto simp: bit_simps)

lemma bit_bswap32:
  "k < 32 \<Longrightarrow> bit (bswap32 w) k = bit w (if k < 8 then k + 24 else if k < 16 then k + 8 else if k < 24 then k - 8 else k - 24)"
proof -
  assume "k < 32"
  have m: "(0xFF00 :: u32) = push_bit 8 (mask 8)" by (simp add: mask_eq_exp_minus_1 push_bit_eq_mult)
  have *: "bit w k \<Longrightarrow> k < 32" for k
    using bit_imp_le_length [of w k] by simp
  show ?thesis
    using \<open>k < 32\<close> unfolding bswap32_def m by (auto simp: bit_simps add.commute dest: *)
qed

lemma below_32:
  fixes k :: nat
  assumes "k < 32"
  shows "k \<in> {0, 1, 2, 3, 4, 5, 6, 7, 8, 9, 10, 11, 12, 13, 14, 15, 16, 17, 18, 19, 20, 21, 22, 23, 24, 25, 26, 27, 28, 29, 30, 31}"
  using assms by simp presburger

lemma bit_reverse32:
  fixes w :: u32
  defines "a \<equiv> drop_bit 1 (w AND 0xAAAAAAAA) OR push_bit 1 (w AND 0x55555555)"
  defines "b \<equiv> drop_bit 2 (a AND 0xCCCCCCCC) OR push_bit 2 (a AND 0x33333333)"
  defines "c \<equiv> drop_bit 4 (b AND 0xF0F0F0F0) OR push_bit 4 (b AND 0x0F0F0F0F)"
  assumes "k < 32"
  shows "bit (bswap32 c) k = bit w (31 - k)"
proof -
  have a: "bit a k = bit w (if even k then k + 1 else k - 1)" if "k < 32" for k
    using below_32 [OF that] unfolding a_def bit_exchange by (elim insertE) (simp_all add: numeral_2_eq_2 [symmetric])
  have b: "bit b k = bit a (if even (k div 2) then k + 2 else k - 2)" if "k < 32" for k
    using below_32 [OF that] unfolding b_def bit_exchange by (elim insertE) (simp_all add: numeral_2_eq_2 [symmetric])
  have c: "bit c k = bit b (if even (k div 4) then k + 4 else k - 4)" if "k < 32" for k
    using below_32 [OF that] unfolding c_def bit_exchange by (elim insertE) (simp_all add: numeral_2_eq_2 [symmetric])
  show ?thesis
    using below_32 [OF assms(4)] by (elim insertE) (simp_all add: a b c bit_bswap32 numeral_2_eq_2 [symmetric])
qed

text \<open>
  C33: the table computes the checksum of the bit-serial register for every polynomial; a
  checksum continues over a message given in pieces; the reflected output reverses its bits;
  and the self-check that the kernel asserts at boot holds.
\<close>

theorem crc32_correct:
  "crc32_update (crc32_table_init_refin p init) data ext = NOT (register_bits p (message_bits data) (NOT ext)) \<and>
   crc32_update t (data @ rest) ext = crc32_update t rest (crc32_update t data ext) \<and>
   (k < 32 \<longrightarrow> bit (crc32_update_refout t data ext) k = bit (crc32_update t data ext) (31 - k)) \<and>
   crc32_compute crc32_iso3309_table [0x31, 0x32, 0x33, 0x34, 0x35, 0x36, 0x37, 0x38, 0x39] = 0xCBF43926"
proof (intro conjI impI)
  show "crc32_update (crc32_table_init_refin p init) data ext = NOT (register_bits p (message_bits data) (NOT ext))"
    by (simp only: crc32_update_def crc32_bytes_register [OF refl] xor_ones)
  show "crc32_update t (data @ rest) ext = crc32_update t rest (crc32_update t data ext)"
    by (simp only: crc32_update_def crc32_bytes_append xor_ones bit.double_compl)
  show "bit (crc32_update_refout t data ext) k = bit (crc32_update t data ext) (31 - k)" if "k < 32"
    unfolding crc32_update_refout_def Let_def by (rule bit_reverse32 [OF that])
  show "crc32_compute crc32_iso3309_table [0x31, 0x32, 0x33, 0x34, 0x35, 0x36, 0x37, 0x38, 0x39] = 0xCBF43926"
    unfolding crc32_compute_def crc32_update_def crc32_bytes_register [OF crc32_iso3309_table_def] xor_ones
    by (simp add: crc32_iso3309_table_def crc32_table_init_refin_def) code_simp
qed

lemma crc32_correct_witness:
  "bit (crc32_update_refout crc32_iso3309_table [1, 2] 0) 5 = bit (crc32_update crc32_iso3309_table [1, 2] 0) 26"
  using crc32_correct [where t = crc32_iso3309_table and data = "[1, 2]" and ext = 0 and k = 5 and p = 0 and init = 0 and rest = "[]"]
  by simp

end
