(* ===== verification/Tty_Ring.thy ===== *)
theory Tty_Ring
  imports Vex_Prelude
begin

text \<open>
  The byte rings of the terminal core, \<^verbatim>\<open>kernel/include/vex/tty_interface.h\<close>. The positions count up
  and wrap around as 32-bit words, which the size of the ring divides. A client sees a ring
  through a contract: a bounded queue of bytes.
\<close>

definition TTY_RING_SIZE :: u32 where "TTY_RING_SIZE = 4096"

record tty_ring =
  data :: "u8 list"
  head :: u32
  tail :: u32

definition tty_ring_used :: "tty_ring \<Rightarrow> u32" where
  "tty_ring_used ring = tail ring - head ring"

definition tty_ring_room :: "tty_ring \<Rightarrow> u32" where
  "tty_ring_room ring = TTY_RING_SIZE - (tail ring - head ring)"

definition ring_slot :: "u32 \<Rightarrow> nat" where
  "ring_slot position = unat (position mod TTY_RING_SIZE)"

definition tty_ring_at :: "tty_ring \<Rightarrow> u32 \<Rightarrow> u8" where
  "tty_ring_at ring position = data ring ! ring_slot position"

definition tty_ring_put :: "tty_ring \<Rightarrow> u8 \<Rightarrow> tty_ring" where
  "tty_ring_put ring byte = ring\<lparr>data := (data ring)[ring_slot (tail ring) := byte], tail := tail ring + 1\<rparr>"

definition tty_ring_take :: "tty_ring \<Rightarrow> u8 \<times> tty_ring" where
  "tty_ring_take ring = (data ring ! ring_slot (head ring), ring\<lparr>head := head ring + 1\<rparr>)"

subsection \<open>Positions\<close>

text \<open>Two positions less than a ring apart share a slot only when they are the same.\<close>

lemma ring_slot_less [simp]: "ring_slot p < 4096"
  by (simp add: ring_slot_def TTY_RING_SIZE_def unat_mod)

lemma ring_slot_nat: "ring_slot p = unat p mod 4096"
  by (simp add: ring_slot_def TTY_RING_SIZE_def unat_mod)

lemma ring_slot_add: "ring_slot (p + of_nat i) = (ring_slot p + i) mod 4096"
proof -
  have "unat (p + of_nat i) mod 4096 = ((unat p + i) mod (4096 * 2 ^ 20)) mod 4096"
    by (simp add: unat_word_ariths unat_of_nat mod_simps)
  also have "\<dots> = (unat p + i) mod 4096"
    by (rule mod_mod_cancel) simp
  finally show ?thesis
    by (simp add: ring_slot_nat mod_simps)
qed

lemma mod_add_less: "a < n \<Longrightarrow> i < n \<Longrightarrow> (a + i) mod n = (if a + i < n then a + i else a + i - n)" for a i n :: nat
  by (simp add: le_mod_geq)

lemma ring_slot_inj:
  assumes "i < 4096" "j < 4096"
  shows "ring_slot (p + of_nat i) = ring_slot (p + of_nat j) \<longleftrightarrow> i = j"
  unfolding ring_slot_add using assms ring_slot_less [of p] by (auto simp: mod_add_less split: if_splits)

lemma unat_of_nat_u32: "n \<le> 4096 \<Longrightarrow> unat (of_nat n :: u32) = n"
  by (simp add: unat_of_nat)

lemma position_eq: "p = q + of_nat (unat (p - q))" for p q :: u32
  by simp

subsection \<open>The contract\<close>

locale byte_queue =
  fixes ok :: "'r \<Rightarrow> bool"
    and bytes :: "'r \<Rightarrow> u8 list"
    and room :: "'r \<Rightarrow> nat"
    and put :: "'r \<Rightarrow> u8 \<Rightarrow> 'r"
    and pop :: "'r \<Rightarrow> u8 \<times> 'r"
  assumes ok_put: "ok r \<Longrightarrow> 0 < room r \<Longrightarrow> ok (put r b) \<and> bytes (put r b) = bytes r @ [b] \<and> room (put r b) = room r - 1"
    and ok_pop: "ok r \<Longrightarrow> bytes r \<noteq> [] \<Longrightarrow>
      ok (snd (pop r)) \<and> fst (pop r) = hd (bytes r) \<and> bytes (snd (pop r)) = tl (bytes r) \<and> room (snd (pop r)) = room r + 1"
begin

lemma put_all:
  "ok r \<Longrightarrow> length bs \<le> room r \<Longrightarrow>
    ok (fold (\<lambda>b r. put r b) bs r) \<and> bytes (fold (\<lambda>b r. put r b) bs r) = bytes r @ bs \<and>
    room (fold (\<lambda>b r. put r b) bs r) = room r - length bs"
proof (induction bs arbitrary: r)
  case (Cons b bs)
  then show ?case
    using ok_put [of r b] Cons.IH [of "put r b"] by simp
qed simp

end

definition ring_ok :: "tty_ring \<Rightarrow> bool" where
  "ring_ok ring \<longleftrightarrow> length (data ring) = 4096 \<and> unat (tail ring - head ring) \<le> 4096"

definition ring_bytes :: "tty_ring \<Rightarrow> u8 list" where
  "ring_bytes ring = map (\<lambda>i. tty_ring_at ring (head ring + of_nat i)) [0..<unat (tail ring - head ring)]"

lemma ring_cases:
  assumes "ring_ok r"
  obtains n where "n \<le> 4096" "tail r = head r + of_nat n" "unat (tail r - head r) = n"
  using assms position_eq [of "tail r" "head r"] that [of "unat (tail r - head r)"] unfolding ring_ok_def by blast

lemma unat_ring_room: "ring_ok r \<Longrightarrow> unat (tty_ring_room r) = 4096 - length (ring_bytes r)"
  using unat_sub [of "tail r - head r" 4096]
  by (simp add: tty_ring_room_def ring_ok_def ring_bytes_def TTY_RING_SIZE_def word_le_nat_alt)

lemma ring_used_bytes: "unat (tty_ring_used r) = length (ring_bytes r)"
  by (simp add: tty_ring_used_def ring_bytes_def)

lemma ring_bytes_put:
  assumes ok: "ring_ok r" and room: "length (ring_bytes r) < 4096"
  shows "ring_ok (tty_ring_put r b)" "ring_bytes (tty_ring_put r b) = ring_bytes r @ [b]"
proof -
  from ok obtain n where n: "n \<le> 4096" "tail r = head r + of_nat n" "unat (tail r - head r) = n"
    by (rule ring_cases)
  then have less: "n < 4096" using room by (simp add: ring_bytes_def)
  have t: "tail (tty_ring_put r b) - head (tty_ring_put r b) = of_nat (Suc n)"
    using n(2) by (simp add: tty_ring_put_def)
  then have u: "unat (tail (tty_ring_put r b) - head (tty_ring_put r b)) = Suc n"
    using less by (simp only: unat_of_nat_u32)
  then show "ring_ok (tty_ring_put r b)"
    using ok less by (simp add: ring_ok_def tty_ring_put_def)
  have "tty_ring_at (tty_ring_put r b) (head r + of_nat i) = (if i = n then b else tty_ring_at r (head r + of_nat i))" if "i \<le> n" for i
    using ok that less n(2) ring_slot_inj [of n i "head r"] by (simp add: tty_ring_at_def tty_ring_put_def ring_ok_def nth_list_update)
  then show "ring_bytes (tty_ring_put r b) = ring_bytes r @ [b]"
    unfolding ring_bytes_def u n(3) by (simp add: tty_ring_put_def)
qed

lemma ring_bytes_take:
  assumes ok: "ring_ok r" and some: "ring_bytes r \<noteq> []"
  shows "ring_ok (snd (tty_ring_take r))" "fst (tty_ring_take r) = hd (ring_bytes r)"
    "ring_bytes (snd (tty_ring_take r)) = tl (ring_bytes r)"
proof -
  from ok obtain n where n: "n \<le> 4096" "tail r = head r + of_nat n" "unat (tail r - head r) = n"
    by (rule ring_cases)
  have pos: "0 < n" using some n(3) by (simp add: ring_bytes_def)
  have "tail r - (head r + 1) = of_nat n - 1" using n(2) by simp
  also have "\<dots> = of_nat (n - 1)" using pos by (simp add: of_nat_diff)
  finally have u: "unat (tail r - (head r + 1)) = n - 1"
    using n(1) by (simp only: unat_of_nat_u32)
  then show "ring_ok (snd (tty_ring_take r))"
    using ok n(1) by (simp add: ring_ok_def tty_ring_take_def)
  have split: "[0..<n] = 0 # map Suc [0..<n - 1]"
    using pos by (simp add: upt_conv_Cons map_Suc_upt)
  then show "fst (tty_ring_take r) = hd (ring_bytes r)"
    unfolding ring_bytes_def n(3) by (simp add: tty_ring_take_def tty_ring_at_def)
  show "ring_bytes (snd (tty_ring_take r)) = tl (ring_bytes r)"
    unfolding ring_bytes_def n(3) split by (simp add: tty_ring_take_def tty_ring_at_def u comp_def add.assoc)
qed

lemma ring_bytes_le: "ring_ok r \<Longrightarrow> length (ring_bytes r) \<le> 4096"
  by (simp add: ring_ok_def ring_bytes_def)

interpretation rq: byte_queue ring_ok ring_bytes "\<lambda>r. 4096 - length (ring_bytes r)" tty_ring_put tty_ring_take
proof unfold_locales
  show "ring_ok (tty_ring_put r b) \<and> ring_bytes (tty_ring_put r b) = ring_bytes r @ [b] \<and>
      4096 - length (ring_bytes (tty_ring_put r b)) = 4096 - length (ring_bytes r) - 1"
    if "ring_ok r" "0 < 4096 - length (ring_bytes r)" for r b
    using that by (simp add: ring_bytes_put)
  show "ring_ok (snd (tty_ring_take r)) \<and> fst (tty_ring_take r) = hd (ring_bytes r) \<and>
      ring_bytes (snd (tty_ring_take r)) = tl (ring_bytes r) \<and>
      4096 - length (ring_bytes (snd (tty_ring_take r))) = 4096 - length (ring_bytes r) + 1"
    if "ring_ok r" "ring_bytes r \<noteq> []" for r
    using that ring_bytes_le [of r] by (cases "ring_bytes r") (simp_all add: ring_bytes_take)
qed

lemma ring_bytes_flush: "ring_ok r \<Longrightarrow> ring_ok (r\<lparr>head := tail r\<rparr>)" "ring_bytes (r\<lparr>head := tail r\<rparr>) = []"
  by (simp_all add: ring_ok_def ring_bytes_def)

end
