(* ===== verification/Tty_Discipline.thy ===== *)
theory Tty_Discipline
  imports Tty_Ring Ctype Bitmap
begin

text \<open>
  The line discipline of terminals, \<^verbatim>\<open>kernel/dev/tty_discipline.c\<close>: input editing, echo, output
  processing and flow control, over the rings of the terminal core and the calls into it
  (\<^verbatim>\<open>kernel/dev/tty_interface.c\<close>). The state is the part of \<^verbatim>\<open>tty_interface_private_t\<close> that both
  work on under the device's lock; a function of the discipline is a function on it. A flag
  is tested with \<open>has\<close>. Loops over ring positions wrap around with the positions, and every loop
  is a function with its termination proved.
\<close>

abbreviation (input) has :: "u32 \<Rightarrow> u32 \<Rightarrow> bool" where
  "has flags f \<equiv> flags AND f \<noteq> 0"

subsection \<open>Settings\<close>

record termios =
  c_iflag :: u32
  c_oflag :: u32
  c_cflag :: u32
  c_lflag :: u32
  c_cc :: "u8 list"
  c_ispeed :: u32
  c_ospeed :: u32

definition POSIX_VDISABLE :: u8 where "POSIX_VDISABLE = 0"

definition VINTR :: nat where "VINTR = 0"
definition VQUIT :: nat where "VQUIT = 1"
definition VERASE :: nat where "VERASE = 2"
definition VKILL :: nat where "VKILL = 3"
definition VEOF :: nat where "VEOF = 4"
definition VEOL :: nat where "VEOL = 5"
definition VEOL2 :: nat where "VEOL2 = 6"
definition VSTART :: nat where "VSTART = 7"
definition VSTOP :: nat where "VSTOP = 8"
definition VSUSP :: nat where "VSUSP = 9"
definition VREPRINT :: nat where "VREPRINT = 10"
definition VWERASE :: nat where "VWERASE = 11"
definition VLNEXT :: nat where "VLNEXT = 12"
definition VSTATUS :: nat where "VSTATUS = 16"

definition IGNBRK :: u32 where "IGNBRK = 0x0001"
definition BRKINT :: u32 where "BRKINT = 0x0002"
definition IGNPAR :: u32 where "IGNPAR = 0x0004"
definition PARMRK :: u32 where "PARMRK = 0x0008"
definition INPCK :: u32 where "INPCK = 0x0010"
definition ISTRIP :: u32 where "ISTRIP = 0x0020"
definition INLCR :: u32 where "INLCR = 0x0040"
definition IGNCR :: u32 where "IGNCR = 0x0080"
definition ICRNL :: u32 where "ICRNL = 0x0100"
definition IUCLC :: u32 where "IUCLC = 0x0200"
definition IXON :: u32 where "IXON = 0x0400"
definition IXANY :: u32 where "IXANY = 0x0800"
definition IXOFF :: u32 where "IXOFF = 0x1000"
definition IMAXBEL :: u32 where "IMAXBEL = 0x2000"
definition IUTF8 :: u32 where "IUTF8 = 0x4000"

definition OPOST :: u32 where "OPOST = 0x0001"
definition OLCUC :: u32 where "OLCUC = 0x0002"
definition ONLCR :: u32 where "ONLCR = 0x0004"
definition OCRNL :: u32 where "OCRNL = 0x0008"
definition ONOCR :: u32 where "ONOCR = 0x0010"
definition ONLRET :: u32 where "ONLRET = 0x0020"
definition OFILL :: u32 where "OFILL = 0x0040"
definition OFDEL :: u32 where "OFDEL = 0x0080"
definition NLDLY :: u32 where "NLDLY = 0x0100"
definition NL1 :: u32 where "NL1 = 0x0100"
definition CRDLY :: u32 where "CRDLY = 0x0600"
definition CR1 :: u32 where "CR1 = 0x0200"
definition TABDLY :: u32 where "TABDLY = 0x1800"
definition TAB1 :: u32 where "TAB1 = 0x0800"
definition TAB3 :: u32 where "TAB3 = 0x1800"
definition BSDLY :: u32 where "BSDLY = 0x2000"
definition BS1 :: u32 where "BS1 = 0x2000"
definition VTDLY :: u32 where "VTDLY = 0x4000"
definition VT1 :: u32 where "VT1 = 0x4000"
definition FFDLY :: u32 where "FFDLY = 0x8000"
definition FF1 :: u32 where "FF1 = 0x8000"

definition ISIG :: u32 where "ISIG = 0x0001"
definition ICANON :: u32 where "ICANON = 0x0002"
definition XCASE :: u32 where "XCASE = 0x0004"
definition ECHO :: u32 where "ECHO = 0x0008"
definition ECHOE :: u32 where "ECHOE = 0x0010"
definition ECHOK :: u32 where "ECHOK = 0x0020"
definition ECHONL :: u32 where "ECHONL = 0x0040"
definition ECHOPRT :: u32 where "ECHOPRT = 0x0080"
definition ECHOCTL :: u32 where "ECHOCTL = 0x0100"
definition ECHOKE :: u32 where "ECHOKE = 0x0200"
definition NOFLSH :: u32 where "NOFLSH = 0x0400"
definition IEXTEN :: u32 where "IEXTEN = 0x1000"

definition SIGINT :: nat where "SIGINT = 2"
definition SIGQUIT :: nat where "SIGQUIT = 3"
definition SIGTSTP :: nat where "SIGTSTP = 19"
definition SIGINFO :: nat where "SIGINFO = 29"

definition TAB_WIDTH :: u32 where "TAB_WIDTH = 8"
definition DELETE :: u8 where "DELETE = 0x7F"
definition BELL :: u8 where "BELL = 0x07"
definition MARK :: u8 where "MARK = 0xFF"
definition CONTROL_FLIP :: u8 where "CONTROL_FLIP = 0x40"
definition STOP_ROOM :: u32 where "STOP_ROOM = 256"
definition START_ROOM :: u32 where "START_ROOM = TTY_RING_SIZE div 2"
definition MAX_CANON :: u32 where "MAX_CANON = 4096"
definition TTY_EXPANSION_MAX :: nat where "TTY_EXPANSION_MAX = 16"

datatype tty_error = TTY_ERROR_NONE | TTY_ERROR_BREAK | TTY_ERROR_PARITY | TTY_ERROR_FRAMING | TTY_ERROR_OVERRUN

record tty =
  termios :: termios
  flip_ring :: tty_ring
  output_ring :: tty_ring
  xchar :: u8
  output_stopped :: bool
  signals :: u32
  lost :: u32
  flip_errors :: bitmap
  input_ring :: tty_ring
  delimiters :: "u8 list"
  line_end :: u32
  line_column :: u32
  column :: u32
  literal_next :: bool
  escaped :: bool
  input_stopped :: bool
  hardcopy_erasing :: bool

subsection \<open>The output side of the core\<close>

definition tty_output_put :: "tty \<Rightarrow> u8 list \<Rightarrow> bool \<times> tty" where
  "tty_output_put s bytes =
     (if unat (tty_ring_room (output_ring s)) < length bytes then (False, s)
      else (True, s\<lparr>output_ring := fold (\<lambda>b r. tty_ring_put r b) bytes (output_ring s)\<rparr>))"

definition tty_output_put_ahead :: "tty \<Rightarrow> u8 \<Rightarrow> tty" where
  "tty_output_put_ahead s byte = s\<lparr>xchar := byte\<rparr>"

definition tty_output_flush :: "tty \<Rightarrow> tty" where
  "tty_output_flush s = s\<lparr>output_ring := (output_ring s)\<lparr>head := tail (output_ring s)\<rparr>\<rparr>"

definition tty_output_set_stopped :: "tty \<Rightarrow> bool \<Rightarrow> tty" where
  "tty_output_set_stopped s stopped = s\<lparr>output_stopped := stopped\<rparr>"

definition tty_output_is_stopped :: "tty \<Rightarrow> bool" where
  "tty_output_is_stopped s = output_stopped s"

definition tty_queue_signal :: "tty \<Rightarrow> nat \<Rightarrow> tty" where
  "tty_queue_signal s sig = s\<lparr>signals := signals s OR push_bit sig 1\<rparr>"

subsection \<open>Output processing\<close>

definition is_utf8_continuation :: "u8 \<Rightarrow> bool" where
  "is_utf8_continuation byte \<longleftrightarrow> byte AND 0xC0 = 0x80"

definition is_special :: "termios \<Rightarrow> u8 \<Rightarrow> nat \<Rightarrow> bool" where
  "is_special t byte index = (let special = c_cc t ! index in special \<noteq> POSIX_VDISABLE \<and> special = byte)"

definition xcase_escape :: "u8 \<Rightarrow> u8" where
  "xcase_escape byte =
     (if byte = 0x7B then 0x28 else if byte = 0x7D then 0x29 else if byte = 0x7C then 0x21
      else if byte = 0x7E then 0x5E else if byte = 0x60 then 0x27 else 0)"

definition xcase_unescape :: "u8 \<Rightarrow> u8" where
  "xcase_unescape byte =
     (if byte = 0x28 then 0x7B else if byte = 0x29 then 0x7D else if byte = 0x21 then 0x7C
      else if byte = 0x5E then 0x7E else if byte = 0x27 then 0x60 else 0)"

definition delay_fills :: "u32 \<Rightarrow> u8 \<Rightarrow> u32" where
  "delay_fills oflag byte =
     (if byte = 0x0A then (oflag AND NLDLY) div NL1
      else if byte = 0x0D then (oflag AND CRDLY) div CR1
      else if byte = 0x09 then (oflag AND TABDLY) div TAB1
      else if byte = 0x08 then (oflag AND BSDLY) div BS1
      else if byte = 0x0B then 2 * ((oflag AND VTDLY) div VT1)
      else if byte = 0x0C then 2 * ((oflag AND FFDLY) div FF1)
      else 0)"

definition next_tab_stop :: "u32 \<Rightarrow> u32" where
  "next_tab_stop col = (col div TAB_WIDTH + 1) * TAB_WIDTH"

definition echo_width :: "termios \<Rightarrow> u8 \<Rightarrow> u32" where
  "echo_width t byte =
     (if iscntrl (uint byte) then if has (c_lflag t) ECHOCTL then 2 else 0
      else if has (c_iflag t) IUTF8 \<and> is_utf8_continuation byte then 0 else 1)"

definition expand_printable :: "termios \<Rightarrow> u8 \<Rightarrow> u32 \<Rightarrow> u8 list \<times> u32" where
  "expand_printable t byte col =
     (let (out, byte) =
            (if c_lflag t AND (XCASE OR ICANON) = XCASE OR ICANON then
               let escape = xcase_escape byte
               in if isupper (uint byte) then ([0x5C], byte)
                  else if escape \<noteq> 0 then ([0x5C], escape) else ([], byte)
             else ([], byte));
          byte = (if has (c_oflag t) OLCUC then of_int (toupper (uint byte)) else byte);
          out = out @ [byte]
      in (out, if \<not> iscntrl (uint byte) \<and> \<not> (has (c_iflag t) IUTF8 \<and> is_utf8_continuation byte)
               then col + of_nat (length out) else col))"

text \<open>The loop of \<^verbatim>\<open>expand\<close> that writes a tab as spaces.\<close>

function tab_spaces :: "u32 \<Rightarrow> u32 \<Rightarrow> u8 list \<times> u32" where
  "tab_spaces col stop =
     (if col < stop then case tab_spaces (col + 1) stop of (out, col) \<Rightarrow> (0x20 # out, col) else ([], col))"
  by pat_completeness auto
termination
proof (relation "measure (\<lambda>(col, stop). unat (stop - col))")
  fix col stop :: u32
  assume "col < stop"
  then have "stop - col \<noteq> 0" by simp
  then have "unat (stop - col - 1) < unat (stop - col)" by (rule measure_unat)
  then show "((col + 1, stop), col, stop) \<in> measure (\<lambda>(col, stop). unat (stop - col))"
    by (simp add: diff_diff_eq)
qed simp

declare tab_spaces.simps [simp del]

definition fill_bytes :: "u32 \<Rightarrow> u8 \<Rightarrow> u8 list" where
  "fill_bytes oflag byte =
     (if has oflag OFILL then replicate (unat (delay_fills oflag byte)) (if has oflag OFDEL then DELETE else 0) else [])"

definition expand :: "termios \<Rightarrow> u8 \<Rightarrow> u32 \<Rightarrow> u8 list \<times> u32" where
  "expand t byte col =
     (let oflag = c_oflag t
      in if oflag AND OPOST = 0 then ([byte], if echo_width t byte = 1 then col + 1 else col)
         else if byte = 0x0A then
           (if has oflag ONLCR then ([0x0D, 0x0A] @ fill_bytes oflag byte, 0)
            else ([0x0A] @ fill_bytes oflag byte, if has oflag ONLRET then 0 else col))
         else if byte = 0x0D then
           (if has oflag ONOCR \<and> col = 0 then ([], col)
            else if has oflag OCRNL then ([0x0A] @ fill_bytes oflag 0x0A, if has oflag ONLRET then 0 else col)
            else ([0x0D] @ fill_bytes oflag 0x0D, 0))
         else if byte = 0x09 then
           let stop = next_tab_stop col
           in if oflag AND TABDLY = TAB3 then tab_spaces col stop
              else ([0x09] @ fill_bytes oflag byte, stop)
         else if byte = 0x08 then ([0x08] @ fill_bytes oflag byte, if col > 0 then col - 1 else col)
         else if byte = 0x0B \<or> byte = 0x0C then ([byte] @ fill_bytes oflag byte, col)
         else expand_printable t byte col)"

definition tty_discipline_output :: "tty \<Rightarrow> u8 \<Rightarrow> bool \<times> tty" where
  "tty_discipline_output s byte =
     (case expand (termios s) byte (column s) of (expanded, col) \<Rightarrow>
      case tty_output_put s expanded of
        (False, s) \<Rightarrow> (False, s)
      | (True, s) \<Rightarrow> (True, s\<lparr>column := col\<rparr>))"

definition output_or_drop :: "tty \<Rightarrow> u8 \<Rightarrow> tty" where
  "output_or_drop s byte = snd (tty_discipline_output s byte)"

definition echo :: "tty \<Rightarrow> u8 \<Rightarrow> tty" where
  "echo s byte =
     (if has (c_lflag (termios s)) ECHOCTL \<and> iscntrl (uint byte) \<and> byte \<noteq> 0x09 \<and> byte \<noteq> 0x0A
      then output_or_drop (output_or_drop s 0x5E) (byte XOR CONTROL_FLIP)
      else output_or_drop s byte)"

definition echo_string :: "tty \<Rightarrow> u8 list \<Rightarrow> tty" where
  "echo_string s string = fold (\<lambda>b s. output_or_drop s b) string s"

text \<open>Echo changes the output, its columns and the mark of an erasure on paper only.\<close>

definition echo_frame :: "tty \<Rightarrow> tty \<Rightarrow> bool" where
  "echo_frame s s' \<longleftrightarrow> s' = s\<lparr>output_ring := output_ring s', column := column s', line_column := line_column s',
     hardcopy_erasing := hardcopy_erasing s'\<rparr>"

lemma echo_frame_refl [simp, intro]: "echo_frame s s"
  by (simp add: echo_frame_def)

lemma echo_frame_trans: "echo_frame s s' \<Longrightarrow> echo_frame s' s'' \<Longrightarrow> echo_frame s s''"
  unfolding echo_frame_def by (cases s; cases s'; cases s'') simp

lemma echo_frame_fields:
  assumes "echo_frame s s'"
  shows "termios s' = termios s" "flip_ring s' = flip_ring s" "xchar s' = xchar s" "output_stopped s' = output_stopped s"
    "signals s' = signals s" "lost s' = lost s" "flip_errors s' = flip_errors s" "input_ring s' = input_ring s"
    "delimiters s' = delimiters s" "line_end s' = line_end s"
    "literal_next s' = literal_next s" "escaped s' = escaped s" "input_stopped s' = input_stopped s"
  using assms unfolding echo_frame_def by (cases s; cases s'; simp)+

lemma output_or_drop_frame [simp, intro]: "echo_frame s (output_or_drop s b)"
  unfolding echo_frame_def
  by (cases s) (auto simp: output_or_drop_def tty_discipline_output_def tty_output_put_def split: prod.split)

lemma echo_frame_echo [simp, intro]: "echo_frame s (echo s b)"
  unfolding echo_def by (auto intro: echo_frame_trans)

lemma echo_frame_fold: "(\<And>s b. echo_frame s (f b s)) \<Longrightarrow> echo_frame s (fold f bs s)"
  by (induction bs arbitrary: s) (auto intro: echo_frame_trans)

lemma echo_frame_echo_string [simp, intro]: "echo_frame s (echo_string s bs)"
  unfolding echo_string_def by (rule echo_frame_fold) simp

subsection \<open>The line being edited\<close>

text \<open>A loop from one ring position up to another.\<close>

function positions :: "u32 \<Rightarrow> u32 \<Rightarrow> u32 list" where
  "positions a b = (if a = b then [] else a # positions (a + 1) b)"
  by pat_completeness auto
termination
proof (relation "measure (\<lambda>(a, b). unat (b - a))")
  fix a b :: u32
  assume "a \<noteq> b"
  then have "b - a \<noteq> 0" by simp
  then have "unat (b - a - 1) < unat (b - a)" by (rule measure_unat)
  then show "((a + 1, b), a, b) \<in> measure (\<lambda>(a, b). unat (b - a))"
    by (simp add: diff_diff_eq)
qed simp

declare positions.simps [simp del]

definition delimiter_at :: "tty \<Rightarrow> u32 \<Rightarrow> bool" where
  "delimiter_at s position =
     (let b = ring_slot position in delimiters s ! (b div 8) AND push_bit (b mod 8) 1 \<noteq> 0)"

definition store :: "tty \<Rightarrow> u8 \<Rightarrow> bool \<Rightarrow> tty" where
  "store s byte delimiter =
     (let b = ring_slot (tail (input_ring s));
          old = delimiters s ! (b div 8);
          new = (if delimiter then old OR push_bit (b mod 8) 1 else old AND NOT (push_bit (b mod 8) 1))
      in s\<lparr>delimiters := (delimiters s)[b div 8 := new], input_ring := tty_ring_put (input_ring s) byte\<rparr>)"

definition close_hardcopy_erase :: "tty \<Rightarrow> tty" where
  "close_hardcopy_erase s = (if hardcopy_erasing s then echo (s\<lparr>hardcopy_erasing := False\<rparr>) 0x2F else s)"

definition line_width :: "tty \<Rightarrow> u32 \<Rightarrow> u32" where
  "line_width s end_position =
     fold (\<lambda>position col.
       let byte = tty_ring_at (input_ring s) position
       in if byte = 0x09 then next_tab_stop col else col + echo_width (termios s) byte)
     (positions (line_end s) end_position) (line_column s)"

text \<open>The loop that moves the cursor back over a tab, while the output takes it.\<close>

function back_up :: "u32 \<Rightarrow> u32 \<Rightarrow> tty \<Rightarrow> tty" where
  "back_up i target s = (if i > 0 \<and> column s > target then back_up (i - 1) target (output_or_drop s 0x08) else s)"
  by pat_completeness auto
termination
  by (relation "measure (\<lambda>(i, _). unat i)") (auto intro: measure_unat)

declare back_up.simps [simp del]

definition echo_erase :: "tty \<Rightarrow> u32 \<Rightarrow> u32 \<Rightarrow> tty" where
  "echo_erase s erased_at erased_end =
     (if has (c_lflag (termios s)) ECHOPRT then
        let s = (if \<not> hardcopy_erasing s then echo (s\<lparr>hardcopy_erasing := True\<rparr>) 0x5C else s)
        in fold (\<lambda>position s. echo s (tty_ring_at (input_ring s) position)) (positions erased_at erased_end) s
      else
        let lead = tty_ring_at (input_ring s) erased_at
        in if lead = 0x09 then
             let target = line_width s erased_at in back_up (column s - target) target s
           else ((\<lambda>s. echo_string s [0x08, 0x20, 0x08]) ^^ unat (echo_width (termios s) lead)) s)"

text \<open>The loop of \<^verbatim>\<open>erase_last\<close> that steps over the continuation bytes of a character.\<close>

function skip_continuation :: "tty_ring \<Rightarrow> u32 \<Rightarrow> u32 \<Rightarrow> u32" where
  "skip_continuation ring start t =
     (if t \<noteq> start \<and> is_utf8_continuation (tty_ring_at ring t) then skip_continuation ring start (t - 1) else t)"
  by pat_completeness auto
termination
proof (relation "measure (\<lambda>(_, start, t). unat (t - start))")
  fix ring start t
  assume "t \<noteq> start \<and> is_utf8_continuation (tty_ring_at ring t)"
  then have "unat (t - start - 1) < unat (t - start)" by (intro measure_unat) simp
  then show "((ring, start, t - 1), ring, start, t) \<in> measure (\<lambda>(_, start, t). unat (t - start))"
    by (simp add: diff_diff_eq add.commute)
qed simp

declare skip_continuation.simps [simp del]

definition erase_last :: "tty \<Rightarrow> bool \<times> tty" where
  "erase_last s =
     (let t = termios s; ring = input_ring s; end_position = tail ring
      in if tail ring = line_end s then (False, s)
         else
           let new = tail ring - 1;
               new = (if has (c_iflag t) IUTF8 then skip_continuation ring (line_end s) new else new);
               s = s\<lparr>input_ring := ring\<lparr>tail := new\<rparr>\<rparr>
           in (True, if c_lflag t AND (ECHO OR ECHOE) = ECHO OR ECHOE \<or> c_lflag t AND (ECHO OR ECHOPRT) = ECHO OR ECHOPRT
                     then echo_erase s new end_position else s))"

lemma echo_frame_hardcopy [simp, intro]: "echo_frame s (s\<lparr>hardcopy_erasing := h\<rparr>)"
  by (simp add: echo_frame_def)

lemma echo_frame_line_column [simp, intro]: "echo_frame s (s\<lparr>line_column := c\<rparr>)"
  by (simp add: echo_frame_def)

lemma echo_frame_close_hardcopy_erase [simp, intro]: "echo_frame s (close_hardcopy_erase s)"
  unfolding close_hardcopy_erase_def by (auto intro: echo_frame_trans)

lemma echo_frame_back_up: "echo_frame s (back_up i target s)"
proof (induction i target s rule: back_up.induct)
  case (1 i target s)
  then show ?case
    by (subst back_up.simps) (auto intro: echo_frame_trans)
qed

lemma echo_frame_funpow: "(\<And>s. echo_frame s (f s)) \<Longrightarrow> echo_frame s ((f ^^ n) s)"
  by (induction n) (auto intro: echo_frame_trans)

lemma echo_frame_echo_erase [simp, intro]: "echo_frame s (echo_erase s a b)"
proof -
  have fold: "echo_frame s (fold (\<lambda>position s. echo s (tty_ring_at (input_ring s) position)) ps s)" for ps s
    by (rule echo_frame_fold) simp
  then have "echo_frame s' (fold (\<lambda>position s. echo s (tty_ring_at (input_ring s) position)) ps (echo (s'\<lparr>hardcopy_erasing := True\<rparr>) c))" for s' ps c
    by (rule echo_frame_trans [OF echo_frame_trans [OF echo_frame_hardcopy echo_frame_echo]])
  then show ?thesis
    unfolding echo_erase_def Let_def
    by (simp add: fold echo_frame_back_up echo_frame_funpow)
qed

text \<open>Where erasing a character leaves the end of the input.\<close>

definition erased_tail :: "tty \<Rightarrow> u32" where
  "erased_tail s =
     (let new = tail (input_ring s) - 1
      in if has (c_iflag (termios s)) IUTF8 then skip_continuation (input_ring s) (line_end s) new else new)"

lemma erase_last_cases:
  "tail (input_ring s) = line_end s \<Longrightarrow> erase_last s = (False, s)"
  "tail (input_ring s) \<noteq> line_end s \<Longrightarrow> fst (erase_last s) \<and>
     echo_frame (s\<lparr>input_ring := (input_ring s)\<lparr>tail := erased_tail s\<rparr>\<rparr>) (snd (erase_last s))"
  by (auto simp: erase_last_def Let_def erased_tail_def)

lemma skip_continuation_le: "unat (skip_continuation ring start t - start) \<le> unat (t - start)"
proof (induction ring start t rule: skip_continuation.induct)
  case (1 ring start t)
  show ?case
  proof (cases "t \<noteq> start \<and> is_utf8_continuation (tty_ring_at ring t)")
    case True
    then have "unat (t - start - 1) < unat (t - start)" by (intro measure_unat) simp
    with 1 [OF True] have "unat (skip_continuation ring start (t - 1) - start) \<le> unat (t - start)"
      unfolding diff_right_commute [of t 1 start] by simp
    with True show ?thesis
      by (subst skip_continuation.simps) simp
  next
    case False
    then show ?thesis by (subst skip_continuation.simps) auto
  qed
qed

lemma erased_tail_less:
  assumes "tail (input_ring s) \<noteq> line_end s"
  shows "unat (erased_tail s - line_end s) < unat (tail (input_ring s) - line_end s)"
proof -
  let ?t = "tail (input_ring s) - 1"
  have "unat (tail (input_ring s) - line_end s - 1) < unat (tail (input_ring s) - line_end s)"
    using assms by (intro measure_unat) simp
  then have less: "unat (?t - line_end s) < unat (tail (input_ring s) - line_end s)"
    by (simp only: diff_right_commute)
  show ?thesis
  proof (cases "has (c_iflag (termios s)) IUTF8")
    case True
    then have "erased_tail s = skip_continuation (input_ring s) (line_end s) ?t"
      by (simp add: erased_tail_def)
    then show ?thesis
      using le_less_trans [OF skip_continuation_le less] by simp
  next
    case False
    then show ?thesis using less by (simp add: erased_tail_def)
  qed
qed

lemma erase_last_less:
  assumes "tail (input_ring s) \<noteq> line_end s"
  shows "unat (tail (input_ring (snd (erase_last s))) - line_end (snd (erase_last s))) <
    unat (tail (input_ring s) - line_end s)"
  using erased_tail_less [OF assms] echo_frame_fields(8,10) [OF conjunct2 [OF erase_last_cases(2) [OF assms]]] by simp

definition erases_visibly :: "termios \<Rightarrow> bool" where
  "erases_visibly t = has (c_lflag t) (ECHOE OR ECHOPRT)"

definition erase :: "tty \<Rightarrow> u8 \<Rightarrow> tty" where
  "erase s byte =
     (case erase_last s of
        (False, s) \<Rightarrow> s
      | (True, s) \<Rightarrow> if has (c_lflag (termios s)) ECHO \<and> \<not> erases_visibly (termios s) then echo s byte else s)"

text \<open>The loops that erase as long as the last byte is, or is not, a blank.\<close>

function erase_while :: "bool \<Rightarrow> tty \<Rightarrow> tty" where
  "erase_while blank s =
     (if tail (input_ring s) \<noteq> line_end s \<and> isblank (uint (tty_ring_at (input_ring s) (tail (input_ring s) - 1))) = blank
      then erase_while blank (snd (erase_last s)) else s)"
  by pat_completeness auto
termination
  by (relation "measure (\<lambda>(_, s). unat (tail (input_ring s) - line_end s))") (auto intro: erase_last_less)

declare erase_while.simps [simp del]

definition erase_word :: "tty \<Rightarrow> u8 \<Rightarrow> tty" where
  "erase_word s byte =
     (let s = erase_while False (erase_while True s)
      in if has (c_lflag (termios s)) ECHO \<and> \<not> erases_visibly (termios s) then echo s byte else s)"

function erase_all :: "tty \<Rightarrow> tty" where
  "erase_all s = (if fst (erase_last s) then erase_all (snd (erase_last s)) else snd (erase_last s))"
  by pat_completeness auto
termination
  by (relation "measure (\<lambda>s. unat (tail (input_ring s) - line_end s))")
     (auto intro!: erase_last_less simp: erase_last_cases(1))

declare erase_all.simps [simp del]

definition kill_line :: "tty \<Rightarrow> u8 \<Rightarrow> tty" where
  "kill_line s byte =
     (let lflag = c_lflag (termios s)
      in if lflag AND (ECHO OR ECHOKE OR ECHOE) = ECHO OR ECHOKE OR ECHOE then erase_all s
         else
           let s = s\<lparr>input_ring := (input_ring s)\<lparr>tail := line_end s\<rparr>\<rparr>;
               s = (if has lflag ECHO then
                      let s = echo s byte in if has lflag ECHOK then echo s 0x0A else s
                    else s)
           in s\<lparr>line_column := column s\<rparr>)"

definition reprint :: "tty \<Rightarrow> u8 \<Rightarrow> tty" where
  "reprint s byte =
     (if c_lflag (termios s) AND ECHO = 0 then s
      else
        let s = echo (echo s byte) 0x0A;
            s = s\<lparr>line_column := column s\<rparr>
        in fold (\<lambda>position s. echo s (tty_ring_at (input_ring s) position))
             (positions (line_end s) (tail (input_ring s))) s)"

subsection \<open>Taking input\<close>

definition input_fits :: "tty \<Rightarrow> u32 \<Rightarrow> bool" where
  "input_fits s n =
     (if has (c_lflag (termios s)) ICANON
      then tty_ring_room (input_ring s) > n \<and> tail (input_ring s) - line_end s + n < MAX_CANON
      else tty_ring_room (input_ring s) \<ge> n)"

definition end_raw_data :: "tty \<Rightarrow> tty" where
  "end_raw_data s =
     (if c_lflag (termios s) AND ICANON = 0 then s\<lparr>line_end := tail (input_ring s)\<rparr> else s)"

definition put_data :: "tty \<Rightarrow> u8 \<Rightarrow> tty" where
  "put_data s byte =
     (let s = close_hardcopy_erase s;
          t = termios s;
          n = (if c_iflag t AND (PARMRK OR IGNPAR) = PARMRK \<and> byte = MARK then 2 else 1)
      in if \<not> input_fits s n then
           (if has (c_lflag t) ICANON \<and> has (c_iflag t) IMAXBEL then output_or_drop s BELL else s)
         else
           let s = (if has (c_lflag t) ECHO then echo s byte else s)
           in end_raw_data (((\<lambda>s. store s byte False) ^^ unat n) s))"

definition put_error :: "tty \<Rightarrow> u8 \<Rightarrow> tty" where
  "put_error s byte =
     end_raw_data
       (if c_iflag (termios s) AND PARMRK = 0 then if input_fits s 1 then store s 0 False else s
        else if input_fits s 3 then store (store (store s MARK False) 0 False) byte False else s)"

definition end_line :: "tty \<Rightarrow> u8 \<Rightarrow> tty" where
  "end_line s byte =
     (let s = close_hardcopy_erase s; t = termios s
      in if tty_ring_room (input_ring s) = 0 then s
         else
           let s = (if byte \<noteq> 0 \<and> (has (c_lflag t) ECHO \<or> byte = 0x0A \<and> has (c_lflag t) ECHONL) then echo s byte else s);
               s = store s byte True
           in s\<lparr>line_end := tail (input_ring s), line_column := column s\<rparr>)"

definition flow_control :: "tty \<Rightarrow> u8 \<Rightarrow> bool \<times> tty" where
  "flow_control s byte =
     (let t = termios s
      in if c_iflag t AND IXON = 0 then (False, s)
         else
           let start = is_special t byte VSTART; stop = is_special t byte VSTOP
           in if start \<and> stop then (True, tty_output_set_stopped s (\<not> tty_output_is_stopped s))
              else if stop \<or> start then (True, tty_output_set_stopped s stop)
              else (False, if has (c_iflag t) IXANY then tty_output_set_stopped s False else s))"

definition signal_of :: "termios \<Rightarrow> u8 \<Rightarrow> nat" where
  "signal_of t byte =
     (if is_special t byte VINTR then SIGINT
      else if is_special t byte VQUIT then SIGQUIT
      else if is_special t byte VSUSP then SIGTSTP
      else if is_special t byte VSTATUS then SIGINFO
      else 0)"

definition tty_discipline_readable :: "tty \<Rightarrow> u32" where
  "tty_discipline_readable s = line_end s - head (input_ring s)"

definition send_flow_character :: "tty \<Rightarrow> nat \<Rightarrow> tty" where
  "send_flow_character s index =
     (let special = c_cc (termios s) ! index
      in if special \<noteq> POSIX_VDISABLE then tty_output_put_ahead s special else s)"

definition update_input_flow :: "tty \<Rightarrow> tty" where
  "update_input_flow s =
     (let t = termios s; room = tty_ring_room (input_ring s)
      in if input_stopped s then
           (if room \<ge> START_ROOM \<or> c_iflag t AND IXOFF = 0
            then send_flow_character (s\<lparr>input_stopped := False\<rparr>) VSTART else s)
         else if has (c_iflag t) IXOFF \<and> room < STOP_ROOM \<and> tty_discipline_readable s \<noteq> 0
         then send_flow_character (s\<lparr>input_stopped := True\<rparr>) VSTOP
         else s)"

definition tty_discipline_flush_input :: "tty \<Rightarrow> tty" where
  "tty_discipline_flush_input s =
     (let ring = input_ring s
      in update_input_flow
           (s\<lparr>input_ring := ring\<lparr>head := tail ring\<rparr>, line_end := tail ring, line_column := column s,
              literal_next := False, escaped := False, hardcopy_erasing := False\<rparr>))"

definition signal_character :: "tty \<Rightarrow> u8 \<Rightarrow> bool \<times> tty" where
  "signal_character s byte =
     (let t = termios s
      in if c_lflag t AND ISIG = 0 then (False, s)
         else
           let sig = signal_of t byte
           in if sig = 0 then (False, s)
              else
                let s = (if sig \<noteq> SIGINFO \<and> c_lflag t AND NOFLSH = 0
                         then tty_output_flush (tty_discipline_flush_input s) else s);
                    s = (if has (c_lflag t) ECHO then echo s byte else s)
                in (True, tty_queue_signal s sig))"

definition receive_canonical :: "tty \<Rightarrow> u8 \<Rightarrow> tty" where
  "receive_canonical s byte =
     (let t = termios s; lflag = c_lflag t
      in if escaped s then
           let s = s\<lparr>escaped := False\<rparr>;
               unescaped = xcase_unescape byte
           in put_data s (if islower (uint byte) then of_int (toupper (uint byte))
                          else if unescaped \<noteq> 0 then unescaped else byte)
         else if is_special t byte VERASE then erase s byte
         else if is_special t byte VKILL then kill_line s byte
         else if has lflag IEXTEN \<and> is_special t byte VWERASE then erase_word s byte
         else if has lflag IEXTEN \<and> is_special t byte VREPRINT then reprint s byte
         else if has lflag IEXTEN \<and> is_special t byte VLNEXT then s\<lparr>literal_next := True\<rparr>
         else if is_special t byte VEOF then end_line s 0
         else if byte = 0x0A \<or> is_special t byte VEOL \<or> has lflag IEXTEN \<and> is_special t byte VEOL2 then end_line s byte
         else if has lflag XCASE \<and> byte = 0x5C then
           let s = s\<lparr>escaped := True\<rparr> in if has lflag ECHO then echo s byte else s
         else put_data s byte)"

definition receive_byte :: "tty \<Rightarrow> u8 \<Rightarrow> tty" where
  "receive_byte s byte =
     (let iflag = c_iflag (termios s);
          byte = (if has iflag ISTRIP then byte AND 0x7F else byte)
      in if literal_next s then put_data (s\<lparr>literal_next := False\<rparr>) byte
         else case flow_control s byte of
           (True, s) \<Rightarrow> s
         | (False, s) \<Rightarrow>
             (case signal_character s byte of
                (True, s) \<Rightarrow> s
              | (False, s) \<Rightarrow>
                  if byte = 0x0D \<and> has iflag IGNCR then s
                  else
                    let byte = (if byte = 0x0D then if has iflag ICRNL then 0x0A else byte
                                else if byte = 0x0A \<and> has iflag INLCR then 0x0D else byte);
                        byte = (if has iflag IUCLC then of_int (tolower (uint byte)) else byte)
                    in if c_lflag (termios s) AND ICANON = 0 then put_data s byte
                       else receive_canonical s byte))"

definition receive_break :: "tty \<Rightarrow> tty" where
  "receive_break s =
     (let iflag = c_iflag (termios s)
      in if has iflag IGNBRK then s
         else if has iflag BRKINT then tty_queue_signal (tty_output_flush (tty_discipline_flush_input s)) SIGINT
         else put_error s 0)"

definition receive_bad_byte :: "tty \<Rightarrow> u8 \<Rightarrow> tty" where
  "receive_bad_byte s byte =
     (let iflag = c_iflag (termios s)
      in if iflag AND INPCK = 0 then receive_byte s byte
         else if iflag AND IGNPAR = 0 then put_error s byte else s)"

subsection \<open>The calls of the core\<close>

definition zero_discipline :: "tty \<Rightarrow> tty_ring \<Rightarrow> tty" where
  "zero_discipline s ring =
     s\<lparr>input_ring := ring, delimiters := replicate 512 0, line_end := 0, line_column := 0, column := 0, literal_next := False,
       escaped := False, input_stopped := False, hardcopy_erasing := False\<rparr>"

definition tty_discipline_init :: "u8 list option \<Rightarrow> tty \<Rightarrow> unit result \<times> tty" where
  "tty_discipline_init page s =
     (case page of
        None \<Rightarrow> (Inl ENOMEM, zero_discipline s \<lparr>data = [], head = 0, tail = 0\<rparr>)
      | Some bytes \<Rightarrow> (Inr (), zero_discipline s \<lparr>data = bytes, head = 0, tail = 0\<rparr>))"

definition tty_discipline_reset :: "tty \<Rightarrow> tty" where
  "tty_discipline_reset s =
     (let ring = input_ring s
      in (zero_discipline s \<lparr>data = data ring, head = tail ring, tail = tail ring\<rparr>)\<lparr>line_end := tail ring\<rparr>)"

definition tty_discipline_receive :: "tty \<Rightarrow> u8 \<Rightarrow> tty_error \<Rightarrow> tty" where
  "tty_discipline_receive s byte err =
     update_input_flow
       (if err = TTY_ERROR_NONE then receive_byte s byte
        else if err = TTY_ERROR_BREAK then receive_break s
        else receive_bad_byte s byte)"

text \<open>The loop of \<^verbatim>\<open>tty_discipline_read\<close>, with the bytes copied so far.\<close>

function read_loop :: "bool \<Rightarrow> nat \<Rightarrow> u8 list \<Rightarrow> tty \<Rightarrow> u8 list \<times> bool \<times> tty" where
  "read_loop canonical n copied s =
     (if length copied < n \<and> head (input_ring s) \<noteq> line_end s then
        let delimiter = (canonical \<and> delimiter_at s (head (input_ring s)));
            (byte, ring) = tty_ring_take (input_ring s);
            s = s\<lparr>input_ring := ring\<rparr>
        in if delimiter \<and> byte = 0 then (copied, copied = [], s)
           else if delimiter then (copied @ [byte], False, s)
           else read_loop canonical n (copied @ [byte]) s
      else (copied, False, s))"
  by pat_completeness auto
termination
  by (relation "measure (\<lambda>(_, n, copied, _). n - length copied)") auto

declare read_loop.simps [simp del]

definition tty_discipline_read :: "tty \<Rightarrow> nat \<Rightarrow> u8 list \<times> bool \<times> tty" where
  "tty_discipline_read s n =
     (case read_loop (has (c_lflag (termios s)) ICANON) n [] s of
        (copied, eof, s) \<Rightarrow> (copied, eof, update_input_flow s))"

definition tty_discipline_set_termios :: "tty \<Rightarrow> termios \<Rightarrow> tty" where
  "tty_discipline_set_termios s old_termios =
     update_input_flow
       (if has (c_lflag old_termios) ICANON \<and> c_lflag (termios s) AND ICANON = 0
        then s\<lparr>line_end := tail (input_ring s), literal_next := False, escaped := False\<rparr> else s)"

end
