(* ===== verification/Tty_Lines.thy ===== *)
theory Tty_Lines
  imports Tty_Discipline
begin

text \<open>
  What the line discipline does to its input, without rings, positions and echo: a queue of
  bytes that may be read, some of them ending a line, and the line being edited. The rings
  refine these two lists.
\<close>

subsection \<open>The abstract line editor\<close>

record line_state =
  ready :: "(u8 \<times> bool) list"
  edited :: "u8 list"
  literal :: bool
  escape :: bool

definition line_fits :: "termios \<Rightarrow> nat \<Rightarrow> line_state \<Rightarrow> bool" where
  "line_fits t n a =
     (let used = length (ready a) + length (edited a)
      in if has (c_lflag t) ICANON then used + n < 4096 else used + n \<le> 4096)"

definition line_append :: "termios \<Rightarrow> u8 list \<Rightarrow> line_state \<Rightarrow> line_state" where
  "line_append t bs a =
     (if has (c_lflag t) ICANON then a\<lparr>edited := edited a @ bs\<rparr>
      else a\<lparr>ready := ready a @ map (\<lambda>b. (b, False)) (edited a @ bs), edited := []\<rparr>)"

definition line_put :: "termios \<Rightarrow> u8 \<Rightarrow> line_state \<Rightarrow> line_state" where
  "line_put t b a =
     (let bs = (if c_iflag t AND (PARMRK OR IGNPAR) = PARMRK \<and> b = MARK then [b, b] else [b])
      in if line_fits t (length bs) a then line_append t bs a else a)"

definition line_error :: "termios \<Rightarrow> u8 \<Rightarrow> line_state \<Rightarrow> line_state" where
  "line_error t b a =
     (let bs = (if c_iflag t AND PARMRK = 0 then [0] else [MARK, 0, b])
      in if line_fits t (length bs) a then line_append t bs a else a)"

definition line_finish :: "u8 \<Rightarrow> line_state \<Rightarrow> line_state" where
  "line_finish b a =
     (if length (ready a) + length (edited a) = 4096 then a
      else a\<lparr>ready := ready a @ map (\<lambda>b. (b, False)) (edited a) @ [(b, True)], edited := []\<rparr>)"

text \<open>Erasing works from the end: the last byte goes, and with UTF-8 input all of its character.\<close>

fun drop_char :: "bool \<Rightarrow> u8 list \<Rightarrow> u8 list" where
  "drop_char utf8 [] = []"
| "drop_char utf8 (b # bs) = (if utf8 \<and> is_utf8_continuation b then drop_char utf8 bs else bs)"

lemma length_drop_char: "length (drop_char utf8 bs) \<le> length bs"
  by (induction bs) auto

lemma length_drop_char_Cons: "length (drop_char utf8 (b # bs)) \<le> length bs"
  using length_drop_char [of utf8 bs] by auto

function drop_while_blank :: "bool \<Rightarrow> bool \<Rightarrow> u8 list \<Rightarrow> u8 list" where
  "drop_while_blank utf8 blank bs =
     (if bs \<noteq> [] \<and> isblank (uint (hd bs)) = blank then drop_while_blank utf8 blank (drop_char utf8 bs) else bs)"
  by pat_completeness auto
termination
proof (relation "measure (\<lambda>(_, _, bs). length bs)")
  fix utf8 blank and bs :: "u8 list"
  assume "bs \<noteq> [] \<and> isblank (uint (hd bs)) = blank"
  then obtain c cs where "bs = c # cs" by (cases bs) auto
  then show "((utf8, blank, drop_char utf8 bs), utf8, blank, bs) \<in> measure (\<lambda>(_, _, bs). length bs)"
    using length_drop_char_Cons [of utf8 c cs] by simp
qed simp

declare drop_while_blank.simps [simp del]

definition line_erase :: "termios \<Rightarrow> line_state \<Rightarrow> line_state" where
  "line_erase t a = a\<lparr>edited := rev (drop_char (has (c_iflag t) IUTF8) (rev (edited a)))\<rparr>"

definition line_erase_word :: "termios \<Rightarrow> line_state \<Rightarrow> line_state" where
  "line_erase_word t a =
     (let utf8 = has (c_iflag t) IUTF8
      in a\<lparr>edited := rev (drop_while_blank utf8 False (drop_while_blank utf8 True (rev (edited a))))\<rparr>)"

definition line_canonical :: "termios \<Rightarrow> u8 \<Rightarrow> line_state \<Rightarrow> line_state" where
  "line_canonical t b a =
     (let extended = has (c_lflag t) IEXTEN
      in if escape a then
           line_put t (if islower (uint b) then of_int (toupper (uint b))
                       else if xcase_unescape b \<noteq> 0 then xcase_unescape b else b) (a\<lparr>escape := False\<rparr>)
         else if is_special t b VERASE then line_erase t a
         else if is_special t b VKILL then a\<lparr>edited := []\<rparr>
         else if extended \<and> is_special t b VWERASE then line_erase_word t a
         else if extended \<and> is_special t b VREPRINT then a
         else if extended \<and> is_special t b VLNEXT then a\<lparr>literal := True\<rparr>
         else if is_special t b VEOF then line_finish 0 a
         else if b = 0x0A \<or> is_special t b VEOL \<or> extended \<and> is_special t b VEOL2 then line_finish b a
         else if has (c_lflag t) XCASE \<and> b = 0x5C then a\<lparr>escape := True\<rparr>
         else line_put t b a)"

definition line_empty :: line_state where
  "line_empty = \<lparr>ready = [], edited = [], literal = False, escape = False\<rparr>"

definition line_byte :: "termios \<Rightarrow> u8 \<Rightarrow> line_state \<Rightarrow> line_state" where
  "line_byte t b a =
     (let iflag = c_iflag t;
          b = (if has iflag ISTRIP then b AND 0x7F else b)
      in if literal a then line_put t b (a\<lparr>literal := False\<rparr>)
         else if has iflag IXON \<and> (is_special t b VSTART \<or> is_special t b VSTOP) then a
         else if has (c_lflag t) ISIG \<and> signal_of t b \<noteq> 0 then
           (if signal_of t b \<noteq> SIGINFO \<and> c_lflag t AND NOFLSH = 0 then line_empty else a)
         else if b = 0x0D \<and> has iflag IGNCR then a
         else
           let b = (if b = 0x0D then if has iflag ICRNL then 0x0A else b
                    else if b = 0x0A \<and> has iflag INLCR then 0x0D else b);
               b = (if has iflag IUCLC then of_int (tolower (uint b)) else b)
           in if has (c_lflag t) ICANON then line_canonical t b a else line_put t b a)"

definition line_receive :: "termios \<Rightarrow> u8 \<Rightarrow> tty_error \<Rightarrow> line_state \<Rightarrow> line_state" where
  "line_receive t b err a =
     (if err = TTY_ERROR_NONE then line_byte t b a
      else if err = TTY_ERROR_BREAK then
        (if has (c_iflag t) IGNBRK then a
         else if has (c_iflag t) BRKINT then line_empty
         else line_error t 0 a)
      else if c_iflag t AND INPCK = 0 then line_byte t b a
      else if c_iflag t AND IGNPAR = 0 then line_error t b a else a)"

fun line_read :: "bool \<Rightarrow> nat \<Rightarrow> (u8 \<times> bool) list \<Rightarrow> u8 list \<times> bool \<times> (u8 \<times> bool) list" where
  "line_read canonical n [] = ([], False, [])"
| "line_read canonical 0 q = ([], False, q)"
| "line_read canonical (Suc n) ((b, d) # q) =
     (if canonical \<and> d \<and> b = 0 then ([], True, q)
      else if canonical \<and> d then ([b], False, q)
      else case line_read canonical n q of (bs, eof, q) \<Rightarrow> (b # bs, False, q))"

subsection \<open>The rings as lists\<close>

definition cells :: "tty \<Rightarrow> (u8 \<times> bool) list" where
  "cells s =
     (let h = head (input_ring s)
      in map (\<lambda>i. (tty_ring_at (input_ring s) (h + of_nat i), delimiter_at s (h + of_nat i)))
           [0..<unat (tail (input_ring s) - h)])"

definition ready_count :: "tty \<Rightarrow> nat" where
  "ready_count s = unat (line_end s - head (input_ring s))"

definition lines_of :: "tty \<Rightarrow> line_state" where
  "lines_of s = \<lparr>ready = take (ready_count s) (cells s), edited = map fst (drop (ready_count s) (cells s)),
     literal = literal_next s, escape = escaped s\<rparr>"

definition lines_inv :: "tty \<Rightarrow> bool" where
  "lines_inv s \<longleftrightarrow>
     ring_ok (input_ring s) \<and> length (delimiters s) = 512 \<and> ready_count s \<le> length (cells s) \<and>
     list_all (\<lambda>c. \<not> snd c) (drop (ready_count s) (cells s))"

definition input_inv :: "tty \<Rightarrow> bool" where
  "input_inv s \<longleftrightarrow> lines_inv s \<and>
     (c_lflag (termios s) AND ICANON = 0 \<longrightarrow> line_end s = tail (input_ring s)) \<and>
     (line_end s \<noteq> tail (input_ring s) \<longrightarrow> length (cells s) < 4096)"

lemma length_cells: "length (cells s) = unat (tail (input_ring s) - head (input_ring s))"
  by (simp add: cells_def Let_def)

lemma cells_frame:
  assumes "echo_frame s s'"
  shows "cells s' = cells s" "ready_count s' = ready_count s" "lines_of s' = lines_of s" "lines_inv s' = lines_inv s"
    "input_inv s' = input_inv s"
proof -
  note f = echo_frame_fields [OF assms]
  show c: "cells s' = cells s" and r: "ready_count s' = ready_count s"
    by (simp_all add: cells_def ready_count_def delimiter_at_def f)
  show "lines_of s' = lines_of s" and i: "lines_inv s' = lines_inv s"
    by (simp_all add: lines_of_def lines_inv_def c r f)
  show "input_inv s' = input_inv s"
    by (simp add: input_inv_def i c f)
qed

text \<open>The bit of a slot in the delimiter bytes.\<close>

lemma delimiter_bit: "delimiter_at s p = bit (delimiters s ! (ring_slot p div 8)) (ring_slot p mod 8)"
  unfolding delimiter_at_def Let_def by (rule and_push_bit_1_eq)

lemma delimiter_at_store:
  assumes "length (delimiters s) = 512"
  shows "delimiter_at (store s b d) p = (if ring_slot p = ring_slot (tail (input_ring s)) then d else delimiter_at s p)"
proof -
  let ?t = "ring_slot (tail (input_ring s))"
  have same: "ring_slot p = ?t \<longleftrightarrow> ring_slot p div 8 = ?t div 8 \<and> ring_slot p mod 8 = ?t mod 8"
    by (metis div_mult_mod_eq)
  have "?t div 8 < 512" using ring_slot_less [of "tail (input_ring s)"] by (simp only: div_less_iff_less_mult)
  then show ?thesis
    using assms same by (auto simp: delimiter_bit store_def Let_def nth_list_update bit_simps)
qed

lemma cells_store:
  assumes ok: "ring_ok (input_ring s)" "length (delimiters s) = 512" and room: "length (cells s) < 4096"
  shows "cells (store s b d) = cells s @ [(b, d)]" "ring_ok (input_ring (store s b d))" "length (delimiters (store s b d)) = 512"
    "tail (input_ring (store s b d)) = tail (input_ring s) + 1" "head (input_ring (store s b d)) = head (input_ring s)"
proof -
  let ?r = "input_ring s"
  from ok(1) obtain n where n: "n \<le> 4096" "tail ?r = head ?r + of_nat n" "unat (tail ?r - head ?r) = n"
    by (rule ring_cases)
  have less: "n < 4096" using room n(3) by (simp add: length_cells)
  have "ring_bytes ?r = map fst (cells s)"
    by (simp add: ring_bytes_def cells_def Let_def)
  then have "length (ring_bytes ?r) < 4096" using room by simp
  note put = ring_bytes_put [OF ok(1) this, of b]
  have ring: "input_ring (store s b d) = tty_ring_put ?r b"
    by (simp add: store_def Let_def)
  then show "ring_ok (input_ring (store s b d))" using put(1) by simp
  show "length (delimiters (store s b d)) = 512" using ok(2) by (simp add: store_def Let_def)
  show h: "tail (input_ring (store s b d)) = tail ?r + 1" "head (input_ring (store s b d)) = head ?r"
    unfolding ring by (simp_all add: tty_ring_put_def)
  have hp: "head (tty_ring_put ?r b) = head ?r" "tail (tty_ring_put ?r b) = tail ?r + 1"
    by (simp_all add: tty_ring_put_def)
  have "tail ?r + 1 - head ?r = of_nat (Suc n)" using n(2) by simp
  then have u: "unat (tail ?r + 1 - head ?r) = Suc n"
    using less by (simp only: unat_of_nat_u32)
  have slot: "ring_slot (head ?r + of_nat i) = ring_slot (tail ?r) \<longleftrightarrow> i = n" if "i \<le> n" for i
    unfolding n(2) using that less by (intro ring_slot_inj) simp_all
  have at: "tty_ring_at (tty_ring_put ?r b) (head ?r + of_nat i) = (if i = n then b else tty_ring_at ?r (head ?r + of_nat i))" if "i \<le> n" for i
    using slot [OF that] ok(1) by (auto simp: tty_ring_at_def tty_ring_put_def ring_ok_def)
  have "delimiter_at (store s b d) (head ?r + of_nat i) = (if i = n then d else delimiter_at s (head ?r + of_nat i))" if "i \<le> n" for i
    using slot [OF that] delimiter_at_store [OF ok(2)] by simp
  with at show "cells (store s b d) = cells s @ [(b, d)]"
    unfolding cells_def Let_def ring hp u n(3) by simp
qed

text \<open>The other steps on the positions.\<close>

lemma input_positions:
  assumes "lines_inv s"
  shows "ready_count s \<le> length (cells s)" "length (cells s) \<le> 4096"
    "line_end s = head (input_ring s) + of_nat (ready_count s)" "tail (input_ring s) = head (input_ring s) + of_nat (length (cells s))"
    "line_end s = tail (input_ring s) \<longleftrightarrow> ready_count s = length (cells s)"
proof -
  let ?l = "ready_count s" and ?n = "length (cells s)" and ?h = "head (input_ring s)"
  show le: "?l \<le> ?n" "?n \<le> 4096"
    using assms by (simp_all add: lines_inv_def length_cells ring_ok_def)
  show e: "line_end s = ?h + of_nat ?l" "tail (input_ring s) = ?h + of_nat ?n"
    using position_eq [of "line_end s" ?h] position_eq [of "tail (input_ring s)" ?h] by (simp_all add: length_cells ready_count_def)
  have "of_nat ?l = (of_nat ?n :: u32) \<longleftrightarrow> ?l = ?n"
    using le unat_of_nat_u32 [of ?l] unat_of_nat_u32 [of ?n] by (metis le_trans)
  then show "line_end s = tail (input_ring s) \<longleftrightarrow> ?l = ?n"
    unfolding e by simp
qed

lemma cells_tail:
  assumes "ring_ok (input_ring s)" "m \<le> length (cells s)"
  shows "cells (s\<lparr>input_ring := (input_ring s)\<lparr>tail := head (input_ring s) + of_nat m\<rparr>\<rparr>) = take m (cells s)"
proof -
  have "m \<le> 4096" using assms by (simp add: length_cells ring_ok_def)
  then show ?thesis
    using assms(2) unfolding length_cells
    by (simp add: cells_def Let_def unat_of_nat_u32 tty_ring_at_def delimiter_at_def take_map min_def)
qed

lemma lines_of_simps [simp]:
  "ready (lines_of s) = take (ready_count s) (cells s)" "edited (lines_of s) = map fst (drop (ready_count s) (cells s))"
  "literal (lines_of s) = literal_next s" "escape (lines_of s) = escaped s"
  by (simp_all add: lines_of_def)

lemma lines_used: "ready_count s \<le> length (cells s) \<Longrightarrow> length (ready (lines_of s)) + length (edited (lines_of s)) = length (cells s)"
  by simp

lemma line_state_eqI:
  "ready a = ready b \<Longrightarrow> edited a = edited b \<Longrightarrow> literal a = literal b \<Longrightarrow> escape a = escape b \<Longrightarrow> a = b" for a b :: line_state
  by (cases a; cases b) simp

lemma map_cell_fst: "list_all (\<lambda>c. \<not> snd c) cs \<Longrightarrow> map (\<lambda>b. (b, False)) (map fst cs) = cs"
  by (induction cs) auto

text \<open>Cutting the line being edited down to its first bytes.\<close>

lemma lines_cut:
  assumes inv: "lines_inv s" and m: "ready_count s \<le> m" "m \<le> length (cells s)"
  defines "s' \<equiv> s\<lparr>input_ring := (input_ring s)\<lparr>tail := head (input_ring s) + of_nat m\<rparr>\<rparr>"
  shows "lines_inv s'" "lines_of s' = (lines_of s)\<lparr>edited := take (m - ready_count s) (edited (lines_of s))\<rparr>"
    "length (cells s') = m" "input_inv s \<Longrightarrow> input_inv s'"
proof -
  have ok: "ring_ok (input_ring s)" using inv by (simp add: lines_inv_def)
  have c: "cells s' = take m (cells s)" unfolding s'_def by (rule cells_tail [OF ok m(2)])
  have r: "ready_count s' = ready_count s" by (simp add: ready_count_def s'_def)
  have f: "literal_next s' = literal_next s" "escaped s' = escaped s" "delimiters s' = delimiters s" "termios s' = termios s"
    by (simp_all add: s'_def)
  have m4: "m \<le> 4096" using m(2) ok by (simp add: length_cells ring_ok_def)
  have ok': "ring_ok (input_ring s')"
    using ok m4 by (simp add: s'_def ring_ok_def unat_of_nat_u32)
  have "list_all (\<lambda>c. \<not> snd c) (take k (drop (ready_count s) (cells s)))" for k
    using inv by (auto simp: lines_inv_def list_all_iff dest: in_set_takeD)
  then show inv': "lines_inv s'"
    using inv ok' m unfolding lines_inv_def c r f by (simp add: drop_take min_def)
  show "lines_of s' = (lines_of s)\<lparr>edited := take (m - ready_count s) (edited (lines_of s))\<rparr>"
    using m(1) by (intro line_state_eqI) (simp_all add: c r f min_def drop_take take_map)
  show len: "length (cells s') = m" using m(2) by (simp add: c)
  show "input_inv s'" if "input_inv s"
    using that inv' input_positions(5) [OF inv] input_positions(5) [OF inv'] r len m unfolding input_inv_def f by auto
qed

lemma lines_store:
  assumes inv: "lines_inv s" and room: "length (cells s) < 4096"
  shows "lines_inv (store s b False)" "lines_of (store s b False) = (lines_of s)\<lparr>edited := edited (lines_of s) @ [b]\<rparr>"
    "length (cells (store s b False)) = Suc (length (cells s))" "termios (store s b False) = termios s" "line_end (store s b False) = line_end s"
proof -
  have ok: "ring_ok (input_ring s)" "length (delimiters s) = 512"
    using inv by (simp_all add: lines_inv_def)
  note c = cells_store [OF ok room, of b False]
  have f: "line_end (store s b False) = line_end s" "literal_next (store s b False) = literal_next s"
      "escaped (store s b False) = escaped s" "termios (store s b False) = termios s"
    by (simp_all add: store_def Let_def)
  then have r: "ready_count (store s b False) = ready_count s"
    using c by (simp add: ready_count_def)
  show "lines_inv (store s b False)" "lines_of (store s b False) = (lines_of s)\<lparr>edited := edited (lines_of s) @ [b]\<rparr>"
    using inv c unfolding lines_inv_def r by (auto intro!: line_state_eqI simp: r f)
  show "length (cells (store s b False)) = Suc (length (cells s))" "termios (store s b False) = termios s" "line_end (store s b False) = line_end s"
    using c f by simp_all
qed

definition store_all :: "u8 list \<Rightarrow> tty \<Rightarrow> tty" where
  "store_all bs s = fold (\<lambda>b s. store s b False) bs s"

lemma lines_store_all:
  assumes "lines_inv s" "length (cells s) + length bs \<le> 4096"
  shows "lines_inv (store_all bs s) \<and> lines_of (store_all bs s) = (lines_of s)\<lparr>edited := edited (lines_of s) @ bs\<rparr> \<and>
    length (cells (store_all bs s)) = length (cells s) + length bs \<and> termios (store_all bs s) = termios s \<and>
    line_end (store_all bs s) = line_end s"
  using assms
proof (induction bs arbitrary: s)
  case Nil
  then show ?case by (simp add: store_all_def)
next
  case (Cons b bs)
  have "length (cells s) < 4096" using Cons.prems(2) by simp
  note st = lines_store [OF Cons.prems(1) this, of b]
  have "length (cells (store s b False)) + length bs \<le> 4096" using st(3) Cons.prems(2) by simp
  from Cons.IH [OF st(1) this] st show ?case
    by (simp add: store_all_def)
qed

text \<open>Handing the line being edited over to the reader.\<close>

lemma lines_hand_over:
  assumes inv: "lines_inv s"
  defines "s' \<equiv> s\<lparr>line_end := tail (input_ring s)\<rparr>"
  shows "lines_of s' = (lines_of s)\<lparr>ready := ready (lines_of s) @ map (\<lambda>b. (b, False)) (edited (lines_of s)), edited := []\<rparr>"
    "input_inv s'"
proof -
  have c: "cells s' = cells s" by (simp add: cells_def s'_def delimiter_at_def)
  have r: "ready_count s' = length (cells s)" by (simp add: ready_count_def length_cells s'_def)
  have f: "literal_next s' = literal_next s" "escaped s' = escaped s" by (simp_all add: s'_def)
  have "map (\<lambda>b. (b, False)) (map fst (drop (ready_count s) (cells s))) = drop (ready_count s) (cells s)"
    using inv by (intro map_cell_fst) (simp add: lines_inv_def)
  then show "lines_of s' = (lines_of s)\<lparr>ready := ready (lines_of s) @ map (\<lambda>b. (b, False)) (edited (lines_of s)), edited := []\<rparr>"
    by (intro line_state_eqI; simp only: lines_of_simps line_state.simps c r f take_all drop_all le_refl append_take_drop_id list.map; simp)
  show "input_inv s'"
    using inv unfolding input_inv_def lines_inv_def c r by (simp add: s'_def)
qed

lemma input_fits_lines:
  assumes inv: "lines_inv s" and n: "unat n \<le> 3"
  shows "input_fits s n = line_fits (termios s) (unat n) (lines_of s)"
proof -
  let ?l = "ready_count s" and ?k = "length (cells s)"
  note pos = input_positions [OF inv]
  have ok: "ring_ok (input_ring s)" using inv by (simp add: lines_inv_def)
  have room: "unat (tty_ring_room (input_ring s)) = 4096 - ?k"
    using unat_ring_room [OF ok] by (simp add: ring_bytes_def length_cells)
  have "tail (input_ring s) - line_end s = of_nat (?k - ?l)" unfolding pos(3,4) using pos(1) by (simp add: of_nat_diff)
  then have "unat (tail (input_ring s) - line_end s) = ?k - ?l" using pos(2) by (simp only: unat_of_nat_u32 le_trans [OF diff_le_self])
  then have sum: "unat (tail (input_ring s) - line_end s + n) = ?k - ?l + unat n"
    using n pos(2) by (subst unat_add_lem [THEN iffD1]) simp_all
  show ?thesis
    using n pos(1,2) unfolding input_fits_def line_fits_def lines_used [OF pos(1)] Let_def word_less_nat_alt word_le_nat_alt MAX_CANON_def sum room
    by auto
qed

lemma end_raw_data_lines:
  assumes inv: "lines_inv s" and room: "has (c_lflag (termios s)) ICANON \<Longrightarrow> length (cells s) < 4096"
  shows "input_inv (end_raw_data s)"
    "lines_of (end_raw_data s) = (if has (c_lflag (termios s)) ICANON then lines_of s
       else (lines_of s)\<lparr>ready := ready (lines_of s) @ map (\<lambda>b. (b, False)) (edited (lines_of s)), edited := []\<rparr>)"
  using inv room lines_hand_over [OF inv] by (simp_all add: end_raw_data_def input_inv_def)

lemma append_lines:
  assumes inv: "input_inv s" and fits: "line_fits (termios s) (length bs) (lines_of s)"
  shows "input_inv (end_raw_data (store_all bs s))" "lines_of (end_raw_data (store_all bs s)) = line_append (termios s) bs (lines_of s)"
proof -
  have li: "lines_inv s" using inv by (simp add: input_inv_def)
  have used: "length (ready (lines_of s)) + length (edited (lines_of s)) = length (cells s)"
    using li by (intro lines_used) (simp add: lines_inv_def)
  have le: "length (cells s) + length bs \<le> 4096" "has (c_lflag (termios s)) ICANON \<Longrightarrow> length (cells s) + length bs < 4096"
    using fits unfolding line_fits_def used Let_def by (simp_all split: if_splits)
  note st = lines_store_all [OF li le(1)]
  have "input_inv (end_raw_data (store_all bs s)) \<and>
     lines_of (end_raw_data (store_all bs s)) = (if has (c_lflag (termios (store_all bs s))) ICANON then lines_of (store_all bs s)
       else (lines_of (store_all bs s))\<lparr>ready := ready (lines_of (store_all bs s)) @ map (\<lambda>b. (b, False)) (edited (lines_of (store_all bs s))), edited := []\<rparr>)"
    using end_raw_data_lines [of "store_all bs s"] st le(2) by simp
  then show "input_inv (end_raw_data (store_all bs s))" "lines_of (end_raw_data (store_all bs s)) = line_append (termios s) bs (lines_of s)"
    using st by (simp_all add: line_append_def)
qed

lemma termios_append: "termios (end_raw_data (store_all bs s)) = termios s"
proof -
  have "termios (store_all bs s) = termios s"
    by (induction bs arbitrary: s) (simp_all add: store_all_def store_def Let_def)
  then show ?thesis by (simp add: end_raw_data_def)
qed

lemma put_data_lines:
  assumes inv: "input_inv s"
  shows "input_inv (put_data s b) \<and> lines_of (put_data s b) = line_put (termios s) b (lines_of s) \<and> termios (put_data s b) = termios s"
proof -
  let ?s = "close_hardcopy_erase s" and ?t = "termios s"
  let ?n = "if c_iflag ?t AND (PARMRK OR IGNPAR) = PARMRK \<and> b = MARK then 2 else 1 :: u32"
  let ?bs = "if c_iflag ?t AND (PARMRK OR IGNPAR) = PARMRK \<and> b = MARK then [b, b] else [b]"
  note f = cells_frame [OF echo_frame_close_hardcopy_erase, of s] echo_frame_fields(1) [OF echo_frame_close_hardcopy_erase, of s]
  have inv': "input_inv ?s" "lines_inv ?s" using inv f by (simp_all add: input_inv_def)
  have n: "unat ?n = length ?bs" "unat ?n \<le> 3" by simp_all
  have fits: "input_fits ?s ?n = line_fits ?t (length ?bs) (lines_of s)"
    using input_fits_lines [OF inv'(2) n(2)] f unfolding n(1) by simp
  have st: "((\<lambda>s. store s b False) ^^ unat ?n) s' = store_all ?bs s'" for s'
    unfolding n(1) by (simp add: store_all_def)
  show ?thesis
  proof (cases "line_fits ?t (length ?bs) (lines_of s)")
    case False
    then have "put_data s b = (if has (c_lflag ?t) ICANON \<and> has (c_iflag ?t) IMAXBEL then output_or_drop ?s BELL else ?s)"
      using fits unfolding put_data_def Let_def f(6) by simp
    then have "echo_frame s (put_data s b)"
      by (auto intro: echo_frame_trans [OF echo_frame_close_hardcopy_erase])
    with inv False show ?thesis
      by (simp add: cells_frame echo_frame_fields line_put_def Let_def split del: if_split)
  next
    case True
    define s1 where "s1 = (if has (c_lflag ?t) ECHO then echo ?s b else ?s)"
    have e: "echo_frame s s1"
      unfolding s1_def by (auto intro: echo_frame_trans [OF echo_frame_close_hardcopy_erase])
    have put: "put_data s b = end_raw_data (store_all ?bs s1)"
      using fits True unfolding put_data_def Let_def f(6) s1_def st by simp
    have "line_fits (termios s1) (length ?bs) (lines_of s1)"
      using True e by (simp add: cells_frame echo_frame_fields split del: if_split)
    from append_lines [OF _ this] inv e show ?thesis
      unfolding put using True
      by (simp add: cells_frame echo_frame_fields line_put_def Let_def termios_append split del: if_split)
  qed
qed

text \<open>A step that leaves the input alone.\<close>

definition same_lines :: "tty \<Rightarrow> tty \<Rightarrow> bool" where
  "same_lines s s' \<longleftrightarrow> input_ring s' = input_ring s \<and> delimiters s' = delimiters s \<and> line_end s' = line_end s \<and>
     termios s' = termios s \<and> literal_next s' = literal_next s \<and> escaped s' = escaped s"

lemma same_linesD:
  assumes "same_lines s s'"
  shows "lines_of s' = lines_of s" "input_inv s' = input_inv s" "termios s' = termios s" "cells s' = cells s"
proof -
  have f: "input_ring s' = input_ring s" "delimiters s' = delimiters s" "line_end s' = line_end s" "termios s' = termios s"
      "literal_next s' = literal_next s" "escaped s' = escaped s"
    using assms by (simp_all add: same_lines_def)
  show c: "cells s' = cells s"
    by (simp add: cells_def delimiter_at_def f)
  have r: "ready_count s' = ready_count s" by (simp add: ready_count_def f)
  show "lines_of s' = lines_of s" "input_inv s' = input_inv s" "termios s' = termios s"
    by (simp_all add: lines_of_def input_inv_def lines_inv_def c r f)
qed

lemma same_lines_refl [simp]: "same_lines s s"
  by (simp add: same_lines_def)

lemma same_lines_trans: "same_lines s s' \<Longrightarrow> same_lines s' s'' \<Longrightarrow> same_lines s s''"
  by (simp add: same_lines_def)

lemma same_lines_echo: "echo_frame s s' \<Longrightarrow> same_lines s s'"
  unfolding same_lines_def by (simp add: echo_frame_fields)

lemma same_lines_update_input_flow [simp]: "same_lines s (update_input_flow s)"
  by (simp add: same_lines_def update_input_flow_def Let_def send_flow_character_def tty_output_put_ahead_def)

lemma same_lines_output [simp]:
  "same_lines s (tty_output_flush s)" "same_lines s (tty_output_set_stopped s b)" "same_lines s (tty_queue_signal s sig)"
  by (simp_all add: same_lines_def tty_output_flush_def tty_output_set_stopped_def tty_queue_signal_def)

text \<open>What an operation of the discipline does to the input, as an operation of the abstract editor.\<close>

definition refines :: "(tty \<Rightarrow> tty) \<Rightarrow> (termios \<Rightarrow> line_state \<Rightarrow> line_state) \<Rightarrow> tty \<Rightarrow> bool" where
  "refines f g s \<longleftrightarrow> input_inv (f s) \<and> lines_of (f s) = g (termios s) (lines_of s) \<and> termios (f s) = termios s"

lemma refines_same: "input_inv s \<Longrightarrow> same_lines s (f s) \<Longrightarrow> refines f (\<lambda>t a. a) s"
  by (simp add: refines_def same_linesD)

lemma refines_then_same:
  "refines f g s \<Longrightarrow> same_lines (f s) (h (f s)) \<Longrightarrow> refines (\<lambda>s. h (f s)) g s"
  by (simp add: refines_def same_linesD)

lemma refines_put_data: "input_inv s \<Longrightarrow> refines (\<lambda>s. put_data s b) (\<lambda>t. line_put t b) s"
  using put_data_lines by (simp add: refines_def)

lemma end_raw_data_id: "input_inv s \<Longrightarrow> end_raw_data s = s"
  by (simp add: end_raw_data_def input_inv_def)

lemma refines_put_error:
  assumes inv: "input_inv s"
  shows "refines (\<lambda>s. put_error s b) (\<lambda>t. line_error t b) s"
proof -
  have li: "lines_inv s" using inv by (simp add: input_inv_def)
  let ?bs = "if c_iflag (termios s) AND PARMRK = 0 then [0] else [MARK, 0, b]"
  have fits: "input_fits s 1 = line_fits (termios s) 1 (lines_of s)" "input_fits s 3 = line_fits (termios s) 3 (lines_of s)"
    using input_fits_lines [OF li, of 1] input_fits_lines [OF li, of 3] by simp_all
  then have put: "put_error s b = end_raw_data (if line_fits (termios s) (length ?bs) (lines_of s) then store_all ?bs s else s)"
    by (simp add: put_error_def store_all_def numeral_3_eq_3)
  show ?thesis
  proof (cases "line_fits (termios s) (length ?bs) (lines_of s)")
    case True
    then show ?thesis
      using append_lines [OF inv True] put by (simp add: refines_def line_error_def Let_def termios_append split del: if_split)
  next
    case False
    then show ?thesis
      using put inv by (simp add: refines_def line_error_def Let_def end_raw_data_id split del: if_split)
  qed
qed

subsection \<open>Ending a line\<close>

lemma refines_end_line:
  assumes inv: "input_inv s"
  shows "refines (\<lambda>s. end_line s b) (\<lambda>t. line_finish b) s"
proof -
  let ?s = "close_hardcopy_erase s"
  define s1 where "s1 = (if b \<noteq> 0 \<and> (has (c_lflag (termios ?s)) ECHO \<or> b = 0x0A \<and> has (c_lflag (termios ?s)) ECHONL) then echo ?s b else ?s)"
  have e: "echo_frame s ?s" "echo_frame s s1"
    unfolding s1_def by (auto intro: echo_frame_trans [OF echo_frame_close_hardcopy_erase])
  note f = cells_frame [OF e(2)] echo_frame_fields [OF e(2)]
  have li: "lines_inv s" "ring_ok (input_ring s)" "length (delimiters s) = 512" using inv by (simp_all add: input_inv_def lines_inv_def)
  have room: "tty_ring_room (input_ring s) = 0 \<longleftrightarrow> length (cells s) = 4096"
    using unat_ring_room [OF li(2)] ring_bytes_le [OF li(2)] unat_eq_zero [of "tty_ring_room (input_ring s)"]
    by (auto simp: ring_bytes_def length_cells)
  have used: "length (ready (lines_of s)) + length (edited (lines_of s)) = length (cells s)"
    using li by (intro lines_used) (simp add: lines_inv_def)
  show ?thesis
  proof (cases "length (cells s) = 4096")
    case True
    then have "end_line s b = ?s"
      using room echo_frame_fields(8) [OF e(1)] by (simp add: end_line_def Let_def)
    then show ?thesis
      using inv True cells_frame(3,5) [OF e(1)] echo_frame_fields(1) [OF e(1)] unfolding refines_def line_finish_def used by simp
  next
    case False
    have end_line: "end_line s b = (store s1 b True)\<lparr>line_end := tail (input_ring (store s1 b True)), line_column := column (store s1 b True)\<rparr>"
      using False room echo_frame_fields(8) [OF e(1)] unfolding end_line_def Let_def s1_def by simp
    have less: "length (cells s1) < 4096" using False ring_bytes_le [OF li(2)] f by (simp add: ring_bytes_def length_cells)
    have ok: "ring_ok (input_ring s1)" "length (delimiters s1) = 512" using li f by simp_all
    note c = cells_store [OF ok less, of b True]
    let ?e = "end_line s b"
    have cells: "cells ?e = cells s @ [(b, True)]"
      using c(1) f(1) unfolding end_line by (simp add: cells_def delimiter_at_def)
    have rc: "ready_count ?e = length (cells ?e)"
      unfolding ready_count_def length_cells by (simp add: end_line)
    have ie: "input_ring ?e = input_ring (store s1 b True)" "delimiters ?e = delimiters (store s1 b True)"
        "line_end ?e = tail (input_ring ?e)" "termios ?e = termios s" "literal_next ?e = literal_next s" "escaped ?e = escaped s"
      unfolding end_line using f by (simp_all add: store_def Let_def)
    have split: "cells s = take (ready_count s) (cells s) @ map (\<lambda>b. (b, False)) (map fst (drop (ready_count s) (cells s)))"
      using li(1) by (subst map_cell_fst) (simp_all add: lines_inv_def)
    have "input_inv ?e"
      using c ie cells rc by (simp add: input_inv_def lines_inv_def)
    moreover have "lines_of ?e = line_finish b (lines_of s)"
      using False unfolding line_finish_def used
      by (intro line_state_eqI) (use split cells rc ie in simp_all)
    ultimately show ?thesis
      using ie by (simp add: refines_def)
  qed
qed

subsection \<open>Erasing\<close>

lemma drop_char_suffix: "drop_char utf8 xs = drop (length xs - length (drop_char utf8 xs)) xs"
proof (induction xs)
  case (Cons b xs)
  show ?case
  proof (cases "utf8 \<and> is_utf8_continuation b")
    case True
    then have "drop (length (b # xs) - length (drop_char utf8 (b # xs))) (b # xs) = drop (length xs - length (drop_char utf8 xs)) xs"
      using length_drop_char [of utf8 xs] by (simp add: Suc_diff_le)
    with True Cons show ?thesis by simp
  next
    case False
    then have "drop_char utf8 (b # xs) = xs" by auto
    then show ?thesis by simp
  qed
qed simp

lemma take_drop_char: "take (length (drop_char utf8 (rev e))) e = rev (drop_char utf8 (rev e))"
proof -
  have "rev (drop_char utf8 (rev e)) = rev (drop (length e - length (drop_char utf8 (rev e))) (rev e))"
    by (subst drop_char_suffix) simp
  also have "\<dots> = take (length (drop_char utf8 (rev e))) e"
    using length_drop_char [of utf8 "rev e"] by (simp add: rev_drop)
  finally show ?thesis by simp
qed

lemma cell_nth: "i < length (cells s) \<Longrightarrow> fst (cells s ! i) = tty_ring_at (input_ring s) (head (input_ring s) + of_nat i)"
  by (simp add: length_cells) (simp add: cells_def Let_def)

lemma skip_continuation_lines:
  assumes inv: "lines_inv s" and "ready_count s + k < length (cells s)"
  shows "skip_continuation (input_ring s) (line_end s) (head (input_ring s) + of_nat (ready_count s + k)) =
    head (input_ring s) + of_nat (ready_count s + length (drop_char True (rev (take (Suc k) (edited (lines_of s))))))"
  using assms(2)
proof (induction k)
  case 0
  obtain c cs where "edited (lines_of s) = c # cs"
    using 0 by (cases "edited (lines_of s)") auto
  then show ?case
    using input_positions(3) [OF inv] by (subst skip_continuation.simps) simp
next
  case (Suc k)
  let ?h = "head (input_ring s)" and ?l = "ready_count s" and ?e = "edited (lines_of s)"
  let ?t = "?h + of_nat (?l + Suc k)"
  note pos = input_positions [OF inv]
  have "unat (of_nat (?l + Suc k) :: u32) \<noteq> unat (of_nat ?l :: u32)"
    using unat_of_nat_u32 [of "?l + Suc k"] unat_of_nat_u32 [of ?l] Suc.prems pos(1,2) by linarith
  then have ne: "?t \<noteq> line_end s" unfolding pos(3) by (metis add_left_cancel)
  have at: "tty_ring_at (input_ring s) ?t = ?e ! Suc k"
    using cell_nth [OF Suc.prems] Suc.prems by simp
  have rev: "rev (take (Suc (Suc k)) ?e) = ?e ! Suc k # rev (take (Suc k) ?e)"
    using Suc.prems by (subst take_Suc_conv_app_nth) simp_all
  have prev: "?t - 1 = ?h + of_nat (?l + k)" by simp
  show ?case
  proof (cases "is_utf8_continuation (?e ! Suc k)")
    case True
    then have "skip_continuation (input_ring s) (line_end s) ?t = skip_continuation (input_ring s) (line_end s) (?t - 1)"
      using ne at by (subst skip_continuation.simps) simp
    also have "\<dots> = ?h + of_nat (?l + length (drop_char True (rev (take (Suc k) ?e))))"
      unfolding prev using Suc by simp
    finally show ?thesis
      using True unfolding rev by simp
  next
    case False
    then have "skip_continuation (input_ring s) (line_end s) ?t = ?t"
      using at by (subst skip_continuation.simps) simp
    moreover have "length (drop_char True (rev (take (Suc (Suc k)) ?e))) = Suc k"
      using False Suc.prems unfolding rev by simp
    ultimately show ?thesis by simp
  qed
qed

lemma erased_tail_lines:
  assumes inv: "lines_inv s" and ne: "tail (input_ring s) \<noteq> line_end s"
  shows "erased_tail s = head (input_ring s) + of_nat (ready_count s + length (drop_char (has (c_iflag (termios s)) IUTF8) (rev (edited (lines_of s)))))"
proof -
  let ?h = "head (input_ring s)" and ?e = "edited (lines_of s)" and ?l = "ready_count s"
  note pos = input_positions [OF inv]
  obtain k where k: "length (cells s) = ?l + Suc k"
    using ne pos(1,5) that less_imp_Suc_add [of ?l "length (cells s)"] by force
  then have len: "length ?e = Suc k" by simp
  have prev: "tail (input_ring s) - 1 = ?h + of_nat (?l + k)" using pos(4) k by simp
  show ?thesis
  proof (cases "has (c_iflag (termios s)) IUTF8")
    case True
    then show ?thesis
      using skip_continuation_lines [OF inv, of k] k len unfolding erased_tail_def Let_def prev by simp
  next
    case False
    moreover obtain c cs where "rev ?e = c # cs" using len by (cases "rev ?e") auto
    moreover from this have "length cs = k" using len by (metis length_rev length_Cons nat.inject)
    ultimately show ?thesis
      using prev by (simp add: erased_tail_def)
  qed
qed

lemma refines_erase_last:
  assumes inv: "input_inv s"
  shows "refines (\<lambda>s. snd (erase_last s)) line_erase s"
proof (cases "tail (input_ring s) = line_end s")
  case True
  then have "edited (lines_of s) = []"
    using inv by (simp add: length_cells ready_count_def)
  then show ?thesis
    using inv True erase_last_cases(1) [OF True] by (simp add: refines_def line_erase_def)
next
  case False
  have li: "lines_inv s" using inv by (simp add: input_inv_def)
  let ?e = "edited (lines_of s)" and ?utf8 = "has (c_iflag (termios s)) IUTF8"
  let ?m = "ready_count s + length (drop_char ?utf8 (rev ?e))"
  have m: "ready_count s \<le> ?m" "?m \<le> length (cells s)"
    using li length_drop_char [of ?utf8 "rev ?e"] by (auto simp: lines_inv_def)
  note cut = lines_cut [OF li m, folded erased_tail_lines [OF li False]]
  have frame: "echo_frame (s\<lparr>input_ring := (input_ring s)\<lparr>tail := erased_tail s\<rparr>\<rparr>) (snd (erase_last s))"
    using erase_last_cases(2) [OF False] by simp
  note f = cells_frame(3,5) [OF frame] echo_frame_fields(1) [OF frame]
  show ?thesis
    using cut inv unfolding refines_def f line_erase_def by (simp add: take_drop_char del: lines_of_simps)
qed

lemma refines_comp: "refines f g s \<Longrightarrow> refines f' g' (f s) \<Longrightarrow> refines (\<lambda>s. f' (f s)) (\<lambda>t a. g' t (g t a)) s"
  by (simp add: refines_def)

lemma refines_cong: "refines f g s \<Longrightarrow> f s = f' s \<Longrightarrow> g (termios s) (lines_of s) = g' (termios s) (lines_of s) \<Longrightarrow> refines f' g' s"
  unfolding refines_def by metis

lemma edited_empty:
  assumes "lines_inv s"
  shows "edited (lines_of s) = [] \<longleftrightarrow> tail (input_ring s) = line_end s"
proof -
  have "edited (lines_of s) = [] \<longleftrightarrow> length (cells s) \<le> ready_count s" by simp
  also have "\<dots> \<longleftrightarrow> ready_count s = length (cells s)" using input_positions(1) [OF assms] by linarith
  also have "\<dots> \<longleftrightarrow> tail (input_ring s) = line_end s" using input_positions(5) [OF assms] by metis
  finally show ?thesis .
qed

lemma edited_last:
  assumes inv: "lines_inv s" and ne: "tail (input_ring s) \<noteq> line_end s"
  shows "tty_ring_at (input_ring s) (tail (input_ring s) - 1) = hd (rev (edited (lines_of s)))"
proof -
  let ?h = "head (input_ring s)" and ?l = "ready_count s"
  note pos = input_positions [OF inv]
  obtain k where k: "length (cells s) = ?l + Suc k"
    using ne pos(1,5) that less_imp_Suc_add [of ?l "length (cells s)"] by force
  have t: "tail (input_ring s) - 1 = ?h + of_nat (?l + k)" using pos(4) k by simp
  have "tty_ring_at (input_ring s) (tail (input_ring s) - 1) = fst (cells s ! (?l + k))"
    unfolding t by (rule cell_nth [symmetric]) (simp add: k)
  also have "\<dots> = last (edited (lines_of s))" using k by (simp add: last_conv_nth)
  finally show ?thesis by (simp only: hd_rev)
qed

lemma refines_erase:
  assumes inv: "input_inv s"
  shows "refines (\<lambda>s. erase s b) line_erase s"
proof -
  have "same_lines (snd (erase_last s)) (erase s b)"
    by (auto simp: erase_def intro: same_lines_echo split: prod.split bool.split)
  then show ?thesis
    using refines_erase_last [OF inv] by (simp add: refines_def same_linesD)
qed

lemma refines_erase_while:
  "input_inv s \<Longrightarrow> refines (erase_while blank)
     (\<lambda>t a. a\<lparr>edited := rev (drop_while_blank (has (c_iflag t) IUTF8) blank (rev (edited a)))\<rparr>) s"
proof (induction blank s rule: erase_while.induct)
  case (1 blank s)
  let ?utf8 = "has (c_iflag (termios s)) IUTF8" and ?e = "edited (lines_of s)"
  have li: "lines_inv s" using "1.prems" by (simp add: input_inv_def)
  let ?P = "tail (input_ring s) \<noteq> line_end s \<and> isblank (uint (tty_ring_at (input_ring s) (tail (input_ring s) - 1))) = blank"
  have P: "?P \<longleftrightarrow> rev ?e \<noteq> [] \<and> isblank (uint (hd (rev ?e))) = blank"
    using edited_empty [OF li] edited_last [OF li] by (auto simp del: lines_of_simps)
  show ?case
  proof (cases ?P)
    case True
    have last: "refines (\<lambda>s. snd (erase_last s)) line_erase s" by (rule refines_erase_last [OF "1.prems"])
    then have "input_inv (snd (erase_last s))" by (simp add: refines_def)
    note ih = refines_comp [OF last "1.IH" [OF True this]]
    have "erase_while blank s = erase_while blank (snd (erase_last s))"
      using True by (subst erase_while.simps) simp
    moreover have "drop_while_blank ?utf8 blank (rev ?e) = drop_while_blank ?utf8 blank (drop_char ?utf8 (rev ?e))"
      using True P by (subst drop_while_blank.simps) (simp del: lines_of_simps)
    ultimately show ?thesis
      by (intro refines_cong [OF ih]) (simp_all add: line_erase_def del: lines_of_simps)
  next
    case False
    then have "erase_while blank s = s" by (subst erase_while.simps) auto
    moreover have "drop_while_blank ?utf8 blank (rev ?e) = rev ?e"
      using False P by (subst drop_while_blank.simps) (auto simp del: lines_of_simps)
    ultimately show ?thesis
      using "1.prems" by (simp add: refines_def del: lines_of_simps)
  qed
qed

lemma refines_erase_word:
  assumes inv: "input_inv s"
  shows "refines (\<lambda>s. erase_word s b) line_erase_word s"
proof -
  have one: "refines (erase_while True) (\<lambda>t a. a\<lparr>edited := rev (drop_while_blank (has (c_iflag t) IUTF8) True (rev (edited a)))\<rparr>) s"
    by (rule refines_erase_while [OF inv])
  then have "input_inv (erase_while True s)" by (simp add: refines_def)
  note both = refines_comp [OF one refines_erase_while [OF this, of False]]
  have "same_lines (erase_while False (erase_while True s)) (erase_word s b)"
    by (simp add: erase_word_def Let_def same_lines_echo)
  then show ?thesis
    using both by (simp add: refines_def same_linesD line_erase_word_def Let_def del: lines_of_simps)
qed

lemma refines_erase_all: "input_inv s \<Longrightarrow> refines erase_all (\<lambda>t a. a\<lparr>edited := []\<rparr>) s"
proof (induction s rule: erase_all.induct)
  case (1 s)
  have li: "lines_inv s" using "1.prems" by (simp add: input_inv_def)
  show ?case
  proof (cases "tail (input_ring s) = line_end s")
    case True
    then have "erase_all s = s" using erase_last_cases(1) [OF True] by (subst erase_all.simps) simp
    moreover have "edited (lines_of s) = []" using edited_empty [OF li] True by blast
    ultimately show ?thesis
      using "1.prems" by (simp add: refines_def del: lines_of_simps)
  next
    case False
    have fst: "fst (erase_last s)" using erase_last_cases(2) [OF False] by simp
    have last: "refines (\<lambda>s. snd (erase_last s)) line_erase s" by (rule refines_erase_last [OF "1.prems"])
    then have "input_inv (snd (erase_last s))" by (simp add: refines_def)
    note ih = refines_comp [OF last "1.IH" [OF fst this]]
    have "erase_all s = erase_all (snd (erase_last s))" using fst by (subst erase_all.simps) simp
    then show ?thesis
      by (intro refines_cong [OF ih]) (simp_all add: line_erase_def del: lines_of_simps)
  qed
qed

lemma refines_kill_line:
  assumes inv: "input_inv s"
  shows "refines (\<lambda>s. kill_line s b) (\<lambda>t a. a\<lparr>edited := []\<rparr>) s"
proof (cases "c_lflag (termios s) AND (ECHO OR ECHOKE OR ECHOE) = ECHO OR ECHOKE OR ECHOE")
  case True
  then show ?thesis
    by (intro refines_cong [OF refines_erase_all [OF inv]]) (simp_all add: kill_line_def Let_def)
next
  case False
  have li: "lines_inv s" using inv by (simp add: input_inv_def)
  let ?s = "s\<lparr>input_ring := (input_ring s)\<lparr>tail := line_end s\<rparr>\<rparr>"
  have cut: "input_inv ?s" "lines_of ?s = (lines_of s)\<lparr>edited := []\<rparr>"
    using lines_cut [OF li, of "ready_count s"] inv input_positions [OF li] by (simp_all del: lines_of_simps)
  have "echo_frame ?s (kill_line s b)"
    using False unfolding kill_line_def Let_def
    by (auto intro: echo_frame_trans [OF _ echo_frame_line_column] echo_frame_trans [OF echo_frame_echo])
  note f = cells_frame(3,5) [OF this] echo_frame_fields(1) [OF this]
  show ?thesis
    using cut by (simp add: refines_def f del: lines_of_simps)
qed

lemma same_lines_reprint [simp]: "same_lines s (reprint s b)"
proof -
  have "echo_frame s' (fold (\<lambda>position s. echo s (tty_ring_at (input_ring s) position)) ps s')" for ps s'
    by (rule echo_frame_fold) simp
  then have "echo_frame s (reprint s b)"
    unfolding reprint_def Let_def
    by (auto intro: echo_frame_trans [OF echo_frame_trans [OF echo_frame_trans [OF echo_frame_echo echo_frame_echo] echo_frame_line_column]])
  then show ?thesis by (rule same_lines_echo)
qed

subsection \<open>Receiving\<close>

declare lines_of_simps(1,2) [simp del]

lemma lines_of_flags:
  "lines_of (s\<lparr>escaped := e\<rparr>) = (lines_of s)\<lparr>escape := e\<rparr>" "input_inv (s\<lparr>escaped := e\<rparr>) = input_inv s"
  "lines_of (s\<lparr>literal_next := e\<rparr>) = (lines_of s)\<lparr>literal := e\<rparr>" "input_inv (s\<lparr>literal_next := e\<rparr>) = input_inv s"
proof -
  have c: "cells (s\<lparr>escaped := e\<rparr>) = cells s" "cells (s\<lparr>literal_next := e\<rparr>) = cells s"
    by (simp_all add: cells_def delimiter_at_def)
  have r: "ready_count (s\<lparr>escaped := e\<rparr>) = ready_count s" "ready_count (s\<lparr>literal_next := e\<rparr>) = ready_count s"
    by (simp_all add: ready_count_def)
  show "lines_of (s\<lparr>escaped := e\<rparr>) = (lines_of s)\<lparr>escape := e\<rparr>" "input_inv (s\<lparr>escaped := e\<rparr>) = input_inv s"
    "lines_of (s\<lparr>literal_next := e\<rparr>) = (lines_of s)\<lparr>literal := e\<rparr>" "input_inv (s\<lparr>literal_next := e\<rparr>) = input_inv s"
    by (simp_all add: lines_of_def input_inv_def lines_inv_def c r)
qed

lemma refinesD:
  assumes "refines f g s"
  shows "input_inv (f s)" "lines_of (f s) = g (termios s) (lines_of s)" "termios (f s) = termios s"
  using assms by (simp_all add: refines_def)

lemma refines_flush_input:
  assumes inv: "input_inv s"
  shows "refines tty_discipline_flush_input (\<lambda>t a. line_empty) s"
proof -
  let ?r = "input_ring s"
  let ?s = "s\<lparr>input_ring := ?r\<lparr>head := tail ?r\<rparr>, line_end := tail ?r, line_column := column s,
              literal_next := False, escaped := False, hardcopy_erasing := False\<rparr>"
  have c: "cells ?s = []" and r: "ready_count ?s = 0" by (simp_all add: cells_def Let_def ready_count_def)
  have "ring_ok ?r" "length (delimiters s) = 512" using inv by (simp_all add: input_inv_def lines_inv_def)
  then have "input_inv ?s" "lines_of ?s = line_empty"
    using c r by (simp_all add: input_inv_def lines_inv_def lines_of_def line_empty_def ring_bytes_flush)
  moreover have "same_lines ?s (tty_discipline_flush_input s)"
    by (simp add: tty_discipline_flush_input_def Let_def)
  ultimately show ?thesis
    by (simp add: refines_def same_linesD)
qed

lemma flow_control_same:
  "same_lines s (snd (flow_control s b))"
  "fst (flow_control s b) \<longleftrightarrow> has (c_iflag (termios s)) IXON \<and> (is_special (termios s) b VSTART \<or> is_special (termios s) b VSTOP)"
  by (auto simp: flow_control_def Let_def)

lemma signal_character_lines:
  assumes inv: "input_inv s"
  shows "fst (signal_character s b) \<longleftrightarrow> has (c_lflag (termios s)) ISIG \<and> signal_of (termios s) b \<noteq> 0"
    "refines (\<lambda>s. snd (signal_character s b))
      (\<lambda>t a. if has (c_lflag t) ISIG \<and> signal_of t b \<noteq> 0 \<and> signal_of t b \<noteq> SIGINFO \<and> c_lflag t AND NOFLSH = 0 then line_empty else a) s"
proof -
  show "fst (signal_character s b) \<longleftrightarrow> has (c_lflag (termios s)) ISIG \<and> signal_of (termios s) b \<noteq> 0"
    by (simp add: signal_character_def Let_def)
  let ?t = "termios s"
  let ?s = "if signal_of ?t b \<noteq> SIGINFO \<and> c_lflag ?t AND NOFLSH = 0 then tty_output_flush (tty_discipline_flush_input s) else s"
  show "refines (\<lambda>s. snd (signal_character s b))
      (\<lambda>t a. if has (c_lflag t) ISIG \<and> signal_of t b \<noteq> 0 \<and> signal_of t b \<noteq> SIGINFO \<and> c_lflag t AND NOFLSH = 0 then line_empty else a) s"
  proof (cases "has (c_lflag ?t) ISIG \<and> signal_of ?t b \<noteq> 0")
    case True
    then have "same_lines ?s (snd (signal_character s b))"
      by (simp add: signal_character_def Let_def same_lines_trans [OF same_lines_echo [OF echo_frame_echo] same_lines_output(3)])
    moreover have flush: "same_lines (tty_discipline_flush_input s) (tty_output_flush (tty_discipline_flush_input s))" by simp
    ultimately show ?thesis
      using True inv refinesD [OF refines_flush_input [OF inv]] unfolding refines_def
      by (simp add: same_linesD [OF flush] same_linesD split: if_splits)
  next
    case False
    then have "snd (signal_character s b) = s" by (auto simp: signal_character_def Let_def)
    then show ?thesis using False inv by (auto simp: refines_def)
  qed
qed

text \<open>The same, with the three facts as one value, so that a choice of the code is a choice of values.\<close>

definition view :: "tty \<Rightarrow> bool \<times> line_state \<times> termios" where
  "view s = (input_inv s, lines_of s, termios s)"

lemma refines_view: "refines f g s \<longleftrightarrow> view (f s) = (True, g (termios s) (lines_of s), termios s)"
  by (simp add: refines_def view_def)

lemma view_same: "same_lines s s' \<Longrightarrow> view s' = view s"
  by (simp add: view_def same_linesD)

lemma view_flags:
  "view (s\<lparr>escaped := e\<rparr>) = (input_inv s, (lines_of s)\<lparr>escape := e\<rparr>, termios s)"
  "view (s\<lparr>literal_next := e\<rparr>) = (input_inv s, (lines_of s)\<lparr>literal := e\<rparr>, termios s)"
  by (simp_all add: view_def lines_of_flags)

lemma refines_receive_canonical:
  assumes inv: "input_inv s"
  shows "refines (\<lambda>s. receive_canonical s b) (\<lambda>t. line_canonical t b) s"
proof -
  let ?t = "termios s"
  have e: "input_inv (s\<lparr>escaped := False\<rparr>)" using inv by (simp add: lines_of_flags)
  have put_e: "view (put_data (s\<lparr>escaped := False\<rparr>) c) = (True, line_put ?t c ((lines_of s)\<lparr>escape := False\<rparr>), ?t)" for c
    using refines_put_data [OF e, of c] by (simp add: refines_view lines_of_flags)
  have es: "view (echo (s\<lparr>escaped := True\<rparr>) c) = (True, (lines_of s)\<lparr>escape := True\<rparr>, ?t)" for c
    using view_same [OF same_lines_echo [OF echo_frame_echo], of "s\<lparr>escaped := True\<rparr>" c] inv by (simp add: view_flags)
  have here: "view s = (True, lines_of s, ?t)" using inv by (simp add: view_def)
  note ops = refines_put_data [OF inv, unfolded refines_view] refines_erase [OF inv, unfolded refines_view]
    refines_kill_line [OF inv, unfolded refines_view] refines_erase_word [OF inv, unfolded refines_view]
    refines_end_line [OF inv, unfolded refines_view] view_same [OF same_lines_reprint] put_e es here view_flags
  show ?thesis
    unfolding refines_view receive_canonical_def line_canonical_def Let_def
    by (simp only: if_distrib [of view] ops inv lines_of_simps(4) if_distrib [of "\<lambda>x. (True, x, ?t)"] if_cancel cong: if_cong)
qed

lemma refines_receive_byte:
  assumes inv: "input_inv s"
  shows "refines (\<lambda>s. receive_byte s b) (\<lambda>t. line_byte t b) s"
proof -
  let ?t = "termios s"
  define c where "c = (if has (c_iflag ?t) ISTRIP then b AND 0x7F else b)"
  have l: "input_inv (s\<lparr>literal_next := False\<rparr>)" using inv by (simp add: lines_of_flags)
  obtain taken s1 where fc: "flow_control s c = (taken, s1)" by (cases "flow_control s c")
  have same1: "same_lines s s1" and taken: "taken \<longleftrightarrow> has (c_iflag ?t) IXON \<and> (is_special ?t c VSTART \<or> is_special ?t c VSTOP)"
    using flow_control_same [of s c] fc by simp_all
  have inv1: "input_inv s1" and t1: "termios s1 = ?t" and l1: "lines_of s1 = lines_of s"
    using same_linesD [OF same1] inv by simp_all
  obtain sent s2 where sc: "signal_character s1 c = (sent, s2)" by (cases "signal_character s1 c")
  note sig = signal_character_lines [OF inv1, of c]
  have sent: "sent \<longleftrightarrow> has (c_lflag ?t) ISIG \<and> signal_of ?t c \<noteq> 0" using sig(1) sc t1 by simp
  note r2 = refinesD [OF sig(2), unfolded sc snd_conv t1 l1]
  have v: "view s1 = (True, lines_of s, ?t)" "view s2 = (True, lines_of s2, ?t)"
    using inv1 t1 l1 r2 by (simp_all add: view_def)
  note can = refines_receive_canonical [OF r2(1), unfolded refines_view r2(3)] refines_put_data [OF r2(1), unfolded refines_view r2(3)]
  show ?thesis
  proof (cases "literal_next s")
    case True
    then show ?thesis
      using refinesD [OF refines_put_data [OF l]] unfolding refines_def receive_byte_def line_byte_def Let_def c_def [symmetric]
      by (simp add: lines_of_flags)
  next
    case False
    have rb: "receive_byte s b =
        (if taken then s1 else if sent then s2
         else if c = 0x0D \<and> has (c_iflag ?t) IGNCR then s2
         else let d = (if c = 0x0D then if has (c_iflag ?t) ICRNL then 0x0A else c
                       else if c = 0x0A \<and> has (c_iflag ?t) INLCR then 0x0D else c);
                  d = (if has (c_iflag ?t) IUCLC then of_int (tolower (uint d)) else d)
              in if c_lflag ?t AND ICANON = 0 then put_data s2 d else receive_canonical s2 d)"
      using False r2(3) unfolding receive_byte_def Let_def c_def [symmetric] fc by (simp add: sc)
    have canon: "(if c_lflag ?t AND ICANON = 0 then x else y) = (if has (c_lflag ?t) ICANON then y else x)" for x y :: line_state
      by simp
    have sig: "(if sent then (if signal_of ?t c \<noteq> SIGINFO \<and> c_lflag ?t AND NOFLSH = 0 then line_empty else lines_of s) else x) =
        (if sent then lines_of s2 else x)" for x
      using r2(2) sent by simp
    have later: "\<not> sent \<Longrightarrow> lines_of s2 = lines_of s" using r2(2) sent by auto
    show ?thesis
      unfolding refines_view rb line_byte_def Let_def c_def [symmetric] taken [symmetric] sent [symmetric] sig
      using False by (simp only: if_distrib [of view] v can later canon [symmetric] lines_of_simps(3) if_False not_False_eq_True if_distrib [of "\<lambda>x. (True, x, ?t)"] cong: if_cong)
  qed
qed

lemma refines_receive:
  assumes inv: "input_inv s"
  shows "refines (\<lambda>s. tty_discipline_receive s b err) (\<lambda>t. line_receive t b err) s"
proof -
  let ?r = "if err = TTY_ERROR_NONE then receive_byte s b else if err = TTY_ERROR_BREAK then receive_break s else receive_bad_byte s b"
  have same: "same_lines (tty_discipline_flush_input s) (tty_queue_signal (tty_output_flush (tty_discipline_flush_input s)) SIGINT)"
    by (rule same_lines_trans [OF same_lines_output(1) same_lines_output(3)])
  note byte = refinesD [OF refines_receive_byte [OF inv, of b]] and error = refinesD [OF refines_put_error [OF inv]]
    and flush = refinesD [OF refines_flush_input [OF inv]]
  have "input_inv ?r \<and> lines_of ?r = line_receive (termios s) b err (lines_of s) \<and> termios ?r = termios s"
    unfolding line_receive_def receive_break_def receive_bad_byte_def Let_def
    by (simp add: byte error flush same_linesD [OF same] inv)
  moreover have "same_lines ?r (tty_discipline_receive s b err)"
    unfolding tty_discipline_receive_def by (rule same_lines_update_input_flow)
  ultimately show ?thesis
    by (simp add: refines_def same_linesD split del: if_split)
qed

subsection \<open>Reading\<close>

lemma lines_take:
  assumes inv: "input_inv s" and ne: "head (input_ring s) \<noteq> line_end s"
  defines "s' \<equiv> s\<lparr>input_ring := snd (tty_ring_take (input_ring s))\<rparr>"
  shows "ready (lines_of s) = (fst (tty_ring_take (input_ring s)), delimiter_at s (head (input_ring s))) # ready (lines_of s')"
    "lines_of s' = (lines_of s)\<lparr>ready := ready (lines_of s')\<rparr>" "input_inv s'"
proof -
  let ?h = "head (input_ring s)"
  have li: "lines_inv s" using inv by (simp add: input_inv_def)
  note pos = input_positions [OF li]
  have "ready_count s \<noteq> 0"
  proof
    assume "ready_count s = 0"
    with pos(3) ne show False by simp
  qed
  then obtain l where l: "ready_count s = Suc l" by (cases "ready_count s") auto
  with pos(1) obtain n where n: "length (cells s) = Suc n" by (cases "length (cells s)") auto
  have ring: "input_ring s' = (input_ring s)\<lparr>head := ?h + 1\<rparr>" "line_end s' = line_end s" "delimiters s' = delimiters s"
      "termios s' = termios s" "literal_next s' = literal_next s" "escaped s' = escaped s"
    by (simp_all add: s'_def tty_ring_take_def)
  have n4: "Suc n \<le> 4096" and l4: "Suc l \<le> 4096" using pos(1,2) n l by simp_all
  have "tail (input_ring s) - (?h + 1) = of_nat n" using pos(4) n by simp
  then have u: "unat (tail (input_ring s) - (?h + 1)) = n" using n4 by (simp only: unat_of_nat_u32 Suc_leD)
  have "line_end s - (?h + 1) = of_nat l" using pos(3) l by simp
  then have "unat (line_end s - (?h + 1)) = l" using l4 by (simp only: unat_of_nat_u32 Suc_leD)
  then have rc: "ready_count s' = l" by (simp add: ready_count_def ring)
  have split: "[0..<Suc n] = 0 # map Suc [0..<n]" by (simp add: upt_conv_Cons map_Suc_upt del: upt_Suc)
  have u': "unat (tail (input_ring s) - ?h) = Suc n" using n by (simp add: length_cells)
  have cells: "cells s = (fst (tty_ring_take (input_ring s)), delimiter_at s ?h) # cells s'"
    unfolding cells_def Let_def ring u' split
    by (simp add: u tty_ring_take_def tty_ring_at_def delimiter_at_def ring comp_def add.assoc)
  have c': "cells s' = tl (cells s)" unfolding cells by simp
  show "ready (lines_of s) = (fst (tty_ring_take (input_ring s)), delimiter_at s ?h) # ready (lines_of s')"
    using cells by (simp add: lines_of_def l rc)
  show "lines_of s' = (lines_of s)\<lparr>ready := ready (lines_of s')\<rparr>"
    using cells by (simp add: lines_of_def l rc ring)
  have "drop (ready_count s') (cells s') = drop (ready_count s) (cells s)"
    unfolding rc l using cells by simp
  moreover have "ring_ok (input_ring s')"
    using inv n4 u unfolding input_inv_def lines_inv_def ring ring_ok_def by simp
  moreover have "length (cells s') < length (cells s)" using n unfolding c' by simp
  ultimately show "input_inv s'"
    using inv n l unfolding input_inv_def lines_inv_def ring by (auto simp: rc c')
qed

lemma read_loop_lines:
  assumes "input_inv s"
  shows "case (read_loop canonical n copied s, line_read canonical (n - length copied) (ready (lines_of s))) of
    ((bs, eof, s'), (ls, leof, q)) \<Rightarrow> bs = copied @ ls \<and> eof = (leof \<and> copied = []) \<and> input_inv s' \<and>
      lines_of s' = (lines_of s)\<lparr>ready := q\<rparr> \<and> termios s' = termios s"
  using assms
proof (induction canonical n copied s rule: read_loop.induct)
  case (1 canonical n copied s)
  show ?case
  proof (cases "length copied < n \<and> head (input_ring s) \<noteq> line_end s")
    case False
    then have loop: "read_loop canonical n copied s = (copied, False, s)"
      by (subst read_loop.simps) auto
    show ?thesis
    proof (cases "length copied < n")
      case True
      with False have "head (input_ring s) = line_end s" by simp
      then have "ready (lines_of s) = []" by (simp add: lines_of_def ready_count_def)
      then show ?thesis using loop "1.prems" by simp
    next
      case False
      then have "line_read canonical (n - length copied) (ready (lines_of s)) = ([], False, ready (lines_of s))"
        by (cases "ready (lines_of s)") simp_all
      then show ?thesis using loop "1.prems" by simp
    qed
  next
    case True
    let ?d = "delimiter_at s (head (input_ring s))"
    obtain b r where take: "tty_ring_take (input_ring s) = (b, r)" by (cases "tty_ring_take (input_ring s)")
    let ?s = "s\<lparr>input_ring := r\<rparr>"
    note lt = lines_take [OF "1.prems" conjunct2 [OF True], unfolded take fst_conv snd_conv]
    have same: "(lines_of ?s)\<lparr>ready := q\<rparr> = (lines_of s)\<lparr>ready := q\<rparr>" for q by (subst lt(2)) simp
    obtain m where m: "n - length copied = Suc m" using True by (cases "n - length copied") auto
    have m': "n - length (copied @ [b]) = m" using m by simp
    have lr: "line_read canonical (n - length copied) (ready (lines_of s)) =
        (if canonical \<and> ?d \<and> b = 0 then ([], True, ready (lines_of ?s))
         else if canonical \<and> ?d then ([b], False, ready (lines_of ?s))
         else case line_read canonical m (ready (lines_of ?s)) of (bs, eof, q) \<Rightarrow> (b # bs, False, q))"
      unfolding m lt(1) by simp
    have loop: "read_loop canonical n copied s =
        (if canonical \<and> ?d \<and> b = 0 then (copied, copied = [], ?s)
         else if canonical \<and> ?d then (copied @ [b], False, ?s)
         else read_loop canonical n (copied @ [b]) ?s)"
      using True take by (subst read_loop.simps) (simp add: Let_def)
    show ?thesis
    proof (cases "canonical \<and> ?d")
      case True
      then show ?thesis
        using lt unfolding lr loop by (auto simp: Let_def)
    next
      case False
      then have "\<not> ((canonical \<and> ?d) \<and> b = 0)" by blast
      from "1.IH" [OF True refl refl take [symmetric] refl this False lt(3)] False same show ?thesis
        unfolding lr loop m' by (auto split: prod.splits)
    qed
  qed
qed

subsection \<open>Changing the settings\<close>

lemma refines_set_termios:
  fixes t :: termios
  assumes inv: "input_inv s"
  defines "s' \<equiv> tty_discipline_set_termios (s\<lparr>termios := t\<rparr>) (termios s)"
  shows "input_inv s'" "termios s' = t"
    "lines_of s' = (if has (c_lflag (termios s)) ICANON \<and> c_lflag t AND ICANON = 0
       then \<lparr>ready = ready (lines_of s) @ map (\<lambda>b. (b, False)) (edited (lines_of s)), edited = [], literal = False, escape = False\<rparr>
       else lines_of s)"
proof -
  let ?s = "s\<lparr>termios := t\<rparr>"
  let ?u = "if has (c_lflag (termios s)) ICANON \<and> c_lflag t AND ICANON = 0
            then ?s\<lparr>line_end := tail (input_ring s), literal_next := False, escaped := False\<rparr> else ?s"
  have same: "same_lines ?u s'"
    unfolding s'_def tty_discipline_set_termios_def by simp
  have c: "cells ?s = cells s" "ready_count ?s = ready_count s" by (simp_all add: cells_def delimiter_at_def ready_count_def)
  then have l: "lines_of ?s = lines_of s" "lines_inv ?s" using inv by (simp_all add: lines_of_def input_inv_def lines_inv_def)
  note over = lines_hand_over [OF l(2)]
  have flags: "lines_of (x\<lparr>literal_next := False, escaped := False\<rparr>) = (lines_of x)\<lparr>literal := False, escape := False\<rparr>"
      "input_inv (x\<lparr>literal_next := False, escaped := False\<rparr>) = input_inv x" for x
    by (simp_all add: lines_of_flags)
  have "input_inv ?u \<and> lines_of ?u = (if has (c_lflag (termios s)) ICANON \<and> c_lflag t AND ICANON = 0
       then \<lparr>ready = ready (lines_of s) @ map (\<lambda>b. (b, False)) (edited (lines_of s)), edited = [], literal = False, escape = False\<rparr>
       else lines_of s)"
  proof (cases "has (c_lflag (termios s)) ICANON \<and> c_lflag t AND ICANON = 0")
    case True
    then show ?thesis using over l(1) by (simp add: flags)
  next
    case False
    then have "input_inv ?s" using inv l(2) c unfolding input_inv_def by auto
    with False l(1) show ?thesis by auto
  qed
  then show "input_inv s'" "lines_of s' = (if has (c_lflag (termios s)) ICANON \<and> c_lflag t AND ICANON = 0
       then \<lparr>ready = ready (lines_of s) @ map (\<lambda>b. (b, False)) (edited (lines_of s)), edited = [], literal = False, escape = False\<rparr>
       else lines_of s)"
    using same_linesD [OF same] by simp_all
  show "termios s' = t" using same_linesD(3) [OF same] by auto
qed

lemma reset_lines:
  assumes "length (data (input_ring s)) = 4096"
  shows "input_inv (tty_discipline_reset s)" "lines_of (tty_discipline_reset s) = line_empty"
proof -
  have c: "cells (tty_discipline_reset s) = []" and r: "ready_count (tty_discipline_reset s) = 0"
    by (simp_all add: cells_def ready_count_def tty_discipline_reset_def zero_discipline_def Let_def)
  show "input_inv (tty_discipline_reset s)" "lines_of (tty_discipline_reset s) = line_empty"
    using assms c r by (simp_all add: input_inv_def lines_inv_def lines_of_def line_empty_def tty_discipline_reset_def
        zero_discipline_def Let_def ring_ok_def)
qed

end
