(* ===== verification/Tty_Core.thy ===== *)
theory Tty_Core
  imports Tty_Lines
begin

text \<open>
  The terminal core of \<^verbatim>\<open>kernel/dev/tty_interface.c\<close> around the line discipline: bytes and line
  errors from the driver, the worker that runs them through the discipline, output taken by the
  driver, reads, writes and the requests on the queues. An operation is what the core does while it
  holds the device's lock. A read or write that sleeps meets a list of what the other
  threads do to the terminal while it sleeps.
\<close>

subsection \<open>Settings\<close>

definition VDISCARD :: nat where "VDISCARD = 13"
definition VMIN :: nat where "VMIN = 14"
definition VTIME :: nat where "VTIME = 15"
definition NCCS :: nat where "NCCS = 20"

definition CS8 :: u32 where "CS8 = 0x0003"
definition CREAD :: u32 where "CREAD = 0x0008"
definition HUPCL :: u32 where "HUPCL = 0x0040"

definition TCIFLUSH :: int where "TCIFLUSH = 0"
definition TCOFLUSH :: int where "TCOFLUSH = 1"
definition TCIOFLUSH :: int where "TCIOFLUSH = 2"
definition TCOOFF :: int where "TCOOFF = 0"
definition TCOON :: int where "TCOON = 1"
definition TCIOFF :: int where "TCIOFF = 2"
definition TCION :: int where "TCION = 3"

definition VTIME_UNIT_NSEC :: u64 where "VTIME_UNIT_NSEC = 100000000"
definition DEFAULT_SPEED :: u32 where "DEFAULT_SPEED = 38400"

definition CONTROL :: "u8 \<Rightarrow> u8" where
  "CONTROL letter = letter AND 0x1F"

definition set_default_termios :: "u32 \<Rightarrow> termios" where
  "set_default_termios speed =
     (let speed = (if speed = 0 then DEFAULT_SPEED else speed);
          cc = replicate NCCS 0;
          cc = cc[VINTR := CONTROL 0x43];
          cc = cc[VQUIT := CONTROL 0x5C];
          cc = cc[VERASE := 0x7F];
          cc = cc[VKILL := CONTROL 0x55];
          cc = cc[VEOF := CONTROL 0x44];
          cc = cc[VSTART := CONTROL 0x51];
          cc = cc[VSTOP := CONTROL 0x53];
          cc = cc[VSUSP := CONTROL 0x5A];
          cc = cc[VREPRINT := CONTROL 0x52];
          cc = cc[VWERASE := CONTROL 0x57];
          cc = cc[VLNEXT := CONTROL 0x56];
          cc = cc[VDISCARD := CONTROL 0x4F];
          cc = cc[VMIN := 1];
          cc = cc[VTIME := 0];
          cc = cc[VSTATUS := CONTROL 0x54]
      in \<lparr>c_iflag = ICRNL OR IXON OR IMAXBEL, c_oflag = OPOST OR ONLCR, c_cflag = CS8 OR CREAD OR HUPCL,
          c_lflag = ISIG OR ICANON OR ECHO OR ECHOE OR ECHOK OR ECHOCTL OR ECHOKE OR IEXTEN,
          c_cc = cc, c_ispeed = speed, c_ospeed = speed\<rparr>)"

subsection \<open>The queues\<close>

definition discard_flip_locked :: "tty \<Rightarrow> tty" where
  "discard_flip_locked s =
     s\<lparr>flip_ring := (flip_ring s)\<lparr>head := tail (flip_ring s)\<rparr>, flip_errors := replicate 128 0\<rparr>"

definition reset_rings_locked :: "tty \<Rightarrow> tty" where
  "reset_rings_locked s =
     (let s = discard_flip_locked s
      in tty_discipline_reset
           (s\<lparr>output_ring := (output_ring s)\<lparr>head := tail (output_ring s)\<rparr>, xchar := 0, output_stopped := False, signals := 0\<rparr>))"

text \<open>Which events the core triggers, and whether the driver is to transmit.\<close>

record notice =
  writable :: bool
  drained :: bool
  transmit :: bool

definition notify_input_locked :: "tty \<Rightarrow> bool" where
  "notify_input_locked s \<longleftrightarrow> tty_discipline_readable s \<noteq> 0"

definition notify_output_locked :: "tty \<Rightarrow> notice" where
  "notify_output_locked s =
     (let pending = (tty_ring_used (output_ring s) \<noteq> 0)
      in \<lparr>writable = (unat (tty_ring_room (output_ring s)) \<ge> TTY_EXPANSION_MAX), drained = (\<not> pending),
          transmit = (xchar s \<noteq> 0 \<or> pending \<and> \<not> output_stopped s)\<rparr>)"

subsection \<open>Input from the driver\<close>

definition error_code :: "tty_error \<Rightarrow> u8" where
  "error_code err =
     (case err of TTY_ERROR_NONE \<Rightarrow> 0 | TTY_ERROR_BREAK \<Rightarrow> 1 | TTY_ERROR_PARITY \<Rightarrow> 2 | TTY_ERROR_FRAMING \<Rightarrow> 3 | TTY_ERROR_OVERRUN \<Rightarrow> 4)"

definition error_of_code :: "u8 \<Rightarrow> tty_error" where
  "error_of_code code =
     (if code = 0 then TTY_ERROR_NONE else if code = 1 then TTY_ERROR_BREAK else if code = 2 then TTY_ERROR_PARITY
      else if code = 3 then TTY_ERROR_FRAMING else TTY_ERROR_OVERRUN)"

definition flip_put :: "u8 \<Rightarrow> tty \<Rightarrow> tty" where
  "flip_put byte s = s\<lparr>flip_ring := tty_ring_put (flip_ring s) byte\<rparr>"

fun tty_receive :: "u8 list \<Rightarrow> tty \<Rightarrow> tty" where
  "tty_receive [] s = s"
| "tty_receive (b # bs) s =
     (if tty_ring_room (flip_ring s) = 0 then s\<lparr>lost := lost s + of_nat (length (b # bs))\<rparr>
      else tty_receive bs (flip_put b s))"

definition tty_receive_error :: "u8 \<Rightarrow> tty_error \<Rightarrow> tty \<Rightarrow> tty" where
  "tty_receive_error byte err s =
     (if err = TTY_ERROR_OVERRUN then
        let s = s\<lparr>lost := lost s + 1\<rparr>
        in if tty_ring_room (flip_ring s) \<noteq> 0 then flip_put byte s else s\<lparr>lost := lost s + 1\<rparr>
      else if tty_ring_room (flip_ring s) \<ge> 2 then
        let s = s\<lparr>flip_errors := bitmap_set (flip_errors s) (ring_slot (tail (flip_ring s)))\<rparr>
        in flip_put byte (flip_put (error_code err) s)
      else s\<lparr>lost := lost s + 1\<rparr>)"

definition take_error_mark :: "tty \<Rightarrow> bool \<times> tty" where
  "take_error_mark s =
     (let position = ring_slot (head (flip_ring s))
      in if \<not> bitmap_isset (flip_errors s) position then (False, s)
         else (True, s\<lparr>flip_errors := bitmap_clear (flip_errors s) position\<rparr>))"

definition flip_take :: "tty \<Rightarrow> u8 \<times> tty" where
  "flip_take s = (case tty_ring_take (flip_ring s) of (byte, ring) \<Rightarrow> (byte, s\<lparr>flip_ring := ring\<rparr>))"

text \<open>One round of the worker's loop, and the loop, with no value if it does not end.\<close>

definition process_byte :: "tty \<Rightarrow> tty" where
  "process_byte s =
     (case take_error_mark s of (marked, s) \<Rightarrow>
      case (if marked then flip_take s else (0, s)) of (code, s) \<Rightarrow>
      case flip_take s of (byte, s) \<Rightarrow>
        tty_discipline_receive s byte (error_of_code code))"

partial_function (option) process_flip :: "tty \<Rightarrow> tty option" where
  "process_flip s = (if tty_ring_used (flip_ring s) = 0 then Some s else process_flip (process_byte s))"

text \<open>The worker's pass over a terminal: the signals to send, whether readers are woken, and the notice for the output.\<close>

definition process_input :: "tty \<Rightarrow> (u32 \<times> bool \<times> notice \<times> tty) option" where
  "process_input s =
     (case process_flip s of
        None \<Rightarrow> None
      | Some s \<Rightarrow>
          let sent = signals s; s = s\<lparr>signals := 0\<rparr>
          in Some (sent, notify_input_locked s, notify_output_locked s, s))"

subsection \<open>Output to the driver\<close>

fun take_output :: "nat \<Rightarrow> tty \<Rightarrow> u8 list \<times> tty" where
  "take_output 0 s = ([], s)"
| "take_output (Suc n) s =
     (if tty_ring_used (output_ring s) \<noteq> 0 then
        case tty_ring_take (output_ring s) of (byte, ring) \<Rightarrow>
        case take_output n (s\<lparr>output_ring := ring\<rparr>) of (bytes, s) \<Rightarrow> (byte # bytes, s)
      else ([], s))"

definition tty_transmit_take :: "nat \<Rightarrow> tty \<Rightarrow> u8 list \<times> tty" where
  "tty_transmit_take n s =
     (case (if xchar s \<noteq> 0 \<and> n \<noteq> 0 then ([xchar s], s\<lparr>xchar := 0\<rparr>) else ([], s)) of (out, s) \<Rightarrow>
        if \<not> output_stopped s then
          case take_output (n - length out) s of (bytes, s) \<Rightarrow> (out @ bytes, s)
        else (out, s))"

subsection \<open>Requests\<close>

datatype termios_request = TCSETS | TCSETSW | TCSETSF

text \<open>What a change of the settings does once the output has drained and the driver has accepted it.\<close>

definition change_termios :: "termios_request \<Rightarrow> termios \<Rightarrow> tty \<Rightarrow> bool \<times> notice \<times> tty" where
  "change_termios request t s =
     (let old = termios s;
          s = tty_discipline_set_termios (s\<lparr>termios := t\<rparr>) old;
          s = (if request = TCSETSF then tty_discipline_flush_input (discard_flip_locked s) else s)
      in (notify_input_locked s, notify_output_locked s, s))"

text \<open>The request, with what waiting for the output and the driver's check return.\<close>

definition set_termios :: "termios_request \<Rightarrow> unit result \<Rightarrow> unit result \<Rightarrow> termios \<Rightarrow> tty \<Rightarrow> unit result \<times> tty" where
  "set_termios request waited accepted t s =
     (let retval = (if request \<noteq> TCSETS then waited else Inr ());
          retval = (if retval = Inr () then accepted else retval)
      in if retval = Inr () then (Inr (), snd (snd (change_termios request t s))) else (retval, s))"

definition flush_queues :: "int \<Rightarrow> tty \<Rightarrow> unit result \<times> tty" where
  "flush_queues queue s =
     (if queue \<noteq> TCIFLUSH \<and> queue \<noteq> TCOFLUSH \<and> queue \<noteq> TCIOFLUSH then (Inl EINVAL, s)
      else
        let s = (if queue \<noteq> TCOFLUSH then tty_discipline_flush_input (discard_flip_locked s) else s);
            s = (if queue \<noteq> TCIFLUSH then tty_output_flush s else s)
        in (Inr (), s))"

definition control_flow :: "int \<Rightarrow> tty \<Rightarrow> unit result \<times> tty" where
  "control_flow action s =
     (if action = TCOOFF \<or> action = TCOON then (Inr (), tty_output_set_stopped s (action = TCOOFF))
      else if action = TCIOFF \<or> action = TCION then
        let special = c_cc (termios s) ! (if action = TCIOFF then VSTOP else VSTART)
        in (Inr (), if special \<noteq> POSIX_VDISABLE then tty_output_put_ahead s special else s)
      else (Inl EINVAL, s))"

subsection \<open>Reading and writing\<close>

definition read_done :: "termios \<Rightarrow> nat \<Rightarrow> nat \<Rightarrow> bool" where
  "read_done t copied n =
     (let wanted = unat (c_cc t ! VMIN);
          wanted = (if wanted = 0 then 1 else wanted);
          wanted = (if wanted > n then n else wanted)
      in if copied \<ge> wanted then True else c_cc t ! VMIN = 0 \<and> c_cc t ! VTIME = 0)"

definition read_timeout :: "termios \<Rightarrow> nat \<Rightarrow> u64" where
  "read_timeout t copied =
     (let tenths = ucast (c_cc t ! VTIME) :: u64
      in if c_lflag t AND ICANON = 0 \<and> tenths \<noteq> 0 \<and> (c_cc t ! VMIN = 0 \<or> copied > 0)
         then tenths * VTIME_UNIT_NSEC else 0)"

text \<open>
  A sleep: what \<^verbatim>\<open>event_await_unlock\<close> returns, whether the device is gone afterwards, and what
  happened to the terminal meanwhile.
\<close>

type_synonym sleep = "unit result \<times> bool \<times> (tty \<Rightarrow> tty)"

text \<open>A read asleep at the end of the list has no value.\<close>

fun read_input :: "bool \<Rightarrow> nat \<Rightarrow> u8 list \<Rightarrow> bool \<Rightarrow> sleep list \<Rightarrow> tty \<Rightarrow> (u8 list result \<times> tty) option" where
  "read_input nonblock n copied removed sleeps s =
     (case tty_discipline_read s (n - length copied) of (bytes, end_of_file, s) \<Rightarrow>
      let copied = copied @ bytes
      in if (if has (c_lflag (termios s)) ICANON then copied \<noteq> [] \<or> end_of_file
             else read_done (termios s) (length copied) n)
         then Some (Inr copied, s)
         else if removed then Some (Inr copied, s)
         else if nonblock then Some (if copied = [] then Inl EAGAIN else Inr copied, s)
         else case sleeps of
           [] \<Rightarrow> None
         | (wakeup, removed, others) # sleeps \<Rightarrow>
             (case wakeup of
                Inr _ \<Rightarrow> read_input nonblock n copied removed sleeps (others s)
              | Inl err \<Rightarrow> Some (if err \<noteq> ETIMEDOUT \<and> copied = [] then Inl err else Inr copied, others s)))"

declare read_input.simps [simp del]

text \<open>The bytes the output takes in a row, and what is left of them.\<close>

fun write_bytes :: "u8 list \<Rightarrow> tty \<Rightarrow> u8 list \<times> tty" where
  "write_bytes [] s = ([], s)"
| "write_bytes (b # bs) s =
     (case tty_discipline_output s b of
        (True, s) \<Rightarrow> write_bytes bs s
      | (False, s) \<Rightarrow> (b # bs, s))"

text \<open>
  A write of the rest of a buffer: each round meets what the other threads do while the lock is
  dropped, and, if there is still no room, while it sleeps.
\<close>

type_synonym pause = "bool \<times> (tty \<Rightarrow> tty) \<times> sleep"

fun write_rounds :: "bool \<Rightarrow> bool \<Rightarrow> u8 list \<Rightarrow> pause list \<Rightarrow> tty \<Rightarrow> (errno option \<times> bool \<times> u8 list \<times> tty) option" where
  "write_rounds nonblock removed bytes pauses s =
     (case write_bytes bytes s of (rest, s) \<Rightarrow>
        if rest = [] \<or> removed \<or> nonblock then Some (None, removed, rest, s)
        else case pauses of
          [] \<Rightarrow> None
        | (removed, others, wakeup, removed', others') # pauses \<Rightarrow>
            let s = others s
            in if unat (tty_ring_room (output_ring s)) \<ge> TTY_EXPANSION_MAX \<or> removed
               then write_rounds nonblock removed rest pauses s
               else
                 let s = others' s
                 in (case wakeup of
                       Inr _ \<Rightarrow> write_rounds nonblock removed' rest pauses s
                     | Inl err \<Rightarrow> Some (Some err, removed', rest, s)))"

declare write_rounds.simps [simp del]

definition write_output :: "bool \<Rightarrow> bool \<Rightarrow> u8 list \<Rightarrow> pause list \<Rightarrow> tty \<Rightarrow> (nat result \<times> tty) option" where
  "write_output nonblock removed bytes pauses s =
     (case write_rounds nonblock removed bytes pauses s of
        None \<Rightarrow> None
      | Some (err, removed, rest, s) \<Rightarrow>
          let written = length bytes - length rest
          in Some (if written \<noteq> 0 then Inr written
                   else if removed then Inl EIO
                   else case err of Some err \<Rightarrow> Inl err
                   | None \<Rightarrow> if nonblock then Inl EAGAIN else Inr 0, s))"

subsection \<open>A new terminal\<close>

definition blank_tty :: "u8 list \<Rightarrow> u8 list \<Rightarrow> tty" where
  "blank_tty flip_page output_page =
     \<lparr>termios = \<lparr>c_iflag = 0, c_oflag = 0, c_cflag = 0, c_lflag = 0, c_cc = replicate NCCS 0, c_ispeed = 0, c_ospeed = 0\<rparr>,
      flip_ring = \<lparr>data = flip_page, head = 0, tail = 0\<rparr>, output_ring = \<lparr>data = output_page, head = 0, tail = 0\<rparr>,
      xchar = 0, output_stopped = False, signals = 0, lost = 0, flip_errors = replicate 128 0,
      input_ring = \<lparr>data = [], head = 0, tail = 0\<rparr>, delimiters = replicate 512 0, line_end = 0, line_column = 0, column = 0,
      literal_next = False, escaped = False, input_stopped = False, hardcopy_erasing = False\<rparr>"

text \<open>The pages of the three rings, where there is memory for them, and what the registration of the device returns.\<close>

definition tty_interface_add ::
  "u8 list option \<Rightarrow> u8 list option \<Rightarrow> u8 list option \<Rightarrow> unit result \<Rightarrow> u32 \<Rightarrow> tty result" where
  "tty_interface_add flip_page output_page input_page registered initial_speed =
     (case (flip_page, output_page) of
        (Some flip_page, Some output_page) \<Rightarrow>
          (case tty_discipline_init input_page (blank_tty flip_page output_page) of
             (Inl err, _) \<Rightarrow> Inl err
           | (Inr _, s) \<Rightarrow>
               let s = s\<lparr>termios := set_default_termios initial_speed\<rparr>
               in case registered of Inl err \<Rightarrow> Inl err | Inr _ \<Rightarrow> Inr s)
      | _ \<Rightarrow> Inl ENOMEM)"

end
