(* ===== verification/Tty_Frame.thy ===== *)
theory Tty_Frame
  imports Tty_Core
begin

text \<open>
  What the line discipline leaves alone: the ring the driver fills, its error marks and the
  count of lost bytes; and that it keeps the output ring well formed.
\<close>

definition core_frame :: "tty \<Rightarrow> tty \<Rightarrow> bool" where
  "core_frame s s' \<longleftrightarrow> flip_ring s' = flip_ring s \<and> flip_errors s' = flip_errors s \<and> lost s' = lost s \<and>
     (ring_ok (output_ring s) \<longrightarrow> ring_ok (output_ring s'))"

lemma core_frame_refl [simp, intro]: "core_frame s s"
  by (simp add: core_frame_def)

lemma core_frame_trans: "core_frame s s' \<Longrightarrow> core_frame s' s'' \<Longrightarrow> core_frame s s''"
  by (simp add: core_frame_def)

lemma core_frameD:
  assumes "core_frame s s'"
  shows "flip_ring s' = flip_ring s" "flip_errors s' = flip_errors s" "lost s' = lost s"
    "ring_ok (output_ring s) \<Longrightarrow> ring_ok (output_ring s')"
  using assms by (simp_all add: core_frame_def)

text \<open>A step that leaves all of it alone may come first or last.\<close>

definition same_core :: "tty \<Rightarrow> tty \<Rightarrow> bool" where
  "same_core s s' \<longleftrightarrow> flip_ring s' = flip_ring s \<and> flip_errors s' = flip_errors s \<and> lost s' = lost s \<and> output_ring s' = output_ring s"

lemma core_frame_same: "same_core s s' \<Longrightarrow> core_frame s s'"
  by (simp add: core_frame_def same_core_def)

lemma core_frame_before: "core_frame s' t \<Longrightarrow> same_core s s' \<Longrightarrow> core_frame s t"
  by (simp add: core_frame_def same_core_def)

lemma core_frame_after: "core_frame s t \<Longrightarrow> same_core t t' \<Longrightarrow> core_frame s t'"
  by (simp add: core_frame_def same_core_def)

subsection \<open>Output\<close>

lemma output_put_ok:
  assumes ok: "ring_ok r" and fits: "length bs \<le> unat (tty_ring_room r)"
  shows "ring_ok (fold (\<lambda>b r. tty_ring_put r b) bs r)" "ring_bytes (fold (\<lambda>b r. tty_ring_put r b) bs r) = ring_bytes r @ bs"
  using rq.put_all [OF ok, of bs] fits by (simp_all add: unat_ring_room [OF ok])

lemma core_frame_output: "core_frame s (snd (tty_discipline_output s b))"
  by (auto simp: core_frame_def tty_discipline_output_def tty_output_put_def output_put_ok split: prod.split)

lemma core_frame_output_or_drop [simp, intro]: "core_frame s (output_or_drop s b)"
  unfolding output_or_drop_def by (rule core_frame_output)

lemma core_frame_echo [simp, intro]: "core_frame s (echo s b)"
  unfolding echo_def by (auto intro: core_frame_trans)

lemma core_frame_fold: "(\<And>s b. core_frame s (f b s)) \<Longrightarrow> core_frame s (fold f bs s)"
  by (induction bs arbitrary: s) (auto intro: core_frame_trans)

lemma core_frame_funpow: "(\<And>s. core_frame s (f s)) \<Longrightarrow> core_frame s ((f ^^ n) s)"
  by (induction n) (auto intro: core_frame_trans)

lemma core_frame_echo_string [simp, intro]: "core_frame s (echo_string s bs)"
  unfolding echo_string_def by (rule core_frame_fold) simp

lemma core_frame_echo_positions [simp, intro]:
  "core_frame s (fold (\<lambda>position s. echo s (tty_ring_at (input_ring s) position)) ps s)"
  by (rule core_frame_fold) simp

lemma core_frame_hardcopy_echo [simp, intro]: "core_frame s (echo (s\<lparr>hardcopy_erasing := h\<rparr>) b)"
  by (rule core_frame_before [OF core_frame_echo]) (simp add: same_core_def)

lemma core_frame_close_hardcopy_erase [simp, intro]: "core_frame s (close_hardcopy_erase s)"
  by (simp add: close_hardcopy_erase_def)

lemma core_frame_back_up [simp, intro]: "core_frame s (back_up i target s)"
proof (induction i target s rule: back_up.induct)
  case (1 i target s)
  then show ?case
    by (subst back_up.simps) (auto intro: core_frame_trans)
qed

subsection \<open>Editing\<close>

lemma core_frame_echo_erase [simp, intro]: "core_frame s (echo_erase s a b)"
  unfolding echo_erase_def Let_def
  by (auto intro: core_frame_trans [OF core_frame_hardcopy_echo] core_frame_funpow)

lemma core_frame_erase_last [simp, intro]: "core_frame s (snd (erase_last s))"
proof -
  have "core_frame s (echo_erase (s\<lparr>input_ring := r\<rparr>) a b)" "core_frame s (s\<lparr>input_ring := r\<rparr>)" for r a b
    by (rule core_frame_before [OF core_frame_echo_erase], simp add: same_core_def) (simp add: core_frame_def)
  then show ?thesis
    by (simp add: erase_last_def Let_def)
qed

lemma core_frame_erase [simp, intro]: "core_frame s (erase s b)"
  using core_frame_erase_last [of s] unfolding erase_def
  by (auto split: prod.split bool.split intro: core_frame_trans)

lemma core_frame_erase_while [simp, intro]: "core_frame s (erase_while blank s)"
proof (induction blank s rule: erase_while.induct)
  case (1 blank s)
  then show ?case
    by (subst erase_while.simps) (auto intro: core_frame_trans [OF core_frame_erase_last])
qed

lemma core_frame_erase_all [simp, intro]: "core_frame s (erase_all s)"
proof (induction s rule: erase_all.induct)
  case (1 s)
  then show ?case
    by (subst erase_all.simps) (auto intro: core_frame_trans [OF core_frame_erase_last])
qed

lemma core_frame_erase_word [simp, intro]: "core_frame s (erase_word s b)"
proof -
  have "core_frame s (erase_while False (erase_while True s))"
    by (rule core_frame_trans [OF core_frame_erase_while core_frame_erase_while])
  then show ?thesis
    unfolding erase_word_def Let_def by (auto intro: core_frame_trans)
qed

lemma core_frame_kill_line [simp, intro]: "core_frame s (kill_line s b)"
proof -
  let ?s = "s\<lparr>input_ring := (input_ring s)\<lparr>tail := line_end s\<rparr>\<rparr>"
  have "same_core s ?s" by (simp add: same_core_def)
  note before = core_frame_before [OF _ this]
  have "core_frame ?s (echo (echo ?s b) 0x0A)" by (rule core_frame_trans [OF core_frame_echo core_frame_echo])
  note frames = before [OF this] before [OF core_frame_echo, of b] before [OF core_frame_refl]
  have "core_frame s (if e then if k then echo (echo ?s b) 0x0A else echo ?s b else ?s)" for e k
    by (cases e; cases k) (simp_all only: if_True if_False frames)
  then have "core_frame s ((if e then if k then echo (echo ?s b) 0x0A else echo ?s b else ?s)\<lparr>line_column := c\<rparr>)" for e k c
    by (rule core_frame_after) (simp add: same_core_def)
  then show ?thesis
    unfolding kill_line_def Let_def by (simp only: if_distrib [of "core_frame s"] core_frame_erase_all if_cancel)
qed

lemma core_frame_reprint [simp, intro]: "core_frame s (reprint s b)"
proof -
  have "core_frame s (echo (echo s b) 0x0A)" by (rule core_frame_trans [OF core_frame_echo core_frame_echo])
  then have "core_frame s ((echo (echo s b) 0x0A)\<lparr>line_column := c\<rparr>)" for c
    by (rule core_frame_after) (simp add: same_core_def)
  then show ?thesis
    unfolding reprint_def Let_def
    by (simp only: if_distrib [of "core_frame s"] core_frame_refl core_frame_trans [OF _ core_frame_echo_positions] if_cancel)
qed

subsection \<open>Input\<close>

lemma same_core_store: "same_core s (store s b d)"
  by (simp add: same_core_def store_def Let_def)

lemma core_frame_store [simp, intro]: "core_frame s (store s b d)"
  by (rule core_frame_same [OF same_core_store])

lemma core_frame_end_raw_data [simp, intro]: "core_frame s (end_raw_data s)"
  by (simp add: core_frame_def end_raw_data_def)

lemma core_frame_put_data [simp, intro]: "core_frame s (put_data s b)"
proof -
  let ?s = "close_hardcopy_erase s"
  have st: "core_frame s' (end_raw_data (((\<lambda>s. store s b False) ^^ n) s'))" for s' n
    by (rule core_frame_trans [OF core_frame_funpow core_frame_end_raw_data]) simp
  have "core_frame ?s (end_raw_data (((\<lambda>s. store s b False) ^^ n) (if c then echo ?s b else ?s)))" for n c
    using core_frame_trans [OF core_frame_echo st] st by (cases c) (simp_all only: if_True if_False)
  then have "core_frame ?s (put_data s b)"
    unfolding put_data_def Let_def by auto
  then show ?thesis by (rule core_frame_trans [OF core_frame_close_hardcopy_erase])
qed

lemma core_frame_put_error [simp, intro]: "core_frame s (put_error s b)"
proof -
  have "core_frame s (store (store (store s MARK False) 0 False) b False)"
    by (rule core_frame_trans [OF core_frame_trans [OF core_frame_store core_frame_store] core_frame_store])
  then show ?thesis
    unfolding put_error_def by (intro core_frame_trans [OF _ core_frame_end_raw_data]) simp
qed

lemma core_frame_end_line [simp, intro]: "core_frame s (end_line s b)"
proof -
  let ?s = "close_hardcopy_erase s"
  have "core_frame ?s (store (if c then echo ?s b else ?s) b True)" for c
    using core_frame_trans [OF core_frame_echo core_frame_store] by simp
  then have "core_frame ?s ((store (if c then echo ?s b else ?s) b True)\<lparr>line_end := p, line_column := q\<rparr>)" for c p q
    by (rule core_frame_after) (simp add: same_core_def)
  then have "core_frame ?s (end_line s b)"
    unfolding end_line_def Let_def by simp
  then show ?thesis by (rule core_frame_trans [OF core_frame_close_hardcopy_erase])
qed

lemma core_frame_update_input_flow [simp, intro]: "core_frame s (update_input_flow s)"
  by (simp add: core_frame_def update_input_flow_def send_flow_character_def tty_output_put_ahead_def Let_def)

lemma core_frame_flush_input [simp, intro]: "core_frame s (tty_discipline_flush_input s)"
  unfolding tty_discipline_flush_input_def Let_def
  by (rule core_frame_before [OF core_frame_update_input_flow]) (simp add: same_core_def)

lemma core_frame_output_flush [simp, intro]: "core_frame s (tty_output_flush s)"
  by (simp add: core_frame_def tty_output_flush_def ring_bytes_flush)

lemma core_frame_queue_signal [simp, intro]: "core_frame s (tty_queue_signal s n)"
  by (simp add: core_frame_def tty_queue_signal_def)

lemma core_frame_flow_control [simp, intro]: "core_frame s (snd (flow_control s b))"
  by (simp add: core_frame_def flow_control_def tty_output_set_stopped_def Let_def)

lemma core_frame_signal_character [simp, intro]: "core_frame s (snd (signal_character s b))"
proof -
  have flush: "core_frame s (tty_output_flush (tty_discipline_flush_input s))"
    by (rule core_frame_trans [OF core_frame_flush_input core_frame_output_flush])
  have sig: "core_frame s' (tty_queue_signal (if e then echo s' b else s') n)" for e n s'
    using core_frame_trans [OF core_frame_echo core_frame_queue_signal] by (cases e) (simp_all only: if_True if_False core_frame_queue_signal)
  have "core_frame s (tty_queue_signal (if e then echo (if c then tty_output_flush (tty_discipline_flush_input s) else s) b
      else (if c then tty_output_flush (tty_discipline_flush_input s) else s)) n)" for c e n
    using sig [of s e n] core_frame_trans [OF flush sig, of e n] by (cases c) (simp_all only: if_True if_False)
  then show ?thesis
    unfolding signal_character_def Let_def
    by (simp only: if_distrib [of snd] if_distrib [of "core_frame s"] snd_conv core_frame_refl if_cancel)
qed

lemma core_frame_canonical [simp, intro]: "core_frame s (receive_canonical s b)"
proof -
  have put: "core_frame s (put_data (s\<lparr>escaped := e\<rparr>) c)" and esc: "core_frame s (echo (s\<lparr>escaped := e\<rparr>) c)" for e c
    by (rule core_frame_before [OF core_frame_put_data], simp add: same_core_def,
        rule core_frame_before [OF core_frame_echo], simp add: same_core_def)
  have flags: "core_frame s (s\<lparr>escaped := e\<rparr>)" "core_frame s (s\<lparr>literal_next := e\<rparr>)" for e
    by (simp_all add: core_frame_def)
  show ?thesis
    unfolding receive_canonical_def Let_def
    by (simp only: if_distrib [of "core_frame s"] put esc flags core_frame_erase core_frame_kill_line
        core_frame_erase_word core_frame_reprint core_frame_end_line core_frame_put_data if_cancel cong: if_cong)
qed

lemma core_frame_byte [simp, intro]: "core_frame s (receive_byte s b)"
proof -
  define c where "c = (if has (c_iflag (termios s)) ISTRIP then b AND 0x7F else b)"
  obtain f u where fu: "flow_control s c = (f, u)" by fastforce
  obtain g v where gv: "signal_character u c = (g, v)" by fastforce
  have u: "core_frame s u" using core_frame_flow_control [of s c] fu by simp
  have "core_frame u v" using core_frame_signal_character [of u c] gv by simp
  with u have v: "core_frame s v" by (rule core_frame_trans)
  have put: "core_frame s (put_data (s\<lparr>literal_next := e\<rparr>) d)" for e d
    by (rule core_frame_before [OF core_frame_put_data]) (simp add: same_core_def)
  show ?thesis
    unfolding receive_byte_def Let_def c_def [symmetric] fu prod.case gv
    by (cases f; cases g) (simp_all add: put u v core_frame_trans [OF v])
qed

lemma core_frame_receive [simp, intro]: "core_frame s (tty_discipline_receive s b err)"
proof -
  have brk: "core_frame s (receive_break s)"
    unfolding receive_break_def Let_def
    using core_frame_trans [OF core_frame_trans [OF core_frame_flush_input core_frame_output_flush] core_frame_queue_signal] by simp
  have "core_frame s (receive_bad_byte s b)" by (simp add: receive_bad_byte_def Let_def)
  with brk show ?thesis
    unfolding tty_discipline_receive_def by (intro core_frame_trans [OF _ core_frame_update_input_flow]) simp
qed

lemma core_frame_read_loop: "core_frame s (snd (snd (read_loop canonical n copied s)))"
proof (induction canonical n copied s rule: read_loop.induct)
  case (1 canonical n copied s)
  obtain byte ring where t: "tty_ring_take (input_ring s) = (byte, ring)" by fastforce
  have r: "core_frame s (s\<lparr>input_ring := ring\<rparr>)" by (simp add: core_frame_def)
  show ?case
    using 1 [OF _ refl t [symmetric] refl refl] r
    by (subst read_loop.simps) (auto simp: t Let_def intro: core_frame_trans [OF r])
qed

lemma core_frame_read [simp, intro]: "core_frame s (snd (snd (tty_discipline_read s n)))"
  using core_frame_read_loop [of s "has (c_lflag (termios s)) ICANON" n "[]"] core_frame_trans [OF _ core_frame_update_input_flow]
  unfolding tty_discipline_read_def by (auto split: prod.split)

lemma core_frame_set_termios: "core_frame s (tty_discipline_set_termios (s\<lparr>termios := t\<rparr>) old)"
  unfolding tty_discipline_set_termios_def
  by (rule core_frame_before [OF core_frame_update_input_flow]) (simp add: same_core_def)

end
