(* ===== verification/Tty_Safety.thy ===== *)
theory Tty_Safety
  imports Tty_Frame
begin

text \<open>
  The terminal as a whole: the bytes of the driver reach the line editor in order and with their
  line errors, output leaves in order, and every operation of the core keeps the state
  well formed.
\<close>

subsection \<open>The ring the driver fills\<close>

definition flip_mark :: "tty \<Rightarrow> nat \<Rightarrow> bool" where
  "flip_mark s i = bitmap_isset (flip_errors s) (ring_slot (head (flip_ring s) + of_nat i))"

definition flip_cells :: "tty \<Rightarrow> (u8 \<times> bool) list" where
  "flip_cells s =
     map (\<lambda>i. (tty_ring_at (flip_ring s) (head (flip_ring s) + of_nat i), flip_mark s i))
       [0..<unat (tail (flip_ring s) - head (flip_ring s))]"

text \<open>A marked cell is the error of the byte behind it.\<close>

fun flip_items :: "(u8 \<times> bool) list \<Rightarrow> (u8 \<times> tty_error) list option" where
  "flip_items [] = Some []"
| "flip_items ((b, False) # cs) = map_option (\<lambda>xs. (b, TTY_ERROR_NONE) # xs) (flip_items cs)"
| "flip_items ((e, True) # (b, False) # cs) = map_option (\<lambda>xs. (b, error_of_code e) # xs) (flip_items cs)"
| "flip_items _ = None"

definition flip_base :: "tty \<Rightarrow> bool" where
  "flip_base s \<longleftrightarrow> ring_ok (flip_ring s) \<and> length (flip_errors s) = 128 \<and>
     (\<forall>i. length (flip_cells s) \<le> i \<and> i < 4096 \<longrightarrow> \<not> flip_mark s i)"

definition flip_inv :: "tty \<Rightarrow> bool" where
  "flip_inv s \<longleftrightarrow> flip_base s \<and> flip_items (flip_cells s) \<noteq> None"

text \<open>The bytes and errors on their way to the discipline.\<close>

definition incoming :: "tty \<Rightarrow> (u8 \<times> tty_error) list" where
  "incoming s = (case flip_items (flip_cells s) of Some xs \<Rightarrow> xs | None \<Rightarrow> [])"

lemma flip_items_append:
  "flip_items cs = Some xs \<Longrightarrow> flip_items (cs @ ds) = map_option (\<lambda>ys. xs @ ys) (flip_items ds)"
proof (induction cs arbitrary: xs rule: flip_items.induct)
  case 1
  then show ?case by (simp add: option.map_ident)
qed (cases "flip_items ds"; auto)+

lemma length_flip_cells: "length (flip_cells s) = unat (tail (flip_ring s) - head (flip_ring s))"
  by (simp add: flip_cells_def)

lemma flip_baseE:
  assumes "flip_base s"
  obtains n where "n \<le> 4096" "tail (flip_ring s) = head (flip_ring s) + of_nat n" "unat (tail (flip_ring s) - head (flip_ring s)) = n"
    "length (flip_cells s) = n" "\<And>i. n \<le> i \<Longrightarrow> i < 4096 \<Longrightarrow> \<not> flip_mark s i"
proof -
  from assms have ok: "ring_ok (flip_ring s)" by (simp add: flip_base_def)
  from ring_cases [OF ok] obtain n where n: "n \<le> 4096" "tail (flip_ring s) = head (flip_ring s) + of_nat n"
      "unat (tail (flip_ring s) - head (flip_ring s)) = n" by blast
  show thesis
    by (rule that [OF n]) (use assms n(3) in \<open>auto simp: flip_base_def length_flip_cells\<close>)
qed

lemma flip_room:
  assumes "flip_base s"
  shows "unat (tty_ring_room (flip_ring s)) = 4096 - length (flip_cells s)" "length (flip_cells s) \<le> 4096"
proof -
  have ok: "ring_ok (flip_ring s)" using assms by (simp add: flip_base_def)
  show "unat (tty_ring_room (flip_ring s)) = 4096 - length (flip_cells s)"
    unfolding unat_ring_room [OF ok] by (simp add: ring_bytes_def flip_cells_def)
  show "length (flip_cells s) \<le> 4096" using ok by (simp add: ring_ok_def length_flip_cells)
qed

text \<open>Putting a byte, with its cell marked or not.\<close>

lemma flip_put_marked:
  fixes b :: u8
  assumes base: "flip_base s" and room: "length (flip_cells s) < 4096"
    and marks: "length es = 128" "\<And>i. i < 4096 \<Longrightarrow> bitmap_isset es (ring_slot (head (flip_ring s) + of_nat i)) =
      (if i = length (flip_cells s) then m else flip_mark s i)"
  defines "s' \<equiv> flip_put b (s\<lparr>flip_errors := es\<rparr>)"
  shows "flip_cells s' = flip_cells s @ [(b, m)]" "flip_base s'"
proof -
  let ?r = "flip_ring s"
  from base obtain n where n: "n \<le> 4096" "tail ?r = head ?r + of_nat n" "unat (tail ?r - head ?r) = n" "length (flip_cells s) = n"
      and clear: "\<And>i. n \<le> i \<Longrightarrow> i < 4096 \<Longrightarrow> \<not> flip_mark s i" by (rule flip_baseE) blast
  have less: "n < 4096" using room n(4) by simp
  have ok: "ring_ok ?r" using base by (simp add: flip_base_def)
  have f: "flip_ring s' = tty_ring_put ?r b" "flip_errors s' = es" "head (tty_ring_put ?r b) = head ?r"
    by (simp_all add: s'_def flip_put_def tty_ring_put_def)
  have "tail (tty_ring_put ?r b) - head ?r = of_nat (Suc n)" using n(2) by (simp add: tty_ring_put_def)
  then have u: "unat (tail (tty_ring_put ?r b) - head ?r) = Suc n"
    using less by (simp only: unat_of_nat_u32)
  have mark: "flip_mark s' i = (if i = n then m else flip_mark s i)" if "i < 4096" for i
    using marks(2) [OF that] n(4) by (simp add: flip_mark_def f)
  have at: "tty_ring_at (tty_ring_put ?r b) (head ?r + of_nat i) = (if i = n then b else tty_ring_at ?r (head ?r + of_nat i))" if "i \<le> n" for i
    using ok that less n(2) ring_slot_inj [of n i "head ?r"] by (simp add: tty_ring_at_def tty_ring_put_def ring_ok_def nth_list_update)
  show cells: "flip_cells s' = flip_cells s @ [(b, m)]"
    unfolding flip_cells_def f u n(3) using less by (simp add: at mark)
  have "ring_ok (tty_ring_put ?r b)" using ok u less f(3) by (simp add: ring_ok_def tty_ring_put_def)
  then show "flip_base s'"
    unfolding flip_base_def cells using n(4) marks(1) by (auto simp: f mark clear)
qed

lemma slot_bound: "length es = 128 \<Longrightarrow> ring_slot p < 32 * length es" for es :: bitmap
  using ring_slot_less [of p] by simp

lemma flip_put_cells:
  assumes "flip_base s" "length (flip_cells s) < 4096"
  shows "flip_cells (flip_put b s) = flip_cells s @ [(b, False)]" "flip_base (flip_put b s)"
proof -
  have "bitmap_isset (flip_errors s) (ring_slot (head (flip_ring s) + of_nat i)) =
      (if i = length (flip_cells s) then False else flip_mark s i)" if "i < 4096" for i
    using assms that by (auto simp: flip_base_def flip_mark_def)
  then show "flip_cells (flip_put b s) = flip_cells s @ [(b, False)]" "flip_base (flip_put b s)"
    using flip_put_marked [OF assms, of "flip_errors s" False b] assms(1) by (simp_all add: flip_base_def)
qed

lemma flip_put_error:
  fixes e :: u8
  assumes "flip_base s" "length (flip_cells s) < 4096"
  defines "s' \<equiv> flip_put e (s\<lparr>flip_errors := bitmap_set (flip_errors s) (ring_slot (tail (flip_ring s)))\<rparr>)"
  shows "flip_cells s' = flip_cells s @ [(e, True)]" "flip_base s'"
proof -
  let ?n = "length (flip_cells s)" and ?h = "head (flip_ring s)"
  have len: "length (flip_errors s) = 128" using assms(1) by (simp add: flip_base_def)
  have t: "tail (flip_ring s) = ?h + of_nat ?n"
    using position_eq [of "tail (flip_ring s)" ?h] by (simp add: length_flip_cells)
  have "bitmap_isset (bitmap_set (flip_errors s) (ring_slot (tail (flip_ring s)))) (ring_slot (?h + of_nat i)) =
      (if i = ?n then True else flip_mark s i)" if "i < 4096" for i
    unfolding bitmap_isset_set [OF slot_bound [OF len] slot_bound [OF len]] t
    using ring_slot_inj [OF that assms(2)] by (simp add: flip_mark_def)
  then show "flip_cells s' = flip_cells s @ [(e, True)]" "flip_base s'"
    unfolding s'_def using flip_put_marked [OF assms(1,2), of "bitmap_set (flip_errors s) (ring_slot (tail (flip_ring s)))" True e] len
    by simp_all
qed

lemma flip_take_cells:
  assumes base: "flip_base s" and cells: "flip_cells s = (b, False) # cs"
  shows "fst (flip_take s) = b" "flip_cells (snd (flip_take s)) = cs" "flip_base (snd (flip_take s))"
proof -
  let ?r = "flip_ring s" and ?s = "snd (flip_take s)"
  from base obtain n where n: "n \<le> 4096" "tail ?r = head ?r + of_nat n" "unat (tail ?r - head ?r) = n" "length (flip_cells s) = n"
      and clear: "\<And>i. n \<le> i \<Longrightarrow> i < 4096 \<Longrightarrow> \<not> flip_mark s i" by (rule flip_baseE) blast
  obtain m where m: "n = Suc m" using n(4) cells by (cases n) simp_all
  have f: "flip_ring ?s = ?r\<lparr>head := head ?r + 1\<rparr>" "flip_errors ?s = flip_errors s"
    by (simp_all add: flip_take_def tty_ring_take_def)
  have "tail ?r - (head ?r + 1) = of_nat m" using n(2) m by simp
  then have u: "unat (tail ?r - (head ?r + 1)) = m"
    using n(1) m by (simp only: unat_of_nat_u32)
  have split: "[0..<n] = 0 # map Suc [0..<m]" using m by (simp add: upt_conv_Cons map_Suc_upt)
  have old: "(tty_ring_at ?r (head ?r), flip_mark s 0) = (b, False)"
      "map (\<lambda>i. (tty_ring_at ?r (head ?r + 1 + of_nat i), flip_mark s (Suc i))) [0..<m] = cs"
    using cells unfolding flip_cells_def n(3) split by (simp_all add: comp_def add.assoc)
  have mark: "flip_mark ?s i = flip_mark s (Suc i)" for i
    by (simp add: flip_mark_def f add.assoc)
  show "fst (flip_take s) = b" using old(1) by (simp add: flip_take_def tty_ring_take_def tty_ring_at_def)
  show c: "flip_cells ?s = cs"
    unfolding old(2) [symmetric] flip_cells_def f by (simp add: u mark tty_ring_at_def)
  have "ring_ok (flip_ring ?s)" "length (flip_errors ?s) = 128"
    using base n(1) m u by (simp_all add: flip_base_def f ring_ok_def)
  moreover have "\<not> flip_mark ?s i" if "m \<le> i" "i < 4096" for i
  proof (cases "i = 4095")
    case True
    have "ring_slot (head ?r + of_nat 4096) = ring_slot (head ?r + of_nat 0)"
      unfolding ring_slot_add using ring_slot_less [of "head ?r"] by simp
    then have "flip_mark s 4096 = flip_mark s 0" by (simp only: flip_mark_def)
    then show ?thesis using True old(1) by (simp add: mark)
  next
    case False
    then show ?thesis using that clear [of "Suc i"] m by (simp add: mark)
  qed
  moreover have "length cs = m" using n(4) m cells by simp
  ultimately show "flip_base ?s"
    unfolding flip_base_def c by simp
qed

lemma flip_clear_mark:
  assumes base: "flip_base s" and cells: "flip_cells s = (e, True) # cs"
  defines "s' \<equiv> s\<lparr>flip_errors := bitmap_clear (flip_errors s) (ring_slot (head (flip_ring s)))\<rparr>"
  shows "flip_cells s' = (e, False) # cs" "flip_base s'"
proof -
  let ?r = "flip_ring s"
  from base obtain n where n: "n \<le> 4096" "tail ?r = head ?r + of_nat n" "unat (tail ?r - head ?r) = n" "length (flip_cells s) = n"
      and clear: "\<And>i. n \<le> i \<Longrightarrow> i < 4096 \<Longrightarrow> \<not> flip_mark s i" by (rule flip_baseE) blast
  obtain m where m: "n = Suc m" using n(4) cells by (cases n) simp_all
  have len: "length (flip_errors s) = 128" using base by (simp add: flip_base_def)
  have mark: "flip_mark s' i = (i \<noteq> 0 \<and> flip_mark s i)" if "i < 4096" for i
    unfolding flip_mark_def s'_def using bitmap_isset_clear [OF slot_bound [OF len] slot_bound [OF len]]
      ring_slot_inj [OF that, of 0 "head ?r"] by simp
  have split: "[0..<n] = 0 # map Suc [0..<m]" using m by (simp add: upt_conv_Cons map_Suc_upt)
  have f: "flip_ring s' = ?r" by (simp add: s'_def)
  have e: "map (\<lambda>i. (tty_ring_at ?r (head ?r + of_nat i), flip_mark s' i)) (map Suc [0..<m]) =
      map (\<lambda>i. (tty_ring_at ?r (head ?r + of_nat i), flip_mark s i)) (map Suc [0..<m])"
    using n(1) m by (simp add: mark)
  show c: "flip_cells s' = (e, False) # cs"
    using cells unfolding flip_cells_def f n(3) split by (simp add: mark e del: map_map)
  show "flip_base s'"
    using base n(4) cells clear unfolding flip_base_def c f by (auto simp: mark) (simp add: s'_def)
qed

text \<open>The operations of the driver's side on the bytes on their way.\<close>

lemma incoming_append:
  assumes "flip_inv s" "flip_base s'" "flip_cells s' = flip_cells s @ cs" "flip_items cs = Some xs"
  shows "flip_inv s'" "incoming s' = incoming s @ xs"
  using assms by (auto simp: flip_inv_def incoming_def flip_items_append)

lemma flip_put_incoming:
  assumes inv: "flip_inv s" and room: "tty_ring_room (flip_ring s) \<noteq> 0"
  shows "flip_inv (flip_put b s)" "incoming (flip_put b s) = incoming s @ [(b, TTY_ERROR_NONE)]"
    "unat (tty_ring_room (flip_ring (flip_put b s))) = unat (tty_ring_room (flip_ring s)) - 1"
proof -
  have base: "flip_base s" using inv by (simp add: flip_inv_def)
  have less: "length (flip_cells s) < 4096" using flip_room [OF base] room by (simp add: unat_gt_0 [symmetric] del: unat_gt_0)
  note put = flip_put_cells [OF base less, of b]
  show "flip_inv (flip_put b s)" "incoming (flip_put b s) = incoming s @ [(b, TTY_ERROR_NONE)]"
    using incoming_append [OF inv put(2,1)] by simp_all
  show "unat (tty_ring_room (flip_ring (flip_put b s))) = unat (tty_ring_room (flip_ring s)) - 1"
    unfolding flip_room(1) [OF base] flip_room(1) [OF put(2)] put(1) by simp
qed

lemma flip_put_frame [simp]:
  "same_lines s (flip_put b s)" "output_ring (flip_put b s) = output_ring s" "lost (flip_put b s) = lost s"
  by (simp_all add: flip_put_def same_lines_def)

lemma flip_lost [simp]:
  "flip_inv (s\<lparr>lost := n\<rparr>) = flip_inv s" "incoming (s\<lparr>lost := n\<rparr>) = incoming s"
  by (simp_all add: flip_inv_def flip_base_def incoming_def flip_cells_def flip_mark_def)

lemma tty_receive_incoming:
  "flip_inv s \<Longrightarrow> flip_inv (tty_receive bs s) \<and>
    incoming (tty_receive bs s) = incoming s @ map (\<lambda>b. (b, TTY_ERROR_NONE)) (take (unat (tty_ring_room (flip_ring s))) bs) \<and>
    lost (tty_receive bs s) = lost s + of_nat (length bs - unat (tty_ring_room (flip_ring s)))"
proof (induction bs arbitrary: s)
  case Nil
  then show ?case by simp
next
  case (Cons b bs)
  show ?case
  proof (cases "tty_ring_room (flip_ring s) = 0")
    case True
    then show ?thesis using Cons.prems by simp
  next
    case False
    note put = flip_put_incoming [OF Cons.prems False, of b]
    obtain n where n: "unat (tty_ring_room (flip_ring s)) = Suc n"
      using False by (metis not0_implies_Suc unat_eq_zero)
    then show ?thesis using Cons.IH [OF put(1)] put(2,3) False by simp
  qed
qed

lemma error_of_code [simp]: "error_of_code (error_code err) = err"
  by (cases err) (simp_all add: error_code_def error_of_code_def)

lemma tty_receive_error_incoming:
  assumes inv: "flip_inv s"
  shows "flip_inv (tty_receive_error b err s)"
    "incoming (tty_receive_error b err s) = incoming s @
      (if err = TTY_ERROR_OVERRUN then if tty_ring_room (flip_ring s) \<noteq> 0 then [(b, TTY_ERROR_NONE)] else []
       else if 2 \<le> tty_ring_room (flip_ring s) then [(b, err)] else [])"
proof -
  let ?s = "flip_put (error_code err) (s\<lparr>flip_errors := bitmap_set (flip_errors s) (ring_slot (tail (flip_ring s)))\<rparr>)"
  have base: "flip_base s" using inv by (simp add: flip_inv_def)
  have two: "flip_inv (flip_put b ?s) \<and> incoming (flip_put b ?s) = incoming s @ [(b, err)]" if "2 \<le> tty_ring_room (flip_ring s)"
  proof -
    have "length (flip_cells s) + 2 \<le> 4096"
      using that flip_room [OF base] by (simp add: word_le_nat_alt)
    note put = flip_put_error [OF base, of "error_code err"]
    have less: "length (flip_cells s) < 4096" "length (flip_cells s) + 1 < 4096" using \<open>length (flip_cells s) + 2 \<le> 4096\<close> by simp_all
    have c: "flip_cells ?s = flip_cells s @ [(error_code err, True)]" and b: "flip_base ?s"
      using put [OF less(1)] by simp_all
    have "length (flip_cells ?s) < 4096" using c less by simp
    note put2 = flip_put_cells [OF b this]
    show ?thesis
      using incoming_append [OF inv put2(2)] c put2(1) by simp
  qed
  have lost: "flip_ring (s\<lparr>lost := n\<rparr>) = flip_ring s" for n by simp
  have one: "flip_inv (flip_put b (s\<lparr>lost := n\<rparr>))" "incoming (flip_put b (s\<lparr>lost := n\<rparr>)) = incoming s @ [(b, TTY_ERROR_NONE)]"
      if "tty_ring_room (flip_ring s) \<noteq> 0" for n
    using flip_put_incoming [of "s\<lparr>lost := n\<rparr>" b] inv that by simp_all
  show "flip_inv (tty_receive_error b err s)"
    using inv two one unfolding tty_receive_error_def Let_def by simp
  show "incoming (tty_receive_error b err s) = incoming s @
      (if err = TTY_ERROR_OVERRUN then if tty_ring_room (flip_ring s) \<noteq> 0 then [(b, TTY_ERROR_NONE)] else []
       else if 2 \<le> tty_ring_room (flip_ring s) then [(b, err)] else [])"
    using inv two one unfolding tty_receive_error_def Let_def by simp
qed

subsection \<open>The worker\<close>

definition tty_inv :: "tty \<Rightarrow> bool" where
  "tty_inv s \<longleftrightarrow> input_inv s \<and> flip_inv s \<and> ring_ok (output_ring s)"

lemma tty_invD: "tty_inv s \<Longrightarrow> input_inv s" "tty_inv s \<Longrightarrow> flip_inv s" "tty_inv s \<Longrightarrow> ring_ok (output_ring s)"
  by (simp_all add: tty_inv_def)

lemma flip_fields:
  assumes "flip_ring s' = flip_ring s" "flip_errors s' = flip_errors s"
  shows "flip_inv s' = flip_inv s" "incoming s' = incoming s" "flip_cells s' = flip_cells s"
proof -
  have c: "flip_cells s' = flip_cells s" and m: "flip_mark s' = flip_mark s"
    using assms by (simp_all add: flip_cells_def flip_mark_def fun_eq_iff)
  show "flip_inv s' = flip_inv s" "incoming s' = incoming s" "flip_cells s' = flip_cells s"
    using assms by (simp_all add: flip_inv_def flip_base_def incoming_def c m)
qed

text \<open>Taking the next byte with its error off the ring.\<close>

lemma flip_next:
  assumes base: "flip_base s" and items: "flip_items (flip_cells s) = Some ((b, err) # xs)"
  obtains s' where "process_byte s = tty_discipline_receive s' b err" "flip_base s'" "flip_items (flip_cells s') = Some xs"
    "same_lines s s'" "output_ring s' = output_ring s" "lost s' = lost s"
proof -
  have mark: "flip_mark s 0 = bitmap_isset (flip_errors s) (ring_slot (head (flip_ring s)))" by (simp add: flip_mark_def)
  have first: "flip_mark s 0 = snd (hd (flip_cells s))" if "flip_cells s \<noteq> []"
    using that by (simp add: flip_cells_def hd_map)
  have frame: "same_lines u (snd (flip_take u))" "output_ring (snd (flip_take u)) = output_ring u" "lost (snd (flip_take u)) = lost u" for u
    by (simp_all add: flip_take_def tty_ring_take_def same_lines_def)
  show thesis
  proof (cases "flip_cells s" rule: flip_items.cases)
    case (2 b' cs)
    then have b: "b' = b" "err = TTY_ERROR_NONE" "flip_items cs = Some xs" using items by auto
    note t = flip_take_cells [OF base 2]
    have "process_byte s = tty_discipline_receive (snd (flip_take s)) b err"
      using first mark 2 b t(1) by (simp add: process_byte_def take_error_mark_def Let_def error_of_code_def case_prod_unfold)
    then show thesis using that t b(3) frame by metis
  next
    case (3 e b' cs)
    then have b: "b' = b" "err = error_of_code e" "flip_items cs = Some xs" using items by auto
    let ?s = "s\<lparr>flip_errors := bitmap_clear (flip_errors s) (ring_slot (head (flip_ring s)))\<rparr>"
    note c = flip_clear_mark [OF base 3]
    note t = flip_take_cells [OF c(2,1)]
    note u = flip_take_cells [OF t(3,2)]
    have same: "same_lines s ?s" by (simp add: same_lines_def)
    have "process_byte s = tty_discipline_receive (snd (flip_take (snd (flip_take ?s)))) b err"
      using first mark 3 b t(1) u(1) by (simp add: process_byte_def take_error_mark_def Let_def case_prod_unfold)
    then show thesis
      using that [OF _ u(3)] u(2) b(3) same_lines_trans [OF same same_lines_trans [OF frame(1) frame(1)]] frame by simp
  qed (use items in simp_all)
qed

definition line_process :: "termios \<Rightarrow> (u8 \<times> tty_error) list \<Rightarrow> line_state \<Rightarrow> line_state" where
  "line_process t xs a = fold (\<lambda>(b, err). line_receive t b err) xs a"

lemma process_byte_next:
  assumes inv: "tty_inv s" and items: "incoming s = (b, err) # xs"
  shows "tty_inv (process_byte s)" "incoming (process_byte s) = xs" "lines_of (process_byte s) = line_receive (termios s) b err (lines_of s)"
    "termios (process_byte s) = termios s"
proof -
  have base: "flip_base s" and i: "flip_items (flip_cells s) = Some ((b, err) # xs)"
    using inv items by (auto simp: tty_inv_def flip_inv_def incoming_def)
  obtain s' where s': "process_byte s = tty_discipline_receive s' b err" "flip_base s'" "flip_items (flip_cells s') = Some xs"
      "same_lines s s'" "output_ring s' = output_ring s" "lost s' = lost s"
    by (rule flip_next [OF base i])
  note same = same_linesD [OF s'(4)]
  have input: "input_inv s'" using inv same by (simp add: tty_inv_def)
  note r = refinesD [OF refines_receive [OF input, of b err]]
  note f = core_frameD [OF core_frame_receive [of s' b err]]
  show "tty_inv (process_byte s)" "incoming (process_byte s) = xs"
    using inv s' r f(4) flip_fields [OF f(1,2)] by (simp_all add: tty_inv_def flip_inv_def incoming_def)
  show "lines_of (process_byte s) = line_receive (termios s) b err (lines_of s)" "termios (process_byte s) = termios s"
    using r same s'(1) by simp_all
qed

lemma used_incoming: "flip_inv s \<Longrightarrow> tty_ring_used (flip_ring s) = 0 \<longleftrightarrow> incoming s = []"
proof -
  assume inv: "flip_inv s"
  have "tty_ring_used (flip_ring s) = 0 \<longleftrightarrow> unat (tail (flip_ring s) - head (flip_ring s)) = 0"
    unfolding tty_ring_used_def by (rule unat_eq_zero [symmetric])
  also have "\<dots> \<longleftrightarrow> flip_cells s = []" by (simp only: length_flip_cells [symmetric] length_0_conv)
  also have "\<dots> \<longleftrightarrow> incoming s = []"
    using inv unfolding flip_inv_def incoming_def by (cases "flip_cells s" rule: flip_items.cases) auto
  finally show ?thesis .
qed

text \<open>
  A worker that takes one item after the other off a queue and feeds it to an editor, as long as a state is
  well formed.
\<close>

locale worker =
  fixes ok :: "'s \<Rightarrow> bool"
    and settings :: "'s \<Rightarrow> 't"
    and content :: "'s \<Rightarrow> 'a"
    and queue :: "'s \<Rightarrow> 'i list"
    and advance :: "'s \<Rightarrow> 's"
    and feed :: "'t \<Rightarrow> 'i \<Rightarrow> 'a \<Rightarrow> 'a"
  assumes advance: "ok s \<Longrightarrow> queue s = x # xs \<Longrightarrow>
      ok (advance s) \<and> settings (advance s) = settings s \<and> queue (advance s) = xs \<and> content (advance s) = feed (settings s) x (content s)"
begin

lemma rounds:
  "ok s \<Longrightarrow> k \<le> length (queue s) \<Longrightarrow>
    ok ((advance ^^ k) s) \<and> settings ((advance ^^ k) s) = settings s \<and> queue ((advance ^^ k) s) = drop k (queue s) \<and>
    content ((advance ^^ k) s) = fold (feed (settings s)) (take k (queue s)) (content s)"
proof (induction k)
  case (Suc k)
  then have "queue ((advance ^^ k) s) = queue s ! k # drop (Suc k) (queue s)"
    by (simp add: Cons_nth_drop_Suc)
  then show ?case
    using Suc advance [of "(advance ^^ k) s"] by (simp add: take_Suc_conv_app_nth)
qed simp

end

interpretation wk: worker tty_inv termios lines_of incoming process_byte "\<lambda>t (b, err). line_receive t b err"
  by unfold_locales (auto simp: process_byte_next simp del: lines_of_simps)

lemma process_flip_rounds:
  assumes "tty_inv s" "k \<le> length (incoming s)"
  shows "process_flip s = process_flip ((process_byte ^^ k) s)"
    "tty_ring_used (flip_ring ((process_byte ^^ k) s)) = 0 \<longleftrightarrow> k = length (incoming s)"
proof -
  have used: "tty_ring_used (flip_ring ((process_byte ^^ k) s)) = 0 \<longleftrightarrow> k = length (incoming s)" if "k \<le> length (incoming s)" for k
    using wk.rounds [OF assms(1) that] used_incoming [of "(process_byte ^^ k) s"] that by (auto simp: tty_inv_def)
  then show "tty_ring_used (flip_ring ((process_byte ^^ k) s)) = 0 \<longleftrightarrow> k = length (incoming s)" using assms(2) .
  show "process_flip s = process_flip ((process_byte ^^ k) s)"
    using assms(2)
  proof (induction k)
    case (Suc k)
    then have "process_flip ((process_byte ^^ k) s) = process_flip ((process_byte ^^ Suc k) s)"
      using used [of k] by (subst process_flip.simps) simp
    then show ?case using Suc by simp
  qed simp
qed

lemma process_flip_ends: "tty_inv s \<Longrightarrow> process_flip s = Some ((process_byte ^^ length (incoming s)) s)"
  using process_flip_rounds [OF _ le_refl, of s] process_flip.simps [of "(process_byte ^^ length (incoming s)) s"] by simp

lemma process_flip_total:
  assumes "tty_inv s"
  shows "\<exists>s'. process_flip s = Some s' \<and> tty_inv s' \<and> incoming s' = [] \<and> termios s' = termios s \<and>
    lines_of s' = line_process (termios s) (incoming s) (lines_of s)"
  using process_flip_ends [OF assms] wk.rounds [OF assms le_refl] by (simp add: line_process_def del: lines_of_simps)

subsection \<open>The invariant\<close>

lemma tty_inv_frame:
  assumes "core_frame s s'" "flip_inv s" "ring_ok (output_ring s)" "input_inv s'"
  shows "tty_inv s'"
  using assms flip_fields [OF core_frameD(1,2) [OF assms(1)]] core_frameD(4) [OF assms(1)] by (simp add: tty_inv_def)

lemma same_lines_receive: "same_lines s (tty_receive bs s) \<and> output_ring (tty_receive bs s) = output_ring s"
proof (induction bs arbitrary: s)
  case (Cons b bs)
  have "same_lines s (s\<lparr>lost := n\<rparr>)" for n by (simp add: same_lines_def)
  then show ?case using Cons.IH [of "flip_put b s"] same_lines_trans [OF flip_put_frame(1) [of s b]] by simp
qed simp

lemma tty_inv_receive: "tty_inv s \<Longrightarrow> tty_inv (tty_receive bs s)"
  using tty_receive_incoming [of s bs] same_linesD(2) [of s "tty_receive bs s"] same_lines_receive [of s bs]
  by (simp add: tty_inv_def)

lemma tty_inv_receive_error:
  assumes "tty_inv s"
  shows "tty_inv (tty_receive_error b err s)"
proof -
  have "same_lines s (tty_receive_error b err s) \<and> output_ring (tty_receive_error b err s) = output_ring s"
    by (simp add: tty_receive_error_def Let_def flip_put_def same_lines_def)
  then show ?thesis
    using assms tty_receive_error_incoming(1) same_linesD(2) by (auto simp: tty_inv_def)
qed

lemma take_output_bytes:
  "ring_ok (output_ring s) \<Longrightarrow>
    fst (take_output n s) = take n (ring_bytes (output_ring s)) \<and> ring_ok (output_ring (snd (take_output n s))) \<and>
    ring_bytes (output_ring (snd (take_output n s))) = drop n (ring_bytes (output_ring s)) \<and>
    same_lines s (snd (take_output n s)) \<and> flip_ring (snd (take_output n s)) = flip_ring s \<and>
    flip_errors (snd (take_output n s)) = flip_errors s \<and> xchar (snd (take_output n s)) = xchar s \<and>
    output_stopped (snd (take_output n s)) = output_stopped s"
proof (induction n arbitrary: s)
  case 0
  then show ?case by simp
next
  case (Suc n)
  let ?r = "output_ring s"
  show ?case
  proof (cases "ring_bytes ?r")
    case Nil
    then have "tty_ring_used ?r = 0" using ring_used_bytes [of ?r] by (simp add: unat_eq_zero)
    then show ?thesis using Nil Suc.prems by simp
  next
    case (Cons b bs)
    then have "unat (tty_ring_used ?r) \<noteq> 0" using ring_used_bytes [of ?r] by simp
    then have "tty_ring_used ?r \<noteq> 0" by auto
    moreover have "ring_bytes ?r \<noteq> []" using Cons by simp
    note t = ring_bytes_take [OF Suc.prems this]
    moreover have "same_lines s (s\<lparr>output_ring := snd (tty_ring_take ?r)\<rparr>)" by (simp add: same_lines_def)
    note same = same_lines_trans [OF this]
    ultimately show ?thesis
      using Suc.IH [of "s\<lparr>output_ring := snd (tty_ring_take ?r)\<rparr>"] t Cons
      by (simp add: case_prod_unfold same)
  qed
qed

lemma tty_inv_transmit:
  assumes "tty_inv s"
  shows "tty_inv (snd (tty_transmit_take n s))"
proof -
  let ?s = "if xchar s \<noteq> 0 \<and> n \<noteq> 0 then s\<lparr>xchar := 0\<rparr> else s"
  have inv: "tty_inv ?s"
    using assms same_linesD(2) [of s ?s] flip_fields(1) [of ?s s] by (simp add: tty_inv_def same_lines_def)
  note t = take_output_bytes [OF tty_invD(3) [OF inv]]
  have "tty_inv (snd (take_output m ?s))" for m
    using inv t [of m] same_linesD(2) [of ?s "snd (take_output m ?s)"] flip_fields(1) [of "snd (take_output m ?s)" ?s]
    by (simp add: tty_inv_def)
  then show ?thesis
    using inv by (auto simp: tty_transmit_take_def case_prod_unfold)
qed

lemma read_lines:
  assumes "input_inv s"
  shows "case (tty_discipline_read s n, line_read (has (c_lflag (termios s)) ICANON) n (ready (lines_of s))) of
    ((bs, eof, s'), (ls, leof, q)) \<Rightarrow> bs = ls \<and> eof = leof \<and> input_inv s' \<and> lines_of s' = (lines_of s)\<lparr>ready := q\<rparr> \<and> termios s' = termios s"
  using read_loop_lines [OF assms, where canonical = "has (c_lflag (termios s)) ICANON" and n = n and copied = "[]"] same_linesD [OF same_lines_update_input_flow]
  by (auto simp: tty_discipline_read_def split: prod.splits)

lemma tty_inv_read: "tty_inv s \<Longrightarrow> tty_inv (snd (snd (tty_discipline_read s n)))"
  by (rule tty_inv_frame [OF core_frame_read]) (use read_lines [of s n] in \<open>auto simp: tty_inv_def split: prod.splits\<close>)

lemma output_lines: "same_lines s (snd (tty_discipline_output s b))"
  by (rule same_lines_echo) (simp flip: output_or_drop_def)

lemma write_bytes_frame: "core_frame s (snd (write_bytes bs s)) \<and> same_lines s (snd (write_bytes bs s))"
proof (induction bs arbitrary: s)
  case (Cons b bs)
  obtain f s' where o: "tty_discipline_output s b = (f, s')" by fastforce
  then have "core_frame s s'" "same_lines s s'" using core_frame_output [of s b] output_lines [of s b] by simp_all
  then show ?case using Cons [of s'] core_frame_trans same_lines_trans o by (cases f) (auto intro: core_frame_trans same_lines_trans)
qed simp

lemma tty_inv_write: "tty_inv s \<Longrightarrow> tty_inv (snd (write_bytes bs s))"
  by (rule tty_inv_frame [OF conjunct1 [OF write_bytes_frame]])
     (use same_linesD(2) [OF conjunct2 [OF write_bytes_frame]] in \<open>simp_all add: tty_inv_def\<close>)

lemma flip_discard: "ring_ok (flip_ring s) \<Longrightarrow> flip_inv (discard_flip_locked s) \<and> incoming (discard_flip_locked s) = []"
proof -
  assume ok: "ring_ok (flip_ring s)"
  have none: "\<not> bitmap_isset (replicate 128 0) (ring_slot p)" for p
    using ring_slot_less [of p] by (simp add: bitmap_isset_def Let_def nth_replicate less_mult_imp_div_less)
  have c: "flip_cells (discard_flip_locked s) = []" by (simp add: flip_cells_def discard_flip_locked_def)
  show ?thesis
    using ok ring_bytes_flush(1) [OF ok] none by (simp add: flip_inv_def flip_base_def incoming_def c flip_mark_def) (simp add: discard_flip_locked_def)
qed

lemma discard_flip_frame [simp]: "same_lines s (discard_flip_locked s)" "output_ring (discard_flip_locked s) = output_ring s"
  by (simp_all add: discard_flip_locked_def same_lines_def)

lemma tty_inv_discard: "tty_inv s \<Longrightarrow> tty_inv (discard_flip_locked s)"
  using flip_discard [of s] same_linesD(2) [OF discard_flip_frame(1) [of s]] by (simp add: tty_inv_def flip_inv_def flip_base_def)

lemma tty_inv_flush_input: "tty_inv s \<Longrightarrow> tty_inv (tty_discipline_flush_input s)"
  by (rule tty_inv_frame [OF core_frame_flush_input]) (use refinesD [OF refines_flush_input] in \<open>auto simp: tty_inv_def\<close>)

lemma tty_inv_set_termios:
  assumes "tty_inv s"
  shows "tty_inv (snd (set_termios request waited accepted t s))"
proof -
  have "tty_inv (tty_discipline_set_termios (s\<lparr>termios := t\<rparr>) (termios s))"
    by (rule tty_inv_frame [OF core_frame_set_termios]) (use assms refines_set_termios [of s t] in \<open>auto simp: tty_inv_def\<close>)
  then show ?thesis
    using assms by (simp add: set_termios_def change_termios_def Let_def tty_inv_flush_input tty_inv_discard)
qed

lemma tty_inv_output_flush: "tty_inv s \<Longrightarrow> tty_inv (tty_output_flush s)"
  by (rule tty_inv_frame [OF core_frame_output_flush]) (use same_linesD(2) [OF same_lines_output(1)] in \<open>auto simp: tty_inv_def\<close>)

lemma tty_inv_flush_queues: "tty_inv s \<Longrightarrow> tty_inv (snd (flush_queues queue s))"
  by (simp add: flush_queues_def Let_def tty_inv_flush_input tty_inv_discard tty_inv_output_flush)

lemma tty_inv_control_flow:
  assumes "tty_inv s"
  shows "tty_inv (snd (control_flow action s))"
proof -
  have frame: "core_frame s (snd (control_flow action s))" and same: "same_lines s (snd (control_flow action s))"
    by (simp_all add: control_flow_def Let_def core_frame_def same_lines_def tty_output_set_stopped_def tty_output_put_ahead_def)
  show ?thesis
    by (rule tty_inv_frame [OF frame]) (use assms same_linesD(2) [OF same] in \<open>simp_all add: tty_inv_def\<close>)
qed

lemma tty_inv_reset:
  assumes "tty_inv s"
  shows "tty_inv (reset_rings_locked s)"
proof -
  have ok: "ring_ok (flip_ring s)" "ring_ok (output_ring s)" "length (data (input_ring s)) = 4096"
    using assms by (simp_all add: tty_inv_def flip_inv_def flip_base_def input_inv_def lines_inv_def ring_ok_def)
  let ?s = "(discard_flip_locked s)\<lparr>output_ring := (output_ring s)\<lparr>head := tail (output_ring s)\<rparr>, xchar := 0, output_stopped := False, signals := 0\<rparr>"
  have r: "reset_rings_locked s = tty_discipline_reset ?s" by (simp add: reset_rings_locked_def Let_def)
  have f: "flip_ring (tty_discipline_reset u) = flip_ring u" "flip_errors (tty_discipline_reset u) = flip_errors u"
      "output_ring (tty_discipline_reset u) = output_ring u" for u
    by (simp_all add: tty_discipline_reset_def zero_discipline_def Let_def)
  have "input_ring ?s = input_ring s" by (simp add: discard_flip_locked_def)
  then have "input_inv (tty_discipline_reset ?s)" using ok(3) by (intro reset_lines) simp
  moreover have "flip_inv (tty_discipline_reset ?s)"
    using flip_fields(1) [of "tty_discipline_reset ?s" "discard_flip_locked s"] flip_discard [OF ok(1)] by (simp add: f)
  ultimately show ?thesis
    unfolding r tty_inv_def using ring_bytes_flush(1) [OF ok(2)] by (simp add: f)
qed

lemma tty_inv_process: "tty_inv s \<Longrightarrow> process_input s = Some (sent, woken, notice, s') \<Longrightarrow> tty_inv s'"
proof -
  assume inv: "tty_inv s" and p: "process_input s = Some (sent, woken, notice, s')"
  obtain u where u: "process_flip s = Some u" "tty_inv u" using process_flip_total [OF inv] by blast
  then have "s' = u\<lparr>signals := 0\<rparr>" using p by (simp add: process_input_def Let_def)
  then show "tty_inv s'"
    using u(2) same_linesD(2) [of u "u\<lparr>signals := 0\<rparr>"] flip_fields(1) [of "u\<lparr>signals := 0\<rparr>" u] by (simp add: tty_inv_def same_lines_def)
qed

text \<open>Every operation that holds the device's lock, as a step of the terminal.\<close>

inductive tty_step :: "tty \<Rightarrow> tty \<Rightarrow> bool" where
  step_receive: "tty_step s (tty_receive bs s)"
| step_receive_error: "tty_step s (tty_receive_error b err s)"
| step_process: "process_input s = Some (sent, woken, notice, s') \<Longrightarrow> tty_step s s'"
| step_transmit: "tty_step s (snd (tty_transmit_take n s))"
| step_read: "tty_step s (snd (snd (tty_discipline_read s n)))"
| step_write: "tty_step s (snd (write_bytes bs s))"
| step_set_termios: "tty_step s (snd (set_termios request waited accepted t s))"
| step_flush_queues: "tty_step s (snd (flush_queues queue s))"
| step_control_flow: "tty_step s (snd (control_flow action s))"
| step_reset: "tty_step s (reset_rings_locked s)"

lemma tty_inv_step: "tty_step s s' \<Longrightarrow> tty_inv s \<Longrightarrow> tty_inv s'"
  by (induction rule: tty_step.induct)
     (simp_all only: tty_inv_receive tty_inv_receive_error tty_inv_process tty_inv_transmit tty_inv_read tty_inv_write
        tty_inv_set_termios tty_inv_flush_queues tty_inv_control_flow tty_inv_reset)

lemma tty_inv_add:
  assumes "tty_interface_add (Some flip_page) (Some output_page) (Some input_page) (Inr ()) speed = Inr s"
    "length flip_page = 4096" "length output_page = 4096" "length input_page = 4096"
  shows "tty_inv s" "lines_of s = line_empty" "incoming s = []" "termios s = set_default_termios speed"
proof -
  have s: "s = (zero_discipline (blank_tty flip_page output_page) \<lparr>data = input_page, head = 0, tail = 0\<rparr>)\<lparr>termios := set_default_termios speed\<rparr>"
    using assms(1) by (simp add: tty_interface_add_def tty_discipline_init_def)
  have none: "\<not> bitmap_isset (replicate 128 0) (ring_slot p)" for p
    using ring_slot_less [of p] by (simp add: bitmap_isset_def Let_def nth_replicate less_mult_imp_div_less)
  have c: "cells s = []" "ready_count s = 0" "flip_cells s = []"
    by (simp_all add: s cells_def ready_count_def flip_cells_def zero_discipline_def blank_tty_def Let_def)
  show "lines_of s = line_empty" "incoming s = []" "termios s = set_default_termios speed"
    by (simp_all add: lines_of_def incoming_def line_empty_def c) (simp_all add: s zero_discipline_def)
  show "tty_inv s"
    using assms(2-4) none
    by (simp add: tty_inv_def input_inv_def lines_inv_def flip_inv_def flip_base_def flip_mark_def c ring_ok_def)
       (simp add: s zero_discipline_def blank_tty_def)
qed

text \<open>A terminal just registered.\<close>

definition fresh_tty :: "tty result" where
  "fresh_tty = (let page = replicate 4096 0 in tty_interface_add (Some page) (Some page) (Some page) (Inr ()) 0)"

lemma fresh_tty:
  obtains s where "fresh_tty = Inr s" "tty_inv s" "termios s = set_default_termios 0" "incoming s = []" "lines_of s = line_empty"
    "flip_ring s = \<lparr>data = replicate 4096 0, head = 0, tail = 0\<rparr>" "output_ring s = \<lparr>data = replicate 4096 0, head = 0, tail = 0\<rparr>"
proof -
  let ?page = "replicate 4096 0 :: u8 list"
  obtain s where s: "tty_interface_add (Some ?page) (Some ?page) (Some ?page) (Inr ()) 0 = Inr s"
    by (simp add: tty_interface_add_def tty_discipline_init_def)
  have "flip_ring s = \<lparr>data = ?page, head = 0, tail = 0\<rparr>" "output_ring s = \<lparr>data = ?page, head = 0, tail = 0\<rparr>"
    using s by (auto simp: tty_interface_add_def tty_discipline_init_def zero_discipline_def blank_tty_def)
  then show thesis
    using that [of s] s tty_inv_add [OF s] by (simp add: fresh_tty_def del: lines_of_simps)
qed

lemma tty_inv_steps: "tty_step\<^sup>*\<^sup>* s s' \<Longrightarrow> tty_inv s \<Longrightarrow> tty_inv s'"
  by (induction rule: rtranclp_induct) (auto intro: tty_inv_step)

text \<open>
  C3: From the registration of a terminal on, over any sequence of operations of the driver, the
  worker, readers, writers and requests, the terminal is well formed: the three rings hold at most a page, every line
  error is marked on the byte in front of the one it belongs to, the bytes being edited carry no line
  end, and a line being edited always leaves room for the byte that ends it.
\<close>

theorem tty_invariant:
  assumes "tty_interface_add (Some flip_page) (Some output_page) (Some input_page) (Inr ()) speed = Inr s"
    and "length flip_page = 4096" "length output_page = 4096" "length input_page = 4096"
    and "tty_step\<^sup>*\<^sup>* s s'"
  shows "tty_inv s' \<and> unat (tty_ring_used (input_ring s')) \<le> 4096 \<and> unat (tty_ring_used (output_ring s')) \<le> 4096 \<and>
    unat (tty_ring_used (flip_ring s')) \<le> 4096 \<and>
    (edited (lines_of s') \<noteq> [] \<longrightarrow> tty_ring_room (input_ring s') \<noteq> 0)"
proof -
  have inv: "tty_inv s'" by (rule tty_inv_steps [OF assms(5) tty_inv_add(1) [OF assms(1-4)]])
  then have ok: "ring_ok (input_ring s')" "ring_ok (output_ring s')" "ring_ok (flip_ring s')" and lines: "lines_inv s'"
      and room: "line_end s' \<noteq> tail (input_ring s') \<Longrightarrow> length (cells s') < 4096"
    by (simp_all add: tty_inv_def input_inv_def lines_inv_def flip_inv_def flip_base_def)
  have "tty_ring_room (input_ring s') \<noteq> 0" if "edited (lines_of s') \<noteq> []"
  proof -
    have "ready_count s' \<noteq> length (cells s')" using that by (auto simp: lines_of_simps)
    then have "length (cells s') < 4096" using room input_positions(5) [OF lines] by simp
    then have "0 < unat (tty_ring_room (input_ring s'))"
      unfolding unat_ring_room [OF ok(1)] by (simp add: ring_bytes_def length_cells)
    then show ?thesis by auto
  qed
  with inv ok show ?thesis
    by (auto simp: ring_ok_def tty_ring_used_def)
qed

theorem tty_invariant_witness:
  "(case fresh_tty of Inl _ \<Rightarrow> False | Inr s \<Rightarrow> tty_inv (tty_receive [0x68, 0x69] (reset_rings_locked s)))"
proof -
  obtain s where s: "fresh_tty = Inr s" by (rule fresh_tty)
  have "tty_step\<^sup>*\<^sup>* s (tty_receive [0x68, 0x69] (reset_rings_locked s))"
    by (blast intro: converse_rtranclp_into_rtranclp step_reset step_receive)
  then show ?thesis
    using tty_invariant [OF s [unfolded fresh_tty_def Let_def]] unfolding s sum.case by simp
qed

lemma process_refines:
  assumes "tty_inv s"
  shows "\<exists>sent notice s'. process_input s = Some (sent, ready (lines_of s') \<noteq> [], notice, s') \<and> tty_inv s' \<and> incoming s' = [] \<and>
    signals s' = 0 \<and> termios s' = termios s \<and> lines_of s' = line_process (termios s) (incoming s) (lines_of s)"
proof -
  obtain u where u: "process_flip s = Some u" "tty_inv u" "incoming u = []" "termios u = termios s"
      "lines_of u = line_process (termios s) (incoming s) (lines_of s)"
    using process_flip_total [OF assms] by blast
  let ?s = "u\<lparr>signals := 0\<rparr>"
  have same: "same_lines u ?s" by (simp add: same_lines_def)
  have "incoming ?s = incoming u" by (rule flip_fields) simp_all
  then have p: "process_input s = Some (signals u, notify_input_locked ?s, notify_output_locked ?s, ?s)"
      and i: "incoming ?s = []" using u by (simp_all add: process_input_def Let_def)
  have inv: "tty_inv ?s" by (rule tty_inv_process [OF assms p])
  then have "ready_count ?s \<le> length (cells ?s)" by (simp add: tty_inv_def input_inv_def lines_inv_def)
  then have "ready (lines_of ?s) \<noteq> [] \<longleftrightarrow> ready_count ?s \<noteq> 0"
    by (auto simp: lines_of_simps)
  also have "\<dots> \<longleftrightarrow> notify_input_locked ?s"
    unfolding notify_input_locked_def tty_discipline_readable_def ready_count_def by (simp only: unat_eq_zero)
  finally have "notify_input_locked ?s \<longleftrightarrow> ready (lines_of ?s) \<noteq> []" ..
  with p inv i u same_linesD [OF same] show ?thesis by auto
qed

text \<open>
  C4: The worker ends, after one round for each byte the driver handed over, and leaves the lines that the
  abstract editor makes of these bytes and line errors in the order they came; it wakes readers exactly if
  there is something to read.
\<close>

theorem tty_process_refines:
  assumes "tty_inv s"
  shows "\<exists>sent notice s'. process_input s = Some (sent, ready (lines_of s') \<noteq> [], notice, s') \<and> tty_inv s' \<and> incoming s' = [] \<and>
    signals s' = 0 \<and> termios s' = termios s \<and> lines_of s' = line_process (termios s) (incoming s) (lines_of s)"
  by (rule process_refines [OF assms])

theorem tty_process_refines_witness:
  "(case fresh_tty of Inl _ \<Rightarrow> False | Inr s \<Rightarrow> process_input (tty_receive [0x68, 0x69, 0x0D] s) \<noteq> None)"
proof -
  obtain s where s: "fresh_tty = Inr s" "tty_inv s" "incoming s = []" "flip_ring s = \<lparr>data = replicate 4096 0, head = 0, tail = 0\<rparr>"
      "output_ring s = \<lparr>data = replicate 4096 0, head = 0, tail = 0\<rparr>"
    by (rule fresh_tty)
  show ?thesis
    using tty_process_refines [OF tty_inv_receive [OF s(2)], of "[0x68, 0x69, 0x0D]"] unfolding s(1) sum.case by auto
qed

text \<open>
  C8: The worker ends after one round for each byte it was handed, of which there are at most a page, whatever the
  settings: with \<open>k\<close> bytes on their way the loop is left after \<open>k\<close> rounds and not before.
\<close>

theorem tty_process_rounds:
  assumes "tty_inv s"
  shows "length (incoming s) \<le> 4096 \<and> process_flip s = Some ((process_byte ^^ length (incoming s)) s) \<and>
    tty_ring_used (flip_ring ((process_byte ^^ length (incoming s)) s)) = 0 \<and>
    list_all (\<lambda>k. tty_ring_used (flip_ring ((process_byte ^^ k) s)) \<noteq> 0) [0..<length (incoming s)]"
proof -
  have used: "tty_ring_used (flip_ring ((process_byte ^^ k) s)) = 0 \<longleftrightarrow> k = length (incoming s)" if "k \<le> length (incoming s)" for k
    by (rule process_flip_rounds(2) [OF assms that])
  have "length xs \<le> length cs" if "flip_items cs = Some xs" for cs xs
    using that by (induction cs arbitrary: xs rule: flip_items.induct) (auto intro: le_SucI)
  then have "length (incoming s) \<le> length (flip_cells s)"
    by (auto simp: incoming_def split: option.split)
  moreover have "length (flip_cells s) \<le> 4096"
    using assms flip_room(2) by (simp add: tty_inv_def flip_inv_def)
  ultimately show ?thesis using used process_flip_ends [OF assms] by (auto simp: list_all_iff)
qed

theorem tty_process_rounds_witness:
  "(case fresh_tty of Inl _ \<Rightarrow> False | Inr s \<Rightarrow> 
     process_flip (tty_receive [0x68, 0x69] s) = Some (process_byte (process_byte (tty_receive [0x68, 0x69] s))))"
proof -
  obtain s where s: "fresh_tty = Inr s" "tty_inv s" "incoming s = []" "flip_ring s = \<lparr>data = replicate 4096 0, head = 0, tail = 0\<rparr>"
      "output_ring s = \<lparr>data = replicate 4096 0, head = 0, tail = 0\<rparr>"
    by (rule fresh_tty)
  have "length (incoming (tty_receive [0x68, 0x69] s)) = 2"
    using tty_receive_incoming [OF tty_invD(2) [OF s(2)], of "[0x68, 0x69]"] s(3,4) by (simp add: tty_ring_room_def TTY_RING_SIZE_def)
  then show ?thesis
    using tty_process_rounds [OF tty_inv_receive [OF s(2)], of "[0x68, 0x69]"] unfolding s(1) sum.case by (simp add: numeral_2_eq_2)
qed

subsection \<open>Output\<close>

lemma tab_spaces_length: "length (fst (tab_spaces col stop)) = (if col < stop then unat (stop - col) else 0)"
proof (induction col stop rule: tab_spaces.induct)
  case (1 col stop)
  show ?case
  proof (cases "col < stop")
    case True
    then have "stop - col \<noteq> 0" by simp
    have "unat (stop - (col + 1)) = unat (stop - col) - 1"
      using \<open>stop - col \<noteq> 0\<close> by (simp add: unat_minus_one diff_diff_eq [symmetric])
    moreover have "unat (stop - col) = 1" if "\<not> col + 1 < stop"
    proof -
      have "col + 1 = stop" using that True by (metis inc_le order.not_eq_order_implies_strict order_le_less)
      then show ?thesis by auto
    qed
    moreover have "unat (stop - col) \<noteq> 0" using \<open>stop - col \<noteq> 0\<close> by (simp add: unat_eq_zero)
    ultimately show ?thesis
      using 1 True by (subst tab_spaces.simps) (auto split: prod.split)
  qed (subst tab_spaces.simps, simp)
qed

lemma tab_stop_distance: "col < next_tab_stop col \<Longrightarrow> unat (next_tab_stop col - col) \<le> 8"
proof -
  have "col div 8 * 8 = col - col mod 8" using div_mult_mod_eq [of col 8] by (simp add: algebra_simps)
  then have "next_tab_stop col - col = 8 - col mod 8"
    by (simp add: next_tab_stop_def TAB_WIDTH_def algebra_simps)
  moreover have "col mod 8 \<le> 8" by (simp add: word_le_nat_alt unat_mod less_imp_le)
  ultimately show ?thesis by (simp add: unat_sub)
qed

lemma masked_div_le: "unat ((w AND m) div d) \<le> unat m div unat d" for w m d :: u32
  using word_and_le1 [of w m] by (simp add: unat_div div_le_mono word_le_nat_alt)

lemma double_le: "unat w \<le> 1 \<Longrightarrow> unat (2 * w) \<le> 2" for w :: u32
  by (simp add: unat_word_ariths)

lemma fill_bytes_length: "length (fill_bytes oflag byte) \<le> 3"
proof -
  have small: "unat ((oflag AND 0x100) div 0x100) \<le> 1" "unat ((oflag AND 0x600) div 0x200) \<le> 3" "unat ((oflag AND 0x1800) div 0x800) \<le> 3"
      "unat ((oflag AND 0x2000) div 0x2000) \<le> 1" "unat ((oflag AND 0x4000) div 0x4000) \<le> 1" "unat ((oflag AND 0x8000) div 0x8000) \<le> 1"
    by (rule masked_div_le [THEN le_trans], simp)+
  have "unat ((oflag AND 0x100) div 0x100) \<le> 3" "unat ((oflag AND 0x2000) div 0x2000) \<le> 3"
      "unat (2 * ((oflag AND 0x4000) div 0x4000)) \<le> 3" "unat (2 * ((oflag AND 0x8000) div 0x8000)) \<le> 3"
    using small double_le [OF small(5)] double_le [OF small(6)] by linarith+
  with small have "unat (delay_fills oflag byte) \<le> 3"
    unfolding delay_fills_def NLDLY_def NL1_def CRDLY_def CR1_def TABDLY_def TAB1_def BSDLY_def BS1_def VTDLY_def VT1_def FFDLY_def FF1_def
    by (simp only: if_distrib [of unat] if_distrib [of "\<lambda>n. n \<le> 3"] unat_0 le0 if_cancel)
  then show ?thesis by (simp add: fill_bytes_def)
qed

lemma expand_length: "length (fst (expand t b col)) \<le> 8"
proof -
  have "length (fst (expand_printable t b col)) \<le> 2" for col
    by (simp add: expand_printable_def Let_def split: prod.split)
  then have print: "length (fst (expand_printable t b col)) \<le> 8" for col by (rule le_trans) simp
  have tab: "length (fst (tab_spaces col (next_tab_stop col))) \<le> 8" for col
    using tab_stop_distance [of col] by (simp add: tab_spaces_length)
  have fill: "length (fill_bytes f c) \<le> 6" "length (fill_bytes f c) \<le> 7" for f c
    using fill_bytes_length [of f c] by simp_all
  show ?thesis
    by (simp add: expand_def Let_def print tab fill)
qed

lemma output_fits:
  assumes ok: "ring_ok (output_ring s)" and room: "8 \<le> unat (tty_ring_room (output_ring s))"
  shows "fst (tty_discipline_output s b)"
  using expand_length [of "termios s" b "column s"] room
  by (auto simp: tty_discipline_output_def tty_output_put_def split: prod.split)

text \<open>
  C6: A byte of output never becomes more than the bytes the core reserves for it, for any settings and column, so a
  writer that is woken because there is room for them always gets its next byte out.
\<close>

theorem tty_write_progress:
  assumes "ring_ok (output_ring s)" and "writable (notify_output_locked s)"
  shows "length (fst (expand t b col)) \<le> TTY_EXPANSION_MAX \<and> fst (tty_discipline_output s b) \<and>
    length (fst (write_bytes (b # bs) s)) \<le> length bs"
proof -
  have "16 \<le> unat (tty_ring_room (output_ring s))"
    using assms(2) by (simp add: notify_output_locked_def Let_def TTY_EXPANSION_MAX_def)
  then have out: "fst (tty_discipline_output s b)" using output_fits [OF assms(1)] by simp
  have "length (fst (write_bytes bs u)) \<le> length bs" for bs u
    by (induction bs arbitrary: u) (auto split: prod.split bool.split intro: le_SucI)
  with out have "length (fst (write_bytes (b # bs) s)) \<le> length bs"
    by (cases "tty_discipline_output s b") simp
  with out show ?thesis using expand_length [of t b col] by (simp add: TTY_EXPANSION_MAX_def)
qed

theorem tty_write_progress_witness:
  "(case fresh_tty of Inl _ \<Rightarrow> False | Inr s \<Rightarrow> writable (notify_output_locked s) \<and> fst (tty_discipline_output s 0x09))"
proof -
  obtain s where s: "fresh_tty = Inr s" "tty_inv s" "incoming s = []" "flip_ring s = \<lparr>data = replicate 4096 0, head = 0, tail = 0\<rparr>"
      "output_ring s = \<lparr>data = replicate 4096 0, head = 0, tail = 0\<rparr>"
    by (rule fresh_tty)
  have w: "writable (notify_output_locked s)"
    using s(5) by (simp add: notify_output_locked_def Let_def tty_ring_room_def TTY_RING_SIZE_def TTY_EXPANSION_MAX_def)
  then show ?thesis
    using tty_write_progress [OF tty_invD(3) [OF s(2)] w] unfolding s(1) sum.case by simp
qed

text \<open>What a run of bytes becomes on its way out, from a column.\<close>

fun expand_all :: "termios \<Rightarrow> u8 list \<Rightarrow> u32 \<Rightarrow> u8 list" where
  "expand_all t [] col = []"
| "expand_all t (b # bs) col = (case expand t b col of (out, col) \<Rightarrow> out @ expand_all t bs col)"

lemma output_bytes:
  assumes ok: "ring_ok (output_ring s)" and out: "tty_discipline_output s b = (True, s')"
  shows "ring_ok (output_ring s')" "ring_bytes (output_ring s') = ring_bytes (output_ring s) @ fst (expand (termios s) b (column s))"
    "column s' = snd (expand (termios s) b (column s))" "termios s' = termios s"
    "xchar s' = xchar s" "output_stopped s' = output_stopped s"
  using out output_put_ok [OF ok, of "fst (expand (termios s) b (column s))"]
  by (auto simp: tty_discipline_output_def tty_output_put_def not_less split: prod.splits bool.splits if_splits)

lemma write_bytes_out:
  assumes "ring_ok (output_ring s)"
  shows "\<exists>sent. bs = sent @ fst (write_bytes bs s) \<and> ring_ok (output_ring (snd (write_bytes bs s))) \<and>
    ring_bytes (output_ring (snd (write_bytes bs s))) = ring_bytes (output_ring s) @ expand_all (termios s) sent (column s) \<and>
    xchar (snd (write_bytes bs s)) = xchar s \<and> output_stopped (snd (write_bytes bs s)) = output_stopped s"
  using assms
proof (induction bs arbitrary: s)
  case Nil
  then show ?case by simp
next
  case (Cons b bs)
  obtain f u where o: "tty_discipline_output s b = (f, u)" by fastforce
  show ?case
  proof (cases f)
    case True
    then have "tty_discipline_output s b = (True, u)" using o by simp
    note out = output_bytes [OF Cons.prems this]
    obtain sent where "bs = sent @ fst (write_bytes bs u)" "ring_ok (output_ring (snd (write_bytes bs u)))"
        "ring_bytes (output_ring (snd (write_bytes bs u))) = ring_bytes (output_ring u) @ expand_all (termios u) sent (column u)"
        "xchar (snd (write_bytes bs u)) = xchar u" "output_stopped (snd (write_bytes bs u)) = output_stopped u"
      using Cons.IH [OF out(1)] by blast
    then show ?thesis
      using out o True by (intro exI [of _ "b # sent"]) (simp add: case_prod_unfold)
  next
    case False
    then have "u = s" using o by (auto simp: tty_discipline_output_def tty_output_put_def split: prod.splits if_splits)
    then show ?thesis using o False Cons.prems by (intro exI [of _ "[]"]) simp
  qed
qed

lemma transmit_bytes:
  assumes "ring_ok (output_ring s)"
  shows "fst (tty_transmit_take n s) = (if xchar s \<noteq> 0 \<and> n \<noteq> 0 then [xchar s] else []) @
      (if output_stopped s then [] else take (if xchar s \<noteq> 0 then n - 1 else n) (ring_bytes (output_ring s)))"
  using take_output_bytes [of "s\<lparr>xchar := 0\<rparr>" "n - 1"] take_output_bytes [of s n] assms
  by (auto simp: tty_transmit_take_def case_prod_unfold)

text \<open>
  C7: Output leaves in order: after a write the driver takes first the flow control character, if one is waiting, even while
  output is stopped, then what was in the output before the write, then the expansion of exactly the bytes the
  write took, which are a prefix of those it was given.
\<close>

theorem tty_output_in_order:
  assumes "ring_ok (output_ring s)"
  shows "\<exists>sent. bs = sent @ fst (write_bytes bs s) \<and>
    fst (tty_transmit_take n (snd (write_bytes bs s))) =
      (if xchar s \<noteq> 0 \<and> n \<noteq> 0 then [xchar s] else []) @
      (if output_stopped s then []
       else take (if xchar s \<noteq> 0 then n - 1 else n) (ring_bytes (output_ring s) @ expand_all (termios s) sent (column s)))"
  using write_bytes_out [OF assms, of bs] transmit_bytes [of "snd (write_bytes bs s)" n] by auto

theorem tty_output_in_order_witness:
  "(case fresh_tty of Inl _ \<Rightarrow> False | Inr s \<Rightarrow> ring_ok (output_ring s) \<and>
     (\<exists>sent. [0x68, 0x69] = sent @ fst (write_bytes [0x68, 0x69] s)))"
proof -
  obtain s where s: "fresh_tty = Inr s" "tty_inv s" "incoming s = []" "flip_ring s = \<lparr>data = replicate 4096 0, head = 0, tail = 0\<rparr>"
      "output_ring s = \<lparr>data = replicate 4096 0, head = 0, tail = 0\<rparr>"
    by (rule fresh_tty)
  have "\<exists>sent. [0x68, 0x69] = sent @ fst (write_bytes [0x68, 0x69] s)"
    using tty_output_in_order [OF tty_invD(3) [OF s(2)], of "[0x68, 0x69]"] by blast
  then show ?thesis using tty_invD(3) [OF s(2)] unfolding s(1) sum.case by simp
qed

end
