(* ===== verification/Tty_Typing.thy ===== *)
theory Tty_Typing
  imports Tty_Safety
begin

text \<open>
  What a user of a terminal with its initial settings sees: a typed line is read back, an erased
  character leaves no trace, and where a line ended by VEOF is read in pieces.
\<close>

subsection \<open>The initial settings\<close>

lemma default_cc:
  "c_cc (set_default_termios speed) =
    [0x03, 0x1C, 0x7F, 0x15, 0x04, 0, 0, 0x11, 0x13, 0x1A, 0x12, 0x17, 0x16, 0x0F, 1, 0, 0x14, 0, 0, 0]"
  by (simp add: set_default_termios_def Let_def CONTROL_def VINTR_def VQUIT_def VERASE_def VKILL_def VEOF_def VSTART_def VSTOP_def
      VSUSP_def VREPRINT_def VWERASE_def VLNEXT_def VDISCARD_def VMIN_def VTIME_def VSTATUS_def NCCS_def numeral_eq_Suc)

lemma default_flags: "c_iflag (set_default_termios speed) = 0x2500" "c_lflag (set_default_termios speed) = 0x133B"
  by (simp_all add: set_default_termios_def Let_def ICRNL_def IXON_def IMAXBEL_def ISIG_def ICANON_def ECHO_def ECHOE_def ECHOK_def
      ECHOCTL_def ECHOKE_def IEXTEN_def)

text \<open>The bytes that stand for themselves.\<close>

definition plain :: "u8 \<Rightarrow> bool" where
  "plain b \<longleftrightarrow> 0x20 \<le> b \<and> b < 0x7F"

lemma default_special: "is_special (set_default_termios speed) b i \<longleftrightarrow> b \<noteq> 0 \<and>
    [0x03, 0x1C, 0x7F, 0x15, 0x04, 0, 0, 0x11, 0x13, 0x1A, 0x12, 0x17, 0x16, 0x0F, 1, 0, 0x14, 0, 0, 0] ! i = b"
  by (auto simp: is_special_def default_cc POSIX_VDISABLE_def Let_def)

lemma plain_special:
  assumes "plain b" "i < 20"
  shows "\<not> is_special (set_default_termios speed) b i"
proof -
  have "list_all (\<lambda>c. \<not> plain c) [0x03, 0x1C, 0x7F, 0x15, 0x04, 0, 0, 0x11, 0x13, 0x1A, 0x12, 0x17, 0x16, 0x0F, 1, 0, 0x14, 0, 0, 0 :: u8]"
    by (simp add: plain_def word_le_nat_alt word_less_nat_alt)
  then show ?thesis
    using assms unfolding default_special list_all_length by auto
qed

lemmas special_defs = VINTR_def VQUIT_def VERASE_def VKILL_def VEOF_def VEOL_def VEOL2_def VSTART_def VSTOP_def
  VSUSP_def VREPRINT_def VWERASE_def VLNEXT_def VSTATUS_def

lemmas flag_defs = ISTRIP_def IXON_def IGNCR_def ICRNL_def INLCR_def IUCLC_def PARMRK_def IGNPAR_def ISIG_def ICANON_def XCASE_def IEXTEN_def
  IUTF8_def

lemma line_put_default:
  "b \<noteq> MARK \<Longrightarrow> line_put (set_default_termios speed) b a =
    (if length (ready a) + length (edited a) + 1 < 4096 then a\<lparr>edited := edited a @ [b]\<rparr> else a)"
  by (simp add: line_put_def line_fits_def line_append_def default_flags flag_defs)

lemma line_plain:
  assumes "plain b" "\<not> literal a" "\<not> escape a"
  shows "line_byte (set_default_termios speed) b a =
    (if length (ready a) + length (edited a) + 1 < 4096 then a\<lparr>edited := edited a @ [b]\<rparr> else a)"
proof -
  have "b \<noteq> 0x0A" "b \<noteq> 0x0D" "b \<noteq> MARK" using assms(1) by (auto simp: plain_def MARK_def)
  then show ?thesis
    using assms(2,3) plain_special [OF assms(1)]
    by (simp add: line_byte_def line_canonical_def signal_of_def line_put_default default_flags flag_defs special_defs)
qed

lemma line_keys:
  assumes "\<not> literal a" "\<not> escape a"
  shows "line_byte (set_default_termios speed) 0x0D a = line_finish 0x0A a"
    "line_byte (set_default_termios speed) 0x04 a = line_finish 0 a"
    "line_byte (set_default_termios speed) 0x7F a = line_erase (set_default_termios speed) a"
    "line_byte (set_default_termios speed) 0x15 a = a\<lparr>edited := []\<rparr>"
    "line_byte (set_default_termios speed) 0x03 a = line_empty"
  using assms
  by (simp_all add: line_byte_def line_canonical_def signal_of_def default_flags flag_defs special_defs default_special
      SIGINFO_def SIGINT_def NOFLSH_def)

lemma line_typed:
  assumes "list_all plain bs" "\<not> literal a" "\<not> escape a" "length (ready a) + length (edited a) + length bs < 4096"
  shows "line_process (set_default_termios speed) (map (\<lambda>b. (b, TTY_ERROR_NONE)) bs) a = a\<lparr>edited := edited a @ bs\<rparr>"
  using assms
proof (induction bs arbitrary: a)
  case Nil
  then show ?case by (simp add: line_process_def)
next
  case (Cons b bs)
  then have "line_receive (set_default_termios speed) b TTY_ERROR_NONE a = a\<lparr>edited := edited a @ [b]\<rparr>"
    by (simp add: line_receive_def line_plain)
  then show ?case
    using Cons.IH [of "a\<lparr>edited := edited a @ [b]\<rparr>"] Cons.prems by (simp add: line_process_def)
qed

lemma line_process_append: "line_process t (xs @ ys) a = line_process t ys (line_process t xs a)"
  by (simp add: line_process_def)

text \<open>Handing a line to the terminal, ended by a key.\<close>

lemma typed_line:
  assumes inv: "tty_inv s" and t: "termios s = set_default_termios speed" and i: "incoming s = []"
    and flags: "\<not> literal (lines_of s)" "\<not> escape (lines_of s)"
    and plain: "list_all plain bs" and room: "length (ready (lines_of s)) + length (edited (lines_of s)) + length bs < 4096"
    and fits: "length bs < unat (tty_ring_room (flip_ring s))"
  shows "\<exists>sent notice s'. process_input (tty_receive (bs @ [key]) s) = Some (sent, ready (lines_of s') \<noteq> [], notice, s') \<and> tty_inv s' \<and>
    incoming s' = [] \<and> termios s' = termios s \<and>
    lines_of s' = line_byte (set_default_termios speed) key ((lines_of s)\<lparr>edited := edited (lines_of s) @ bs\<rparr>)"
proof -
  let ?s = "tty_receive (bs @ [key]) s"
  note same = same_linesD [OF conjunct1 [OF same_lines_receive [of s "bs @ [key]"]]]
  have "incoming ?s = map (\<lambda>b. (b, TTY_ERROR_NONE)) bs @ [(key, TTY_ERROR_NONE)]"
    using tty_receive_incoming [OF tty_invD(2) [OF inv], of "bs @ [key]"] i fits by simp
  then have "line_process (set_default_termios speed) (incoming ?s) (lines_of s) =
      line_byte (set_default_termios speed) key ((lines_of s)\<lparr>edited := edited (lines_of s) @ bs\<rparr>)"
    using line_typed [OF plain flags room] by (simp only: line_process_append) (simp add: line_process_def line_receive_def)
  then show ?thesis
    using process_refines [OF tty_inv_receive [OF inv], of "bs @ [key]"] unfolding same t by auto
qed

subsection \<open>Reading\<close>

text \<open>A read of a terminal that edits lines returns if something is ready, and sleeps else.\<close>

lemma line_read_ready: "q \<noteq> [] \<Longrightarrow> 0 < n \<Longrightarrow> fst (line_read canonical n q) \<noteq> [] \<or> fst (snd (line_read canonical n q))"
  by (cases "(canonical, n, q)" rule: line_read.cases) (auto split: prod.splits if_splits)

lemma line_read_empty [simp]: "line_read canonical n [] = ([], False, [])"
  by (cases n) simp_all

lemma read_input_ready:
  assumes inv: "tty_inv s" and canon: "has (c_lflag (termios s)) ICANON" and some: "ready (lines_of s) \<noteq> []" "0 < n"
  obtains s' where "read_input nonblock n [] removed sleeps s = Some (Inr (fst (line_read True n (ready (lines_of s)))), s')"
    "tty_inv s'" "termios s' = termios s" "lines_of s' = (lines_of s)\<lparr>ready := snd (snd (line_read True n (ready (lines_of s))))\<rparr>"
proof -
  obtain bs eof s' where r: "tty_discipline_read s n = (bs, eof, s')" by (cases "tty_discipline_read s n")
  obtain ls leof q where l: "line_read True n (ready (lines_of s)) = (ls, leof, q)" by (cases "line_read True n (ready (lines_of s))")
  have eq: "bs = ls" "eof = leof" "lines_of s' = (lines_of s)\<lparr>ready := q\<rparr>" "termios s' = termios s"
    using read_lines [OF tty_invD(1) [OF inv], of n] canon r l by simp_all
  have "ls \<noteq> [] \<or> leof" using line_read_ready [OF some, of True] l by simp
  then have "read_input nonblock n [] removed sleeps s = Some (Inr ls, s')"
    using r eq canon by (subst read_input.simps) simp
  moreover have "tty_inv s'" using tty_inv_read [OF inv, of n] r by simp
  ultimately show thesis using that [of s'] l eq by simp
qed

lemma read_input_asleep:
  assumes inv: "tty_inv s" and canon: "has (c_lflag (termios s)) ICANON" and none: "ready (lines_of s) = []"
  obtains s' where "read_input False n [] False ((Inr (), removed, others) # sleeps) s = read_input False n [] removed sleeps (others s')"
    "tty_inv s'" "termios s' = termios s" "lines_of s' = lines_of s" "flip_ring s' = flip_ring s" "incoming s' = incoming s"
proof -
  obtain bs eof s' where r: "tty_discipline_read s n = (bs, eof, s')" by (cases "tty_discipline_read s n")
  have eq: "bs = []" "\<not> eof" "lines_of s' = (lines_of s)\<lparr>ready := []\<rparr>" "termios s' = termios s"
    using read_lines [OF tty_invD(1) [OF inv], of n] none r by simp_all
  have "(lines_of s)\<lparr>ready := []\<rparr> = lines_of s" using none by (intro line_state_eqI) (simp_all del: lines_of_simps)
  moreover have "read_input False n [] False ((Inr (), removed, others) # sleeps) s = read_input False n [] removed sleeps (others s')"
    using r eq canon by (subst read_input.simps) simp
  moreover have "core_frame s s'" using core_frame_read [of s n] r by simp
  note f = core_frameD [OF this]
  moreover have "tty_inv s'" using tty_inv_read [OF inv, of n] r by simp
  ultimately show thesis using that [of s'] eq flip_fields(2) [OF f(1,2)] by simp
qed

lemma line_read_data:
  "line_read True n (map (\<lambda>b. (b, False)) bs @ q) =
    (if n \<le> length bs then (take n bs, False, map (\<lambda>b. (b, False)) (drop n bs) @ q)
     else case line_read True (n - length bs) q of (ls, eof, q) \<Rightarrow> (bs @ ls, eof \<and> bs = [], q))"
proof (induction bs arbitrary: n)
  case Nil
  then show ?case by (cases q; cases n) (auto split: prod.split)
next
  case (Cons b bs)
  then show ?case by (cases n) (auto split: prod.splits)
qed

text \<open>What a user types while others wait, up to the end of the worker's pass.\<close>

definition typing :: "u8 list \<Rightarrow> tty \<Rightarrow> tty" where
  "typing keys s = (case process_input (tty_receive keys s) of Some (sent, woken, notice, s') \<Rightarrow> s' | None \<Rightarrow> s)"

lemma flip_room_empty: "flip_inv s \<Longrightarrow> incoming s = [] \<Longrightarrow> unat (tty_ring_room (flip_ring s)) = 4096"
proof -
  assume inv: "flip_inv s" and i: "incoming s = []"
  then have "flip_cells s = []"
    unfolding flip_inv_def incoming_def by (cases "flip_cells s" rule: flip_items.cases) auto
  then show ?thesis using inv flip_room(1) [of s] by (simp add: flip_inv_def)
qed

lemma typing_line:
  assumes "tty_inv s" "termios s = set_default_termios speed" "incoming s = []" "lines_of s = line_empty" "list_all plain bs" "length bs < 4095"
  shows "tty_inv (typing (bs @ [key]) s)" "termios (typing (bs @ [key]) s) = termios s" "incoming (typing (bs @ [key]) s) = []"
    "lines_of (typing (bs @ [key]) s) = line_byte (set_default_termios speed) key (line_empty\<lparr>edited := bs\<rparr>)"
proof -
  have "length bs < unat (tty_ring_room (flip_ring s))"
    using assms flip_room_empty [of s] by (simp add: tty_inv_def)
  then obtain sent notice s' where "process_input (tty_receive (bs @ [key]) s) = Some (sent, ready (lines_of s') \<noteq> [], notice, s')" "tty_inv s'"
      "incoming s' = []" "termios s' = termios s" "lines_of s' = line_byte (set_default_termios speed) key ((lines_of s)\<lparr>edited := edited (lines_of s) @ bs\<rparr>)"
    using typed_line [OF assms(1-3), of bs key] assms(4-6) by (auto simp: line_empty_def simp del: lines_of_simps)
  then show "tty_inv (typing (bs @ [key]) s)" "termios (typing (bs @ [key]) s) = termios s" "incoming (typing (bs @ [key]) s) = []"
      "lines_of (typing (bs @ [key]) s) = line_byte (set_default_termios speed) key (line_empty\<lparr>edited := bs\<rparr>)"
    using assms(4) by (simp_all add: typing_def line_empty_def del: lines_of_simps)
qed

lemma default_canonical: "has (c_lflag (set_default_termios speed)) ICANON"
  by (simp add: default_flags ICANON_def)

text \<open>
  C5: On a terminal with its initial settings a reader that went to sleep on an empty terminal is handed the line that is
  typed, with the carriage return read as a newline, for every line of printable characters shorter than the limit, and the terminal is
  empty again afterwards.
\<close>

theorem tty_line_roundtrip:
  assumes "tty_inv s" and "termios s = set_default_termios speed" and "incoming s = []" and "lines_of s = line_empty"
    and "list_all plain line" and "length line < 4095" and "length line < n"
  shows "\<exists>s'. read_input False n [] False ((Inr (), False, typing (line @ [0x0D])) # sleeps) s = Some (Inr (line @ [0x0A]), s') \<and>
    tty_inv s' \<and> lines_of s' = line_empty"
proof -
  have canon: "has (c_lflag (termios s)) ICANON" using assms(2) default_canonical by simp
  obtain u where u: "read_input False n [] False ((Inr (), False, typing (line @ [0x0D])) # sleeps) s =
        read_input False n [] False sleeps (typing (line @ [0x0D]) u)"
      "tty_inv u" "termios u = termios s" "lines_of u = lines_of s" "incoming u = incoming s"
    using read_input_asleep [OF assms(1) canon, of n False "typing (line @ [0x0D])" sleeps] assms(4) by (auto simp: line_empty_def simp del: lines_of_simps)
  let ?v = "typing (line @ [0x0D]) u"
  note v = typing_line [OF u(2), of speed line "0x0D", unfolded u, OF assms(2-6)]
  have lines: "lines_of ?v = line_empty\<lparr>ready := map (\<lambda>b. (b, False)) line @ [(0x0A, True)]\<rparr>"
    unfolding v(4) using assms(6) by (simp add: line_keys line_empty_def line_finish_def)
  then have q: "ready (lines_of ?v) = map (\<lambda>b. (b, False)) line @ [(0x0A, True)]" by (simp add: line_empty_def del: lines_of_simps)
  have canon': "has (c_lflag (termios ?v)) ICANON" using v(2) canon by simp
  have "line_read True n (map (\<lambda>b. (b, False)) line @ [(0x0A, True)]) = (line @ [0x0A], False, [])"
    using assms(7) by (cases "n - length line") (simp_all add: line_read_data)
  note read = this
  have "ready (lines_of ?v) \<noteq> []" "0 < n" using q assms(7) by simp_all
  then obtain w where w: "read_input False n [] False sleeps ?v = Some (Inr (line @ [0x0A]), w)" "tty_inv w" "lines_of w = (lines_of ?v)\<lparr>ready := []\<rparr>"
    by (rule read_input_ready [OF v(1) canon', of n False False sleeps]) (use q read in \<open>simp del: lines_of_simps\<close>)
  then show ?thesis using u(1) lines by (simp add: line_empty_def)
qed

theorem tty_line_roundtrip_witness:
  "(case fresh_tty of
      Inl _ \<Rightarrow> False
    | Inr s \<Rightarrow> map_option fst (read_input False 80 [] False [(Inr (), False, typing ([0x68, 0x69] @ [0x0D]))] s) = Some (Inr [0x68, 0x69, 0x0A]))"
proof -
  obtain s where s: "fresh_tty = Inr s" "tty_inv s" "termios s = set_default_termios 0" "incoming s = []" "lines_of s = line_empty"
    by (rule fresh_tty)
  have "list_all plain [0x68, 0x69]" by (simp add: plain_def)
  then show ?thesis
    using tty_line_roundtrip [OF s(2-5), of "[0x68, 0x69]" 80 "[]"] unfolding s(1) sum.case by auto
qed

text \<open>
  C9: Typing a character and erasing it leaves the lines as they were, whatever the line being edited and the lines
  waiting to be read, as long as the character fitted.
\<close>

theorem tty_erase_undoes:
  assumes "tty_inv s" and "termios s = set_default_termios speed" and "incoming s = []"
    and "\<not> literal (lines_of s)" and "\<not> escape (lines_of s)" and "plain c"
    and "length (ready (lines_of s)) + length (edited (lines_of s)) + 1 < 4096"
  shows "lines_of (typing [c, 0x7F] s) = lines_of s"
proof -
  have "1 < unat (tty_ring_room (flip_ring s))"
    using assms flip_room_empty [of s] by (simp add: tty_inv_def)
  then obtain sent notice s' where s': "process_input (tty_receive ([c] @ [0x7F]) s) = Some (sent, ready (lines_of s') \<noteq> [], notice, s')"
      "lines_of s' = line_byte (set_default_termios speed) 0x7F ((lines_of s)\<lparr>edited := edited (lines_of s) @ [c]\<rparr>)"
    using typed_line [OF assms(1-5), of "[c]" "0x7F"] assms(6,7) by auto
  have "c_iflag (set_default_termios speed) AND IUTF8 = 0" by (simp add: default_flags IUTF8_def)
  then have "lines_of s' = lines_of s"
    unfolding s'(2) using assms(4,5) by (simp add: line_keys line_erase_def del: lines_of_simps)
  then show ?thesis using s'(1) by (simp add: typing_def)
qed

theorem tty_erase_undoes_witness:
  "(case fresh_tty of
      Inl _ \<Rightarrow> False
    | Inr s \<Rightarrow> lines_of (typing [0x41, 0x7F] s) = line_empty)"
proof -
  obtain s where s: "fresh_tty = Inr s" "tty_inv s" "termios s = set_default_termios 0" "incoming s = []" "lines_of s = line_empty"
    by (rule fresh_tty)
  show ?thesis
    using tty_erase_undoes [OF s(2-4), where c = "0x41"] unfolding s(1,5) sum.case by (simp add: line_empty_def plain_def)
qed

text \<open>
  C37: A line ended by VEOF is not empty, yet a reader whose buffer holds exactly the line is told of an end of
  file by its next read: the first read returns the line and leaves the VEOF, which the second takes alone and
  returns no bytes for.
\<close>

theorem tty_read_eof_split:
  assumes "tty_inv s" and "termios s = set_default_termios speed" and "incoming s = []" and "lines_of s = line_empty"
    and "list_all plain line" and "length line < 4095" and "line \<noteq> []"
  shows "\<exists>s1 s2. read_input False (length line) [] False [] (typing (line @ [0x04]) s) = Some (Inr line, s1) \<and>
    read_input False (length line) [] False [] s1 = Some (Inr [], s2) \<and> lines_of s2 = line_empty"
proof -
  let ?v = "typing (line @ [0x04]) s" and ?n = "length line"
  note v = typing_line [OF assms(1-6), of "0x04"]
  have canon: "has (c_lflag (termios ?v)) ICANON" using v(2) assms(2) default_canonical by simp
  have lines: "lines_of ?v = line_empty\<lparr>ready := map (\<lambda>b. (b, False)) line @ [(0, True)]\<rparr>"
    unfolding v(4) using assms(6) by (simp add: line_keys line_empty_def line_finish_def)
  then have q: "ready (lines_of ?v) = map (\<lambda>b. (b, False)) line @ [(0, True)]" by (simp add: line_empty_def del: lines_of_simps)
  have r: "line_read True ?n (map (\<lambda>b. (b, False)) line @ [(0, True)]) = (line, False, [(0, True)])"
    by (simp add: line_read_data)
  have some: "ready (lines_of ?v) \<noteq> []" "0 < ?n" using q assms(7) by simp_all
  then obtain s1 where s1: "read_input False ?n [] False [] ?v = Some (Inr line, s1)" "tty_inv s1" "termios s1 = termios ?v"
      "lines_of s1 = (lines_of ?v)\<lparr>ready := [(0, True)]\<rparr>"
    by (rule read_input_ready [OF v(1) canon, of ?n False False "[]"]) (use q r in \<open>simp del: lines_of_simps\<close>)
  have canon1: "has (c_lflag (termios s1)) ICANON" using canon s1(3) by simp
  have q1: "ready (lines_of s1) = [(0, True)]" using s1(4) by (simp del: lines_of_simps)
  have "line_read True ?n [(0, True)] = ([], True, [])" using assms(7) by (cases line) simp_all
  then obtain s2 where s2: "read_input False ?n [] False [] s1 = Some (Inr [], s2)" "lines_of s2 = (lines_of s1)\<lparr>ready := []\<rparr>"
    using q1 some(2) by - (rule read_input_ready [OF s1(2) canon1, of ?n False False "[]"], auto simp del: lines_of_simps)
  then show ?thesis using s1(1,4) lines by (simp add: line_empty_def)
qed

theorem tty_read_eof_split_witness:
  "(case fresh_tty of
      Inl _ \<Rightarrow> False
    | Inr s \<Rightarrow> (case read_input False 3 [] False [] (typing [0x61, 0x62, 0x63, 0x04] s) of
        Some (Inr line, s') \<Rightarrow> line = [0x61, 0x62, 0x63] \<and> map_option fst (read_input False 3 [] False [] s') = Some (Inr [])
      | _ \<Rightarrow> False))"
proof -
  obtain s where s: "fresh_tty = Inr s" "tty_inv s" "termios s = set_default_termios 0" "incoming s = []" "lines_of s = line_empty"
    by (rule fresh_tty)
  have "list_all plain [0x61, 0x62, 0x63]" by (simp add: plain_def)
  then show ?thesis
    using tty_read_eof_split [OF s(2-5), of "[0x61, 0x62, 0x63]"] unfolding s(1) sum.case by (auto simp: numeral_3_eq_3)
qed

end
