(* ===== verification/Pmentry.thy ===== *)
theory Pmentry
  imports Vex_Prelude
begin

text \<open>
  Entries of page tables, \<^verbatim>\<open>kernel/arch/amd64/include/arch/pmap.h\<close>, with the protections of
  \<^verbatim>\<open>kernel/include/vex/vprot.h\<close>: 64-bit words that hold a physical address, permissions and the memory
  type, whose bits differ between an entry for a page and one for a large page.
\<close>

definition VPROT_NONE :: u32 where "VPROT_NONE = 0x0000"
definition VPROT_READ :: u32 where "VPROT_READ = 0x0001"
definition VPROT_WRITE :: u32 where "VPROT_WRITE = 0x0002"
definition VPROT_EXEC :: u32 where "VPROT_EXEC = 0x0004"
definition VPROT_USER :: u32 where "VPROT_USER = 0x0008"
definition VPROT_CACHE_MASK :: u32 where "VPROT_CACHE_MASK = 0x0030"
definition VPROT_CACHE_WB :: u32 where "VPROT_CACHE_WB = 0x0000"
definition VPROT_CACHE_WT :: u32 where "VPROT_CACHE_WT = 0x0010"
definition VPROT_CACHE_UC :: u32 where "VPROT_CACHE_UC = 0x0020"
definition VPROT_CACHE_WC :: u32 where "VPROT_CACHE_WC = 0x0030"

definition AMD64_PML_ADDRESS_MASK :: u64 where "AMD64_PML_ADDRESS_MASK = 0x000FFFFFFFFFF000"
definition AMD64_PML_PRESENT :: u64 where "AMD64_PML_PRESENT = 0x0000000000000001"
definition AMD64_PML_WRITE :: u64 where "AMD64_PML_WRITE = 0x0000000000000002"
definition AMD64_PML_USER :: u64 where "AMD64_PML_USER = 0x0000000000000004"
definition AMD64_PML_PWT :: u64 where "AMD64_PML_PWT = 0x0000000000000008"
definition AMD64_PML_PCD :: u64 where "AMD64_PML_PCD = 0x0000000000000010"
definition AMD64_PML_PAT :: u64 where "AMD64_PML_PAT = 0x0000000000000080"
definition AMD64_PML_LARGE :: u64 where "AMD64_PML_LARGE = 0x0000000000000080"
definition AMD64_PML_PATL :: u64 where "AMD64_PML_PATL = 0x0000000000001000"
definition AMD64_PML_NOEXEC :: u64 where "AMD64_PML_NOEXEC = 0x8000000000000000"

definition PMENTRY_LVL1_SHIFT :: nat where "PMENTRY_LVL1_SHIFT = 12"
definition PMENTRY_LEVEL_BITS :: nat where "PMENTRY_LEVEL_BITS = 9"
definition PMENTRY_LEVEL_MASK :: u64 where "PMENTRY_LEVEL_MASK = 0x1FF"
definition PMENTRY_NULL :: u64 where "PMENTRY_NULL = 0"
definition PAGEMAP_SIZE :: nat where "PAGEMAP_SIZE = 512"

lemmas vprot_defs = VPROT_NONE_def VPROT_READ_def VPROT_WRITE_def VPROT_EXEC_def VPROT_USER_def VPROT_CACHE_MASK_def
  VPROT_CACHE_WB_def VPROT_CACHE_WT_def VPROT_CACHE_UC_def VPROT_CACHE_WC_def

lemmas pml_defs = AMD64_PML_ADDRESS_MASK_def AMD64_PML_PRESENT_def AMD64_PML_WRITE_def AMD64_PML_USER_def AMD64_PML_PWT_def
  AMD64_PML_PCD_def AMD64_PML_PAT_def AMD64_PML_LARGE_def AMD64_PML_PATL_def AMD64_PML_NOEXEC_def PMENTRY_NULL_def

definition pmentry_level_shift :: "nat \<Rightarrow> nat" where
  "pmentry_level_shift level = PMENTRY_LVL1_SHIFT + PMENTRY_LEVEL_BITS * (level - 1)"

definition pmentry_level_size :: "nat \<Rightarrow> u64" where
  "pmentry_level_size level = push_bit (pmentry_level_shift level) 1"

definition amd64_pat_bit :: "nat \<Rightarrow> u64" where
  "amd64_pat_bit level = (if level > 1 then AMD64_PML_PATL else AMD64_PML_PAT)"

definition amd64_pat_bits :: "u32 \<Rightarrow> nat \<Rightarrow> u64" where
  "amd64_pat_bits vprot level =
     (let cache = vprot AND VPROT_CACHE_MASK
      in if cache = VPROT_CACHE_WT then AMD64_PML_PWT
         else if cache = VPROT_CACHE_UC then AMD64_PML_PCD OR AMD64_PML_PWT
         else if cache = VPROT_CACHE_WC then amd64_pat_bit level
         else 0)"

definition amd64_pat_vprot :: "u64 \<Rightarrow> nat \<Rightarrow> u32" where
  "amd64_pat_vprot entry level =
     [VPROT_CACHE_WB, VPROT_CACHE_WT, VPROT_CACHE_UC, VPROT_CACHE_UC,
      VPROT_CACHE_WC, VPROT_CACHE_WT, VPROT_CACHE_UC, VPROT_CACHE_UC] !
     ((if entry AND AMD64_PML_PWT \<noteq> 0 then 1 else 0) + (if entry AND AMD64_PML_PCD \<noteq> 0 then 2 else 0) +
      (if entry AND amd64_pat_bit level \<noteq> 0 then 4 else 0))"

definition pmentry_valid :: "u64 \<Rightarrow> bool" where
  "pmentry_valid entry \<longleftrightarrow> entry AND AMD64_PML_PRESENT \<noteq> 0"

definition pmentry_leaf :: "u64 \<Rightarrow> nat \<Rightarrow> bool" where
  "pmentry_leaf entry level \<longleftrightarrow> level = 1 \<or> entry AND AMD64_PML_LARGE \<noteq> 0"

definition pmentry_address :: "u64 \<Rightarrow> nat \<Rightarrow> u64" where
  "pmentry_address entry level = entry AND AMD64_PML_ADDRESS_MASK AND NOT (pmentry_level_size level - 1)"

definition pmentry_vprot :: "u64 \<Rightarrow> nat \<Rightarrow> u32" where
  "pmentry_vprot entry level =
     (let vprot = VPROT_READ;
          vprot = (if entry AND AMD64_PML_WRITE \<noteq> 0 then vprot OR VPROT_WRITE else vprot);
          vprot = (if entry AND AMD64_PML_USER \<noteq> 0 then vprot OR VPROT_USER else vprot);
          vprot = (if entry AND AMD64_PML_NOEXEC = 0 then vprot OR VPROT_EXEC else vprot)
      in vprot OR amd64_pat_vprot entry level)"

definition pmentry_setup :: "u64 \<Rightarrow> u32 \<Rightarrow> nat \<Rightarrow> u64" where
  "pmentry_setup address vprot level =
     (let result = PMENTRY_NULL;
          result = result OR (address AND AMD64_PML_ADDRESS_MASK);
          result = result OR AMD64_PML_PRESENT;
          result = result OR AMD64_PML_NOEXEC;
          result = (if level > 1 then result OR AMD64_PML_LARGE else result);
          result = (if vprot AND VPROT_WRITE \<noteq> 0 then result OR AMD64_PML_WRITE else result);
          result = (if vprot AND VPROT_USER \<noteq> 0 then result OR AMD64_PML_USER else result);
          result = (if vprot AND VPROT_EXEC \<noteq> 0 then result AND NOT AMD64_PML_NOEXEC else result)
      in result OR amd64_pat_bits vprot level)"

definition pmentry_table :: "u64 \<Rightarrow> u64" where
  "pmentry_table address = (address AND AMD64_PML_ADDRESS_MASK) OR AMD64_PML_PRESENT OR AMD64_PML_WRITE OR AMD64_PML_USER"

definition pmap_user_end :: "nat \<Rightarrow> u64" where
  "pmap_user_end num_levels = push_bit (PMENTRY_LVL1_SHIFT + PMENTRY_LEVEL_BITS * num_levels - 1) 1"

subsection \<open>What an entry keeps\<close>

text \<open>The bits of the constants.\<close>

lemma address_mask_bits: "AMD64_PML_ADDRESS_MASK = mask 52 AND NOT (mask 12)"
  by (simp add: AMD64_PML_ADDRESS_MASK_def mask_eq_exp_minus_1)

definition flag :: "nat \<Rightarrow> u64" where
  "flag n = push_bit n 1"

lemma bit_flag [simp]: "bit (flag n) k \<longleftrightarrow> k = n \<and> n < 64"
  by (auto simp: flag_def bit_simps)

lemma and_flag [simp]: "w AND flag n = 0 \<longleftrightarrow> \<not> bit w n"
  using and_push_bit_1_eq [of w n] by (auto simp: flag_def)

lemma single_bits:
  "AMD64_PML_PRESENT = flag 0" "AMD64_PML_WRITE = flag 1" "AMD64_PML_USER = flag 2"
  "AMD64_PML_PWT = flag 3" "AMD64_PML_PCD = flag 4" "AMD64_PML_PAT = flag 7" "AMD64_PML_LARGE = flag 7"
  "AMD64_PML_PATL = flag 12" "AMD64_PML_NOEXEC = flag 63"
  by (simp_all add: pml_defs flag_def push_bit_eq_mult)

lemma level_size_mask: "pmentry_level_size level - 1 = mask (pmentry_level_shift level)"
  by (simp add: pmentry_level_size_def mask_eq_exp_minus_1 push_bit_eq_mult)

lemma bit_pat_bits:
  "bit (amd64_pat_bits vprot level) k \<longleftrightarrow>
    (let cache = vprot AND VPROT_CACHE_MASK
     in k = 3 \<and> (cache = VPROT_CACHE_WT \<or> cache = VPROT_CACHE_UC) \<or> k = 4 \<and> cache = VPROT_CACHE_UC \<or>
        k = (if level > 1 then 12 else 7) \<and> cache = VPROT_CACHE_WC)"
  by (auto simp: amd64_pat_bits_def Let_def amd64_pat_bit_def single_bits bit_or_iff vprot_defs)

lemma bit_address_mask: "bit AMD64_PML_ADDRESS_MASK k \<longleftrightarrow> 12 \<le> k \<and> k < 52"
  unfolding address_mask_bits by (auto simp: bit_and_iff bit_not_iff bit_mask_iff)

lemma bit_setup:
  "bit (pmentry_setup a vprot level) k \<longleftrightarrow>
    12 \<le> k \<and> k < 52 \<and> bit a k \<or> k = 0 \<or> k = 63 \<and> vprot AND VPROT_EXEC = 0 \<or> k = 7 \<and> level > 1 \<or>
    k = 1 \<and> vprot AND VPROT_WRITE \<noteq> 0 \<or> k = 2 \<and> vprot AND VPROT_USER \<noteq> 0 \<or> bit (amd64_pat_bits vprot level) k"
proof -
  have "bit (amd64_pat_bits vprot level) k \<Longrightarrow> k = 3 \<or> k = 4 \<or> k = 7 \<or> k = 12"
    by (auto simp: bit_pat_bits Let_def split: if_splits)
  then show ?thesis
    by (auto simp: pmentry_setup_def Let_def PMENTRY_NULL_def bit_address_mask single_bits bit_or_iff bit_and_iff bit_not_iff)
qed

lemma setup_valid [simp]: "pmentry_valid (pmentry_setup a vprot level)"
  by (simp add: pmentry_valid_def single_bits bit_setup)

lemma setup_leaf [simp]: "0 < level \<Longrightarrow> pmentry_leaf (pmentry_setup a vprot level) level"
  by (auto simp: pmentry_leaf_def single_bits bit_setup)

lemma null_not_valid [simp]: "\<not> pmentry_valid PMENTRY_NULL"
  by (simp add: pmentry_valid_def PMENTRY_NULL_def)

text \<open>A table's entry is valid and never taken for a large page.\<close>

lemma table_entry: "pmentry_valid (pmentry_table a)" "1 < level \<Longrightarrow> \<not> pmentry_leaf (pmentry_table a) level"
  by (simp_all add: pmentry_valid_def pmentry_leaf_def pmentry_table_def single_bits bit_or_iff bit_and_iff bit_address_mask)

lemma level_shift_bounds: "0 < level \<Longrightarrow> level \<le> 5 \<Longrightarrow> 12 \<le> pmentry_level_shift level \<and> pmentry_level_shift level \<le> 48"
  by (simp add: pmentry_level_shift_def PMENTRY_LVL1_SHIFT_def PMENTRY_LEVEL_BITS_def)

lemma level_shift_large: "1 < level \<Longrightarrow> 21 \<le> pmentry_level_shift level"
  by (simp add: pmentry_level_shift_def PMENTRY_LVL1_SHIFT_def PMENTRY_LEVEL_BITS_def)

lemma bit_address: "bit (pmentry_address w level) k \<longleftrightarrow> bit w k \<and> 12 \<le> k \<and> k < 52 \<and> pmentry_level_shift level \<le> k"
  unfolding pmentry_address_def level_size_mask by (auto simp: bit_and_iff bit_address_mask bit_not_iff bit_mask_iff)

text \<open>A physical address that an entry of a level can hold.\<close>

definition frame_aligned :: "nat \<Rightarrow> u64 \<Rightarrow> bool" where
  "frame_aligned level a \<longleftrightarrow> take_bit (pmentry_level_shift level) a = 0 \<and> take_bit 52 a = a"

lemma frame_aligned_bit: "frame_aligned level a \<Longrightarrow> bit a k \<Longrightarrow> pmentry_level_shift level \<le> k \<and> k < 52"
  unfolding frame_aligned_def by (metis bit_take_bit_iff bit_0_eq bot_apply bot_bool_def linorder_not_le)

lemma frame_aligned_address [simp]: "frame_aligned level (pmentry_address w level)"
  unfolding frame_aligned_def by (auto simp: bit_eq_iff bit_take_bit_iff bit_address)

lemma setup_address:
  assumes "0 < level" "frame_aligned level a"
  shows "pmentry_address (pmentry_setup a vprot level) level = a"
proof (rule bit_eqI)
  fix k
  have "bit (amd64_pat_bits vprot level) k \<Longrightarrow> pmentry_level_shift level \<le> k \<Longrightarrow> 12 \<le> k \<Longrightarrow> False"
    using level_shift_large [of level] by (auto simp: bit_pat_bits Let_def split: if_splits)
  then show "bit (pmentry_address (pmentry_setup a vprot level) level) k = bit a k"
    using frame_aligned_bit [OF assms(2), of k] level_shift_large [of level] assms(1)
    by (auto simp: bit_address bit_setup pmentry_level_shift_def PMENTRY_LVL1_SHIFT_def)
qed

text \<open>The protection an entry shows: it can always be read.\<close>

definition vprot_seen :: "u32 \<Rightarrow> u32" where
  "vprot_seen vprot = VPROT_READ OR (vprot AND (VPROT_WRITE OR VPROT_EXEC OR VPROT_USER OR VPROT_CACHE_MASK))"

lemma and_push_bit_1: "w AND push_bit n 1 = (if bit w n then push_bit n 1 else 0)" for w :: "'a::len word"
  by (rule bit_eqI) (auto simp: bit_simps)

lemma cache_cases:
  "vprot AND VPROT_CACHE_MASK = VPROT_CACHE_WB \<or> vprot AND VPROT_CACHE_MASK = VPROT_CACHE_WT \<or>
   vprot AND VPROT_CACHE_MASK = VPROT_CACHE_UC \<or> vprot AND VPROT_CACHE_MASK = VPROT_CACHE_WC"
proof -
  have m: "VPROT_CACHE_MASK = push_bit 4 1 OR push_bit 5 1" "VPROT_CACHE_WT = push_bit 4 1" "VPROT_CACHE_UC = push_bit 5 1"
      "VPROT_CACHE_WC = push_bit 4 1 OR push_bit 5 1"
    by (simp_all add: vprot_defs push_bit_eq_mult)
  show ?thesis
    unfolding m bit.conj_disj_distrib and_push_bit_1 by (simp add: VPROT_CACHE_WB_def)
qed

lemma setup_vprot:
  assumes "0 < level" "frame_aligned level a"
  shows "pmentry_vprot (pmentry_setup a vprot level) level = vprot_seen vprot"
proof -
  let ?w = "pmentry_setup a vprot level" and ?c = "vprot AND VPROT_CACHE_MASK"
  have low: "\<not> bit a 12" if "level > 1" using frame_aligned_bit [OF assms(2), of 12] level_shift_large [OF that] by auto
  have w: "bit ?w 1 = (vprot AND VPROT_WRITE \<noteq> 0)" "bit ?w 2 = (vprot AND VPROT_USER \<noteq> 0)" "bit ?w 63 = (vprot AND VPROT_EXEC = 0)"
      "bit ?w 3 = (?c = VPROT_CACHE_WT \<or> ?c = VPROT_CACHE_UC)" "bit ?w 4 = (?c = VPROT_CACHE_UC)"
    by (simp_all add: bit_setup bit_pat_bits Let_def)
  have pat: "?w AND amd64_pat_bit level \<noteq> 0 \<longleftrightarrow> ?c = VPROT_CACHE_WC"
    using low by (auto simp: amd64_pat_bit_def single_bits bit_setup bit_pat_bits Let_def)
  have cache: "amd64_pat_vprot ?w level = ?c"
    using cache_cases [of vprot] unfolding amd64_pat_vprot_def pat single_bits and_flag w
    by (elim disjE) (simp_all add: VPROT_CACHE_WB_def VPROT_CACHE_WT_def VPROT_CACHE_UC_def VPROT_CACHE_WC_def)
  have one: "(if vprot AND v \<noteq> 0 then x OR v else x) = x OR (vprot AND v)" if "v = push_bit n 1" for v x :: u32 and n
    unfolding that and_push_bit_1 by (auto dest: bit_imp_le_length simp: push_bit_eq_0_iff)
  have n: "VPROT_WRITE = push_bit 1 1" "VPROT_USER = push_bit 3 1" "VPROT_EXEC = push_bit 2 1"
    by (simp_all add: vprot_defs push_bit_eq_mult)
  have "pmentry_vprot ?w level = VPROT_READ OR (vprot AND VPROT_WRITE) OR (vprot AND VPROT_USER) OR (vprot AND VPROT_EXEC) OR ?c"
    unfolding pmentry_vprot_def Let_def cache single_bits and_flag w not_not one [OF n(1)] one [OF n(2)] one [OF n(3)]
    by (simp only: ac_simps)
  then show ?thesis
    by (simp add: vprot_seen_def bit.conj_disj_distrib ac_simps)
qed

lemma vprot_seen_idem [simp]: "vprot_seen (vprot_seen v) = vprot_seen v"
  unfolding vprot_seen_def by (rule bit_eqI) (auto simp: bit_or_iff bit_and_iff)

lemma pat_vprot_cases: "amd64_pat_vprot w level \<in> {0, 0x10, 0x20, 0x30}"
  by (simp add: amd64_pat_vprot_def vprot_defs)

lemma entry_vprot_seen: "vprot_seen (pmentry_vprot w level) = pmentry_vprot w level"
  using pat_vprot_cases [of w level] unfolding pmentry_vprot_def Let_def
  by (elim insertE) (simp_all add: vprot_seen_def vprot_defs)

subsection \<open>Splitting a large page\<close>

definition pte_index :: "u64 \<Rightarrow> nat \<Rightarrow> nat" where
  "pte_index virt level = unat (drop_bit (pmentry_level_shift level) virt AND PMENTRY_LEVEL_MASK)"

text \<open>Where an entry of a level takes an address, and with which protection.\<close>

definition translate :: "u64 \<times> nat \<Rightarrow> u64 \<Rightarrow> u64 \<times> u32" where
  "translate leaf virt =
     (case leaf of (entry, level) \<Rightarrow>
        (pmentry_address entry level + (virt AND (pmentry_level_size level - 1)), pmentry_vprot entry level))"

lemma level_mask: "PMENTRY_LEVEL_MASK = mask 9"
  by (simp add: PMENTRY_LEVEL_MASK_def mask_eq_exp_minus_1)

lemma pte_index_less: "pte_index virt level < 512"
proof -
  have "unat (take_bit 9 w) < 2 ^ 9" for w :: u64
    unfolding unsigned_take_bit_eq by (rule take_bit_nat_less_exp)
  then show ?thesis by (simp add: pte_index_def level_mask flip: take_bit_eq_mask)
qed

lemma of_nat_pte_index: "of_nat (pte_index virt level) = take_bit 9 (drop_bit (pmentry_level_shift level) virt)"
  by (simp add: pte_index_def level_mask flip: take_bit_eq_mask)

lemma split_step: "0 < level \<Longrightarrow> pmentry_level_shift (Suc level) = pmentry_level_shift level + 9"
  by (cases level) (simp_all add: pmentry_level_shift_def PMENTRY_LEVEL_BITS_def)

lemma level_size_mult: "w * pmentry_level_size level = push_bit (pmentry_level_shift level) w"
  by (simp add: pmentry_level_size_def push_bit_eq_mult)

lemma frame_alignedI: "(\<And>k. bit a k \<Longrightarrow> pmentry_level_shift level \<le> k \<and> k < 52) \<Longrightarrow> frame_aligned level a"
proof -
  assume le: "\<And>k. bit a k \<Longrightarrow> pmentry_level_shift level \<le> k \<and> k < 52"
  have "take_bit (pmentry_level_shift level) a = 0" by (rule bit_eqI) (auto simp: bit_take_bit_iff dest!: le)
  moreover have "take_bit 52 a = a" by (rule bit_eqI) (auto simp: bit_take_bit_iff dest: le)
  ultimately show ?thesis by (simp add: frame_aligned_def)
qed

text \<open>The address of the entry of \<open>level\<close> that takes over from one of the level above.\<close>

definition split_address :: "u64 \<Rightarrow> u64 \<Rightarrow> nat \<Rightarrow> u64" where
  "split_address w virt level = pmentry_address w (Suc level) + of_nat (pte_index virt level) * pmentry_level_size level"

lemma bit_split_address:
  assumes "0 < level"
  shows "bit (split_address w virt level) k \<longleftrightarrow> bit (pmentry_address w (Suc level)) k \<or>
      pmentry_level_shift level \<le> k \<and> k < pmentry_level_shift (Suc level) \<and> bit virt k"
proof -
  let ?s = "pmentry_level_shift level"
  have p: "bit (push_bit ?s (take_bit 9 (drop_bit ?s virt))) k \<longleftrightarrow> ?s \<le> k \<and> k < pmentry_level_shift (Suc level) \<and> bit virt k" for k
    unfolding split_step [OF assms] by (auto simp: bit_push_bit_iff bit_take_bit_iff bit_drop_bit_eq dest: bit_imp_le_length)
  have "split_address w virt level = pmentry_address w (Suc level) OR push_bit ?s (take_bit 9 (drop_bit ?s virt))"
    unfolding split_address_def of_nat_pte_index level_size_mult
    by (rule disjunctive_add) (auto simp only: p bit_address)
  then show ?thesis by (simp only: bit_or_iff p)
qed

lemma translate_bit:
  "bit (fst (translate (w, level) virt)) k \<longleftrightarrow> bit (pmentry_address w level) k \<or> k < pmentry_level_shift level \<and> bit virt k"
proof -
  have m: "bit (virt AND mask (pmentry_level_shift level)) k \<longleftrightarrow> k < pmentry_level_shift level \<and> bit virt k" for k
    by (auto simp: bit_and_iff bit_mask_iff dest: bit_imp_le_length)
  have "pmentry_address w level + (virt AND mask (pmentry_level_shift level)) = pmentry_address w level OR (virt AND mask (pmentry_level_shift level))"
    by (rule disjunctive_add) (auto simp only: bit_address m)
  then show ?thesis
    by (simp only: translate_def prod.case fst_conv level_size_mask bit_or_iff m)
qed

lemma split_translate:
  assumes level: "0 < level" "level < 5"
  shows "translate (pmentry_setup (split_address w virt level) (pmentry_vprot w (Suc level)) level, level) virt = translate (w, Suc level) virt"
proof -
  let ?a = "split_address w virt level"
  have step: "pmentry_level_shift (Suc level) = pmentry_level_shift level + 9" and le: "pmentry_level_shift (Suc level) \<le> 48"
    using split_step [OF level(1)] level_shift_bounds [of "Suc level"] level by simp_all
  have fa: "frame_aligned level ?a"
    by (rule frame_alignedI) (use step le in \<open>auto simp: bit_split_address [OF level(1)] bit_address\<close>)
  note sa = setup_address [OF level(1) fa] and sv = setup_vprot [OF level(1) fa]
  have "fst (translate (pmentry_setup ?a (pmentry_vprot w (Suc level)) level, level) virt) = fst (translate (w, Suc level) virt)"
    by (rule bit_eqI) (use step in \<open>auto simp: translate_bit sa bit_split_address [OF level(1)] bit_address\<close>)
  then show ?thesis
    by (intro prod_eqI) (simp_all add: translate_def sv entry_vprot_seen)
qed

end
