(* ===== verification/Pmap.thy ===== *)
theory Pmap
  imports Pmentry
begin

text \<open>
  Page tables, \<^verbatim>\<open>kernel/mm/pmap.c\<close>. A table is the list of its 512 entries; an entry that \<^verbatim>\<open>pmentry_table\<close> made is
  the table it points to, any other one is its word. As every table hangs off one entry, this is
  the memory the page tables occupy. \<open>mem\<close> is the number of pages that \<^verbatim>\<open>pslab_alloc_phys\<close> gives before
  it fails. Functions that loop until they meet a page-sized entry are partial functions; they are
  proved to return, and a failed \<^verbatim>\<open>kassert\<close>, which panics, is a call that does not. Flushing TLBs is machine code.
\<close>

datatype pte = Entry u64 | Table "pte list"

record pmap =
  num_levels :: nat
  root :: "pte list"

definition pte_valid :: "pte \<Rightarrow> bool" where
  "pte_valid e = (case e of Entry w \<Rightarrow> pmentry_valid w | Table _ \<Rightarrow> True)"

definition pte_leaf :: "pte \<Rightarrow> nat \<Rightarrow> bool" where
  "pte_leaf e level = (case e of Entry w \<Rightarrow> pmentry_leaf w level | Table _ \<Rightarrow> level = 1)"

definition empty_table :: "pte list" where
  "empty_table = replicate PAGEMAP_SIZE (Entry PMENTRY_NULL)"

definition pmentry_get :: "nat \<Rightarrow> pte \<Rightarrow> (pte list \<times> nat) option" where
  "pmentry_get mem e =
     (case e of
        Table t \<Rightarrow> Some (t, mem)
      | Entry w \<Rightarrow> if pmentry_valid w then None else if mem > 0 then Some (empty_table, mem - 1) else None)"

text \<open>
  The walk down to an entry, without allocation: the entry, if the tables reach so far, and the level it is at or the
  table is missing at.
\<close>

function pmentry_walk :: "u64 \<Rightarrow> nat \<Rightarrow> nat \<Rightarrow> pte list \<Rightarrow> pte option \<times> nat" where
  "pmentry_walk virt leaf_level level table =
     (if level > leaf_level then
        let e = table ! pte_index virt level
        in if pte_valid e \<and> pte_leaf e level then (Some e, level)
           else (case e of Table t \<Rightarrow> pmentry_walk virt leaf_level (level - 1) t | Entry _ \<Rightarrow> (None, level))
      else (Some (table ! pte_index virt level), level))"
  by pat_completeness auto
termination
  by (relation "measure (\<lambda>(_, _, level, _). level)") auto

declare pmentry_walk.simps [simp del]

text \<open>The tables the walk adds when it allocates, and whether it got through.\<close>

function walk_allocate :: "u64 \<Rightarrow> nat \<Rightarrow> nat \<Rightarrow> nat \<Rightarrow> pte list \<Rightarrow> bool \<times> nat \<times> pte list" where
  "walk_allocate virt leaf_level level mem table =
     (if level > leaf_level then
        let i = pte_index virt level; e = table ! i
        in if pte_valid e \<and> pte_leaf e level then (True, mem, table)
           else (case pmentry_get mem e of
              None \<Rightarrow> (False, mem, table)
            | Some (t, mem) \<Rightarrow>
                (case walk_allocate virt leaf_level (level - 1) mem t of (found, mem, t) \<Rightarrow> (found, mem, table[i := Table t])))
      else (True, mem, table))"
  by pat_completeness auto
termination
  by (relation "measure (\<lambda>(_, _, level, _). level)") auto

declare walk_allocate.simps [simp del]

text \<open>Writing through the pointer of a walk that ended at \<open>target\<close>.\<close>

function pmentry_store :: "u64 \<Rightarrow> nat \<Rightarrow> pte \<Rightarrow> nat \<Rightarrow> pte list \<Rightarrow> pte list" where
  "pmentry_store virt target e level table =
     (let i = pte_index virt level
      in if level > target then
           (case table ! i of Table t \<Rightarrow> table[i := Table (pmentry_store virt target e (level - 1) t)] | Entry _ \<Rightarrow> table)
         else table[i := e])"
  by pat_completeness auto
termination
  by (relation "measure (\<lambda>(_, _, _, level, _). level)") auto

declare pmentry_store.simps [simp del]

definition split_large_nolock :: "nat \<Rightarrow> pte \<Rightarrow> nat \<Rightarrow> (pte \<times> nat) option" where
  "split_large_nolock mem e level =
     (if mem = 0 then None
      else case e of
        Entry w \<Rightarrow>
          let base = pmentry_address w level; step = pmentry_level_size (level - 1); vprot = pmentry_vprot w level
          in Some (Table (map (\<lambda>i. Entry (pmentry_setup (base + of_nat i * step) vprot (level - 1))) [0..<PAGEMAP_SIZE]), mem - 1)
      | Table _ \<Rightarrow> None)"

definition store_at :: "u64 \<Rightarrow> nat \<Rightarrow> pte \<Rightarrow> pmap \<Rightarrow> pmap" where
  "store_at virt level e pm = pm\<lparr>root := pmentry_store virt level e (num_levels pm) (root pm)\<rparr>"

partial_function (option) pmentry_walk_page_nolock :: "u64 \<Rightarrow> nat \<Rightarrow> pmap \<Rightarrow> (unit result \<times> nat \<times> pmap) option" where
  "pmentry_walk_page_nolock virt mem pm =
     (case pmentry_walk virt 1 (num_levels pm) (root pm) of
        (None, _) \<Rightarrow> Some (Inl ENOENT, mem, pm)
      | (Some e, level) \<Rightarrow>
          if \<not> pte_valid e then Some (Inl ENOENT, mem, pm)
          else if level = 1 then Some (Inr (), mem, pm)
          else (case split_large_nolock mem e level of
              None \<Rightarrow> Some (Inl ENOMEM, mem, pm)
            | Some (t, mem) \<Rightarrow> pmentry_walk_page_nolock virt mem (store_at virt level t pm)))"

subsection \<open>The operations\<close>

definition pmap_map :: "u64 \<Rightarrow> u64 \<Rightarrow> u32 \<Rightarrow> nat \<Rightarrow> pmap \<Rightarrow> unit result \<times> nat \<times> pmap" where
  "pmap_map virt phys vprot mem pm =
     (case walk_allocate virt 1 (num_levels pm) mem (root pm) of (found, mem, table) \<Rightarrow>
        let pm = pm\<lparr>root := table\<rparr>
        in if \<not> found then (Inl ENOMEM, mem, pm)
           else case pmentry_walk virt 1 (num_levels pm) table of
             (None, _) \<Rightarrow> (Inl ENOMEM, mem, pm)
           | (Some e, level) \<Rightarrow>
               if pte_valid e then (Inl EEXIST, mem, pm)
               else (Inr (), mem, store_at virt level (Entry (pmentry_setup (page_align phys) vprot 1)) pm))"

definition pmap_patch_noflush :: "u64 \<Rightarrow> u32 \<Rightarrow> nat \<Rightarrow> pmap \<Rightarrow> (unit result \<times> nat \<times> pmap) option" where
  "pmap_patch_noflush virt vprot mem pm =
     (case pmentry_walk_page_nolock virt mem pm of
        None \<Rightarrow> None
      | Some (retval, mem, pm) \<Rightarrow>
          Some (case retval of
              Inl err \<Rightarrow> (Inl (if err = ENOENT then EINVAL else err), mem, pm)
            | Inr _ \<Rightarrow>
                (case fst (pmentry_walk virt 1 (num_levels pm) (root pm)) of
                   Some (Entry w) \<Rightarrow> (Inr (), mem, store_at virt 1 (Entry (pmentry_setup (pmentry_address w 1) vprot 1)) pm)
                 | _ \<Rightarrow> (Inr (), mem, pm))))"

definition pmap_unmap_noflush :: "u64 \<Rightarrow> nat \<Rightarrow> pmap \<Rightarrow> (unit result \<times> nat \<times> pmap) option" where
  "pmap_unmap_noflush virt mem pm =
     (case pmentry_walk_page_nolock virt mem pm of
        None \<Rightarrow> None
      | Some (retval, mem, pm) \<Rightarrow>
          Some (retval, mem, if retval = Inr () then store_at virt 1 (Entry PMENTRY_NULL) pm else pm))"

definition pmap_resolve_address :: "pmap \<Rightarrow> u64 \<Rightarrow> u64" where
  "pmap_resolve_address pm virt =
     (case pmentry_walk virt 1 (num_levels pm) (root pm) of
        (Some (Entry w), level) \<Rightarrow>
          if pmentry_valid w then pmentry_address w level + (virt AND (pmentry_level_size level - 1)) else 0
      | _ \<Rightarrow> 0)"

definition pmap_resolve_vprot :: "pmap \<Rightarrow> u64 \<Rightarrow> u32" where
  "pmap_resolve_vprot pm virt =
     (case pmentry_walk virt 1 (num_levels pm) (root pm) of
        (Some (Entry w), level) \<Rightarrow> if pmentry_valid w then pmentry_vprot w level else 0
      | _ \<Rightarrow> 0)"

subsection \<open>Ranges\<close>

fun pick_from :: "nat \<Rightarrow> u64 \<Rightarrow> u64 \<Rightarrow> u64 \<Rightarrow> nat" where
  "pick_from level virt phys len =
     (if level > 1 then
        let m = pmentry_level_size level - 1
        in if (virt OR phys) AND m = 0 \<and> len > m then level else pick_from (level - 1) virt phys len
      else 1)"

declare pick_from.simps [simp del]

definition pick_leaf_level :: "nat \<Rightarrow> u64 \<Rightarrow> u64 \<Rightarrow> u64 \<Rightarrow> u32 \<Rightarrow> nat" where
  "pick_leaf_level max_leaf_level virt phys len vprot =
     (if vprot AND VPROT_USER \<noteq> 0 then 1 else pick_from max_leaf_level virt phys len)"

partial_function (option) map_range_from :: "nat \<Rightarrow> u64 \<Rightarrow> u64 \<Rightarrow> u64 \<Rightarrow> u32 \<Rightarrow> nat \<Rightarrow> pmap \<Rightarrow> (unit result \<times> nat \<times> pmap) option" where
  "map_range_from max_leaf_level virt phys len vprot mem pm =
     (if len = 0 then Some (Inr (), mem, pm)
      else
        let level = pick_leaf_level max_leaf_level virt phys len vprot
        in case walk_allocate virt level (num_levels pm) mem (root pm) of (found, mem, table) \<Rightarrow>
             let pm = pm\<lparr>root := table\<rparr>
             in if \<not> found then Some (Inl ENOMEM, mem, pm)
                else case pmentry_walk virt level (num_levels pm) table of
                  (None, _) \<Rightarrow> Some (Inl ENOMEM, mem, pm)
                | (Some e, at) \<Rightarrow>
                    if pte_valid e then Some (Inl EEXIST, mem, pm)
                    else
                      let step = pmentry_level_size level
                      in map_range_from max_leaf_level (virt + step) (phys + step) (len - step) vprot mem
                           (store_at virt at (Entry (pmentry_setup phys vprot level)) pm))"

definition pmap_map_range :: "nat \<Rightarrow> u64 \<Rightarrow> u64 \<Rightarrow> u64 \<Rightarrow> u32 \<Rightarrow> nat \<Rightarrow> pmap \<Rightarrow> (unit result \<times> nat \<times> pmap) option" where
  "pmap_map_range max_leaf_level virt phys len vprot mem pm =
     (if (virt OR phys OR len) AND (PAGE_SIZE - 1) = 0 then map_range_from max_leaf_level virt phys len vprot mem pm else None)"

partial_function (option) unmap_range_from :: "u64 \<Rightarrow> u64 \<Rightarrow> nat \<Rightarrow> pmap \<Rightarrow> (unit result \<times> nat \<times> pmap) option" where
  "unmap_range_from virt end_virt mem pm =
     (if virt < end_virt then
        case pmentry_walk virt 1 (num_levels pm) (root pm) of (entry, level) \<Rightarrow>
          let m = pmentry_level_size level - 1
          in case entry of
               None \<Rightarrow> unmap_range_from ((virt OR m) + 1) end_virt mem pm
             | Some e \<Rightarrow>
                 if \<not> pte_valid e then unmap_range_from ((virt OR m) + 1) end_virt mem pm
                 else if virt AND m = 0 \<and> end_virt - virt > m
                 then unmap_range_from (virt + m + 1) end_virt mem (store_at virt level (Entry PMENTRY_NULL) pm)
                 else (case split_large_nolock mem e level of
                     None \<Rightarrow> Some (Inl ENOMEM, mem, pm)
                   | Some (t, mem) \<Rightarrow> unmap_range_from virt end_virt mem (store_at virt level t pm))
      else Some (Inr (), mem, pm))"

definition pmap_unmap_range_noflush :: "u64 \<Rightarrow> u64 \<Rightarrow> nat \<Rightarrow> pmap \<Rightarrow> (unit result \<times> nat \<times> pmap) option" where
  "pmap_unmap_range_noflush virt len mem pm =
     (if (virt OR len) AND (PAGE_SIZE - 1) = 0 then unmap_range_from virt (virt + len) mem pm else None)"

subsection \<open>Tables as trees\<close>

fun wf_table :: "nat \<Rightarrow> pte list \<Rightarrow> bool" where
  "wf_table 0 t = False"
| "wf_table (Suc level) t \<longleftrightarrow> length t = 512 \<and>
     (\<forall>e \<in> set t. case e of Entry w \<Rightarrow> pmentry_valid w \<longrightarrow> pmentry_leaf w (Suc level) | Table t' \<Rightarrow> wf_table level t')"

definition wf_pte :: "nat \<Rightarrow> pte \<Rightarrow> bool" where
  "wf_pte level e = (case e of Entry w \<Rightarrow> pmentry_valid w \<longrightarrow> pmentry_leaf w level | Table t \<Rightarrow> wf_table (level - 1) t)"

definition wf_pmap :: "pmap \<Rightarrow> bool" where
  "wf_pmap pm \<longleftrightarrow> 0 < num_levels pm \<and> num_levels pm \<le> 5 \<and> wf_table (num_levels pm) (root pm)"

text \<open>The entry that maps an address, with its level.\<close>

fun look :: "nat \<Rightarrow> pte list \<Rightarrow> u64 \<Rightarrow> (u64 \<times> nat) option" where
  "look 0 t virt = None"
| "look (Suc level) t virt =
     (case t ! pte_index virt (Suc level) of
        Entry w \<Rightarrow> if pmentry_valid w then Some (w, Suc level) else None
      | Table t' \<Rightarrow> look level t' virt)"

definition look_pte :: "nat \<Rightarrow> pte \<Rightarrow> u64 \<Rightarrow> (u64 \<times> nat) option" where
  "look_pte level e virt =
     (case e of Entry w \<Rightarrow> if pmentry_valid w then Some (w, level) else None | Table t \<Rightarrow> look (level - 1) t virt)"

lemma look_Suc: "look (Suc level) t virt = look_pte (Suc level) (t ! pte_index virt (Suc level)) virt"
  by (simp add: look_pte_def split: pte.split)

lemma wf_table_Suc: "wf_table (Suc level) t \<longleftrightarrow> length t = 512 \<and> (\<forall>e \<in> set t. wf_pte (Suc level) e)"
  unfolding wf_table.simps wf_pte_def diff_Suc_1 ..

lemma wf_nth: "wf_table (Suc level) t \<Longrightarrow> wf_pte (Suc level) (t ! pte_index virt k)"
  using pte_index_less [of virt k] nth_mem [of "pte_index virt k" t] unfolding wf_table_Suc by auto

lemma wf_update: "wf_table (Suc level) t \<Longrightarrow> wf_pte (Suc level) e \<Longrightarrow> wf_table (Suc level) (t[i := e])"
  unfolding wf_table_Suc by (auto dest!: set_update_subset_insert [THEN subsetD])

lemma wf_empty [simp]: "0 < level \<Longrightarrow> wf_table level empty_table"
  by (cases level) (simp_all add: empty_table_def PAGEMAP_SIZE_def)

lemma look_empty [simp]: "look level empty_table virt = None"
  using pte_index_less [of virt level] by (cases level) (simp_all add: empty_table_def PAGEMAP_SIZE_def)

text \<open>Two addresses take the same way from \<open>level\<close> down to level \<open>k\<close>.\<close>

definition same_way :: "nat \<Rightarrow> nat \<Rightarrow> u64 \<Rightarrow> u64 \<Rightarrow> bool" where
  "same_way level k a b \<longleftrightarrow> (\<forall>j. k \<le> j \<and> j \<le> level \<longrightarrow> pte_index a j = pte_index b j)"

fun reaches :: "u64 \<Rightarrow> nat \<Rightarrow> pte \<Rightarrow> nat \<Rightarrow> pte list \<Rightarrow> bool" where
  "reaches virt k e 0 t \<longleftrightarrow> False"
| "reaches virt k e (Suc level) t \<longleftrightarrow>
     (if Suc level = k then t ! pte_index virt k = e
      else (case t ! pte_index virt (Suc level) of Table t' \<Rightarrow> reaches virt k e level t' | Entry _ \<Rightarrow> False))"

lemma same_way_Suc: "k \<le> level \<Longrightarrow> same_way (Suc level) k a b \<longleftrightarrow> pte_index a (Suc level) = pte_index b (Suc level) \<and> same_way level k a b"
  by (auto simp: same_way_def le_Suc_eq)

lemma reaches_le: "reaches virt k e level t \<Longrightarrow> k \<le> level \<and> 0 < k"
  by (induction level arbitrary: t) (auto split: if_splits pte.splits intro: le_SucI)

lemma store_correct:
  "wf_table level t \<Longrightarrow> reaches virt k old level t \<Longrightarrow> wf_pte k e \<Longrightarrow>
    wf_table level (pmentry_store virt k e level t) \<and> wf_pte k old \<and>
    look level (pmentry_store virt k e level t) virt' = (if same_way level k virt virt' then look_pte k e virt' else look level t virt') \<and>
    (same_way level k virt virt' \<longrightarrow> look level t virt' = look_pte k old virt')"
proof (induction level arbitrary: t)
  case (Suc level)
  let ?i = "pte_index virt (Suc level)" and ?i' = "pte_index virt' (Suc level)"
  have len: "length t = 512" using Suc.prems(1) by simp
  have less: "?i < length t" "?i' < length t" using pte_index_less [of virt "Suc level"] pte_index_less [of virt' "Suc level"] len by simp_all
  show ?case
  proof (cases "Suc level = k")
    case True
    have store: "pmentry_store virt k e (Suc level) t = t[?i := e]"
      using True by (subst pmentry_store.simps) (simp add: Let_def)
    have old: "t ! ?i = old" using Suc.prems(2) unfolding True [symmetric] by simp
    have "same_way (Suc level) k virt virt' \<longleftrightarrow> ?i = ?i'" using True by (auto simp: same_way_def)
    then show ?thesis
      unfolding store using Suc.prems wf_update [of level t e ?i] wf_nth [of level t virt "Suc level"] less old True
      by (auto simp: look_Suc nth_list_update simp del: wf_table.simps look.simps)
  next
    case False
    then obtain t' where t': "t ! ?i = Table t'" "reaches virt k old level t'"
      using Suc.prems(2) by (auto split: pte.splits)
    have k: "k \<le> level" using reaches_le [OF t'(2)] by simp
    have wf': "wf_table level t'" using wf_nth [OF Suc.prems(1), of virt "Suc level"] t'(1) by (simp add: wf_pte_def)
    note ih = Suc.IH [OF wf' t'(2) Suc.prems(3)]
    have store: "pmentry_store virt k e (Suc level) t = t[?i := Table (pmentry_store virt k e level t')]"
      using k t'(1) by (subst pmentry_store.simps) (simp add: Let_def)
    have wf: "wf_table (Suc level) (t[?i := Table (pmentry_store virt k e level t')])"
      using ih by (intro wf_update [OF Suc.prems(1)]) (simp add: wf_pte_def)
    show ?thesis
      unfolding store same_way_Suc [OF k] using ih wf less t'(1)
      by (auto simp: nth_list_update simp del: wf_table.simps)
  qed
qed simp

text \<open>The walk ends at the entry it reaches, or where a table is missing.\<close>

lemma walk_reaches:
  "wf_table level t \<Longrightarrow> 0 < leaf \<Longrightarrow> leaf \<le> level \<Longrightarrow>
    (case pmentry_walk virt leaf level t of
       (Some e, k) \<Rightarrow> reaches virt k e level t \<and> leaf \<le> k \<and> (leaf < k \<longrightarrow> pte_valid e) \<and> (k = leaf \<or> (\<exists>w. e = Entry w)) \<and> look level t virt = look_pte k e virt
     | (None, k) \<Rightarrow> leaf < k \<and> k \<le> level \<and> look level t virt = None)"
proof (induction level arbitrary: t)
  case (Suc level)
  let ?e = "t ! pte_index virt (Suc level)"
  have wf: "wf_pte (Suc level) ?e" by (rule wf_nth [OF Suc.prems(1)])
  consider "Suc level = leaf" | "leaf < Suc level" "pte_valid ?e \<and> pte_leaf ?e (Suc level)"
    | t' where "leaf < Suc level" "\<not> (pte_valid ?e \<and> pte_leaf ?e (Suc level))" "?e = Table t'"
    | w where "leaf < Suc level" "\<not> (pte_valid ?e \<and> pte_leaf ?e (Suc level))" "?e = Entry w"
    using Suc.prems(3) by (cases ?e) fastforce+
  then show ?case
  proof cases
    case 1
    then have "pmentry_walk virt leaf (Suc level) t = (Some ?e, Suc level)" by (subst pmentry_walk.simps) simp
    then show ?thesis unfolding 1 [symmetric] by (simp add: look_Suc del: look.simps)
  next
    case 2
    then have "pmentry_walk virt leaf (Suc level) t = (Some ?e, Suc level)" by (subst pmentry_walk.simps) (simp add: Let_def)
    moreover have "\<exists>w. ?e = Entry w" using 2 Suc.prems(2) by (auto simp: pte_leaf_def split: pte.splits)
    ultimately show ?thesis using 2 by (simp add: look_Suc del: look.simps)
  next
    case 3
    then have "pmentry_walk virt leaf (Suc level) t = pmentry_walk virt leaf level t'" by (subst pmentry_walk.simps) (auto simp: Let_def)
    moreover have "wf_table level t'" using wf 3 by (simp add: wf_pte_def)
    moreover have le: "leaf \<le> level" using 3 by simp
    ultimately show ?thesis
      using Suc.IH [of t'] 3 Suc.prems(2) reaches_le [of virt _ _ level t'] by (fastforce split: prod.splits option.splits)
  next
    case 4
    then have "pmentry_walk virt leaf (Suc level) t = (None, Suc level)" by (subst pmentry_walk.simps) (simp add: Let_def)
    moreover have "\<not> pmentry_valid w" using 4 wf by (auto simp: wf_pte_def pte_valid_def pte_leaf_def)
    ultimately show ?thesis using 4 by (simp add: look_Suc look_pte_def del: look.simps)
  qed
qed simp

lemma walk_allocate_correct:
  "wf_table level t \<Longrightarrow> 0 < leaf \<Longrightarrow> leaf \<le> level \<Longrightarrow>
    (case walk_allocate virt leaf level mem t of (found, mem', t') \<Rightarrow>
       wf_table level t' \<and> (\<forall>v. look level t' v = look level t v) \<and> (found \<longrightarrow> fst (pmentry_walk virt leaf level t') \<noteq> None) \<and>
       (level - leaf \<le> mem \<longrightarrow> found) \<and> mem \<le> mem' + (level - leaf))"
proof (induction level arbitrary: t mem)
  case (Suc level)
  let ?i = "pte_index virt (Suc level)" and ?e = "t ! pte_index virt (Suc level)"
  have wf: "wf_pte (Suc level) ?e" by (rule wf_nth [OF Suc.prems(1)])
  have less: "?i < length t" using Suc.prems(1) pte_index_less [of virt "Suc level"] by simp
  show ?case
  proof (cases "leaf < Suc level \<and> \<not> (pte_valid ?e \<and> pte_leaf ?e (Suc level))")
    case False
    then have "walk_allocate virt leaf (Suc level) mem t = (True, mem, t)" "pmentry_walk virt leaf (Suc level) t = (Some ?e, Suc level)"
      by (subst walk_allocate.simps pmentry_walk.simps; auto simp: Let_def)+
    then show ?thesis using Suc.prems(1) by simp
  next
    case True
    show ?thesis
    proof (cases "pmentry_get mem ?e")
      case None
      have "walk_allocate virt leaf (Suc level) mem t = (False, mem, t)"
        using True None by (subst walk_allocate.simps) (auto simp: Let_def)
      moreover have "mem = 0"
        using None wf True by (auto simp: pmentry_get_def wf_pte_def pte_valid_def pte_leaf_def split: pte.splits if_splits)
      ultimately show ?thesis using Suc.prems(1) True by simp
    next
      case (Some x)
      then obtain t' mem1 where x: "pmentry_get mem ?e = Some (t', mem1)" by (cases x) simp
      have look: "look level t' v = look_pte (Suc level) ?e v" and wf': "wf_table level t'" and m: "mem \<le> Suc mem1" "mem1 \<le> mem" for v
        using x wf True Suc.prems(2) by (auto simp: pmentry_get_def look_pte_def wf_pte_def split: pte.splits if_splits)
      obtain found mem2 t2 where r: "walk_allocate virt leaf level mem1 t' = (found, mem2, t2)" by (cases "walk_allocate virt leaf level mem1 t'")
      have le: "leaf \<le> level" using True by simp
      note ih = Suc.IH [OF wf' Suc.prems(2) le, of mem1, unfolded r prod.case]
      have w: "walk_allocate virt leaf (Suc level) mem t = (found, mem2, t[?i := Table t2])"
        using True x r by (subst walk_allocate.simps) (auto simp: Let_def)
      have "wf_table (Suc level) (t[?i := Table t2])"
        using ih by (intro wf_update [OF Suc.prems(1)]) (simp add: wf_pte_def)
      moreover have "look (Suc level) (t[?i := Table t2]) v = look (Suc level) t v" for v
        using ih look [of v] less pte_index_less [of v "Suc level"]
        by (cases "pte_index v (Suc level) = ?i") (simp_all add: look_Suc look_pte_def del: look.simps)
      moreover have "pmentry_walk virt leaf (Suc level) (t[?i := Table t2]) = pmentry_walk virt leaf level t2"
        using True less Suc.prems(2) le by (subst pmentry_walk.simps) (simp add: Let_def pte_leaf_def)
      ultimately show ?thesis
        unfolding w using ih m le by auto
    qed
  qed
qed simp

subsection \<open>What the tables map\<close>

definition pmap_view :: "pmap \<Rightarrow> u64 \<Rightarrow> (u64 \<times> u32) option" where
  "pmap_view pm virt = map_option (\<lambda>leaf. translate leaf virt) (look (num_levels pm) (root pm) virt)"

definition same_page :: "pmap \<Rightarrow> u64 \<Rightarrow> u64 \<Rightarrow> bool" where
  "same_page pm a b \<longleftrightarrow> same_way (num_levels pm) 1 a b"

lemma resolve_view:
  assumes "wf_pmap pm"
  shows "pmap_resolve_address pm virt = (case pmap_view pm virt of Some (a, _) \<Rightarrow> a | None \<Rightarrow> 0)"
    "pmap_resolve_vprot pm virt = (case pmap_view pm virt of Some (_, vprot) \<Rightarrow> vprot | None \<Rightarrow> 0)"
proof -
  have wf: "wf_table (num_levels pm) (root pm)" "Suc 0 \<le> num_levels pm" using assms by (simp_all add: wf_pmap_def)
  note walk = walk_reaches [OF wf(1) _ wf(2), of virt]
  have one: "e = Entry w \<or> False" if "reaches virt (Suc 0) e (num_levels pm) (root pm)" "e = Table t" for e t w
  proof -
    have "wf_pte (Suc 0) (Entry 0)" by (simp add: wf_pte_def pmentry_leaf_def)
    then have "wf_pte (Suc 0) e" using store_correct [OF wf(1) that(1)] by blast
    then show ?thesis using that(2) by (simp add: wf_pte_def)
  qed
  show "pmap_resolve_address pm virt = (case pmap_view pm virt of Some (a, _) \<Rightarrow> a | None \<Rightarrow> 0)"
    using walk one by (auto simp: pmap_resolve_address_def pmap_view_def look_pte_def translate_def split: prod.splits option.splits pte.splits)
  show "pmap_resolve_vprot pm virt = (case pmap_view pm virt of Some (_, vprot) \<Rightarrow> vprot | None \<Rightarrow> 0)"
    using walk one by (auto simp: pmap_resolve_vprot_def pmap_view_def look_pte_def translate_def split: prod.splits option.splits pte.splits)
qed

lemma store_view:
  assumes "wf_pmap pm" "reaches virt k old (num_levels pm) (root pm)" "wf_pte k e"
  shows "wf_pmap (store_at virt k e pm)" "num_levels (store_at virt k e pm) = num_levels pm"
    "pmap_view (store_at virt k e pm) v =
      (if same_way (num_levels pm) k virt v then map_option (\<lambda>leaf. translate leaf v) (look_pte k e v) else pmap_view pm v)"
    "wf_pte k old" "same_way (num_levels pm) k virt v \<Longrightarrow> pmap_view pm v = map_option (\<lambda>leaf. translate leaf v) (look_pte k old v)"
  using assms(1) store_correct [OF _ assms(2,3), of v] by (auto simp: wf_pmap_def store_at_def pmap_view_def)

lemma bit_page_align: "bit (page_align phys) k \<longleftrightarrow> bit phys k \<and> 12 \<le> k"
proof -
  have "page_align phys = phys AND NOT (mask 12)" by (simp add: page_align_def align_floor_def PAGE_SIZE_def page_mask [simplified])
  then show ?thesis by (auto simp: bit_and_iff bit_not_iff bit_mask_iff dest: bit_imp_le_length)
qed

text \<open>The frame an entry can name: the bits of an address above the offset that the machine has.\<close>

definition frame_of :: "u64 \<Rightarrow> u64" where
  "frame_of phys = phys AND AMD64_PML_ADDRESS_MASK"

lemma setup_frame: "pmentry_setup (page_align phys) vprot 1 = pmentry_setup (frame_of phys) vprot 1"
  by (rule bit_eqI) (auto simp: bit_setup frame_of_def bit_and_iff bit_address_mask bit_page_align)

lemma frame_aligned_frame_of: "frame_aligned 1 (frame_of phys)"
  by (rule frame_alignedI) (simp add: frame_of_def bit_and_iff bit_address_mask pmentry_level_shift_def PMENTRY_LVL1_SHIFT_def)

lemma translate_setup:
  "0 < level \<Longrightarrow> frame_aligned level a \<Longrightarrow>
    translate (pmentry_setup a vprot level, level) virt = (a + (virt AND (pmentry_level_size level - 1)), vprot_seen vprot)"
  by (simp add: translate_def setup_address setup_vprot)

lemma map_correct:
  assumes wf: "wf_pmap pm" and r: "pmap_map virt phys vprot mem pm = (res, mem', pm')"
  shows "wf_pmap pm' \<and> num_levels pm' = num_levels pm \<and> mem \<le> mem' + (num_levels pm - 1) \<and>
    (case res of
       Inr _ \<Rightarrow> pmap_view pm virt = None \<and>
         (\<forall>v. pmap_view pm' v = (if same_page pm virt v then Some (frame_of phys + page_offset v, vprot_seen vprot) else pmap_view pm v))
     | Inl err \<Rightarrow> (\<forall>v. pmap_view pm' v = pmap_view pm v) \<and>
         (err = EEXIST \<and> pmap_view pm virt \<noteq> None \<or> err = ENOMEM \<and> mem < num_levels pm - 1))"
proof -
  let ?n = "num_levels pm"
  have n: "Suc 0 \<le> ?n" and t: "wf_table ?n (root pm)" using wf by (simp_all add: wf_pmap_def)
  obtain found mem1 t1 where a: "walk_allocate virt 1 ?n mem (root pm) = (found, mem1, t1)" by (cases "walk_allocate virt 1 ?n mem (root pm)")
  let ?pm = "pm\<lparr>root := t1\<rparr>"
  have t1: "wf_table ?n t1" "\<And>v. look ?n t1 v = look ?n (root pm) v" "found \<Longrightarrow> fst (pmentry_walk virt 1 ?n t1) \<noteq> None" "?n - 1 \<le> mem \<Longrightarrow> found"
      "mem \<le> mem1 + (?n - 1)"
    using walk_allocate_correct [OF t _ n, of virt mem] a by simp_all
  have wf1: "wf_pmap ?pm" and same: "pmap_view ?pm v = pmap_view pm v" for v
    using wf t1(1,2) by (simp_all add: wf_pmap_def pmap_view_def)
  show ?thesis
  proof (cases found)
    case False
    then have "mem < ?n - 1" using t1(4) by (cases "?n - 1 \<le> mem") auto
    then show ?thesis using False r a wf1 same t1(5) by (auto simp: pmap_map_def Let_def)
  next
    case True
    then obtain e k where w: "pmentry_walk virt 1 ?n t1 = (Some e, k)" using t1(3) by (cases "pmentry_walk virt 1 ?n t1") auto
    have e: "reaches virt k e ?n t1" "1 < k \<Longrightarrow> pte_valid e" "look ?n t1 virt = look_pte k e virt"
      using walk_reaches [OF t1(1) _ n, of virt] w by simp_all
    have k: "0 < k" using reaches_le [OF e(1)] by simp
    have null: "wf_pte k (Entry 0)" by (simp add: wf_pte_def pmentry_valid_def)
    have wfe: "wf_pte k e" using store_view(4) [OF wf1 _ null, of virt e] e(1) by simp
    show ?thesis
    proof (cases "pte_valid e")
      case valid: True
      have "look_pte k e virt \<noteq> None"
      proof (cases e)
        case (Entry w)
        then show ?thesis using valid by (simp add: look_pte_def pte_valid_def)
      next
        case (Table t')
        have "k = 1 \<or> (\<exists>w. e = Entry w)" using walk_reaches [OF t1(1) _ n, of virt] w by simp
        then show ?thesis using Table wfe by (simp add: wf_pte_def)
      qed
      then have "pmap_view pm virt \<noteq> None" using e(3) t1(2) [of virt] by (simp add: pmap_view_def)
      then show ?thesis using r a w True valid wf1 same t1(5) by (auto simp: pmap_map_def Let_def)
    next
      case invalid: False
      then have k1: "k = 1" using e(2) k by fastforce
      let ?w = "pmentry_setup (page_align phys) vprot 1"
      have "wf_pte 1 (Entry ?w)" by (simp add: wf_pte_def)
      note st = store_view [OF wf1 _ this, of virt e]
      have r': "res = Inr ()" "pm' = store_at virt 1 (Entry ?w) ?pm" "mem' = mem1"
        using r a w True invalid k1 by (simp_all add: pmap_map_def Let_def)
      have "look_pte k e virt = None" using invalid k1 wfe by (auto simp: look_pte_def pte_valid_def split: pte.splits)
      then have none: "pmap_view pm virt = None" using e(3) same [of virt] by (simp add: pmap_view_def)
      have size1: "pmentry_level_size 1 - 1 = PAGE_SIZE - 1"
        by (simp add: pmentry_level_size_def pmentry_level_shift_def PMENTRY_LVL1_SHIFT_def PAGE_SIZE_def push_bit_eq_mult)
      have "translate (?w, 1) v = (frame_of phys + page_offset v, vprot_seen vprot)" for v
        using translate_setup [OF _ frame_aligned_frame_of, of phys vprot v] size1 unfolding setup_frame by (simp add: page_offset_def)
      then have "pmap_view pm' v = (if same_page pm virt v then Some (frame_of phys + page_offset v, vprot_seen vprot) else pmap_view pm v)" for v
        using st(3) [of v] e(1) k1 same [of v] r'(2) by (simp add: look_pte_def same_page_def)
      then show ?thesis using st(1,2) e(1) k1 r' none t1(5) by simp
    qed
  qed
qed

text \<open>Splitting a large page leaves what is mapped as it was.\<close>

lemma split_pte:
  assumes "1 < level" "level \<le> 5" "split_large_nolock mem (Entry w) level = Some (t, mem')"
  shows "wf_pte level t" "\<exists>ts. t = Table ts" "pmentry_valid w \<Longrightarrow> map_option (\<lambda>leaf. translate leaf v) (look_pte level t v) = Some (translate (w, level) v)"
proof -
  obtain l where l: "level = Suc l" "0 < l" "l < 5" using assms(1,2) by (cases level) auto
  let ?f = "\<lambda>i. Entry (pmentry_setup (pmentry_address w level + of_nat i * pmentry_level_size l) (pmentry_vprot w level) l)"
  have t: "t = Table (map ?f [0..<512])"
    using assms(3) l(1) by (simp add: split_large_nolock_def Let_def PAGEMAP_SIZE_def split: if_splits)
  obtain k where k: "l = Suc k" using l(2) by (cases l) auto
  have "wf_table l (map ?f [0..<512])" unfolding k by simp
  then show "wf_pte level t" "\<exists>ts. t = Table ts" by (simp_all add: t wf_pte_def l(1))
  have "look_pte level t v = Some (pmentry_setup (split_address w v l) (pmentry_vprot w level) l, l)"
    using pte_index_less [of v l] unfolding t l(1) look_pte_def
    by (simp add: k split_address_def)
  then show "map_option (\<lambda>leaf. translate leaf v) (look_pte level t v) = Some (translate (w, level) v)"
    using split_translate [OF l(2,3), of w v] by (simp add: l(1))
qed

lemma walk_found:
  assumes "wf_pmap pm" "look (num_levels pm) (root pm) virt = Some (w, d)"
  shows "pmentry_walk virt 1 (num_levels pm) (root pm) = (Some (Entry w), d)" "reaches virt d (Entry w) (num_levels pm) (root pm)"
    "pmentry_valid w" "0 < d" "d \<le> num_levels pm"
proof -
  have wf: "wf_table (num_levels pm) (root pm)" "Suc 0 \<le> num_levels pm" using assms by (simp_all add: wf_pmap_def)
  obtain x k where walk: "pmentry_walk virt 1 (num_levels pm) (root pm) = (x, k)" by (cases "pmentry_walk virt 1 (num_levels pm) (root pm)")
  note r = walk_reaches [OF wf(1) _ wf(2), of virt]
  obtain e where x: "x = Some e" using r walk assms(2) by (cases x) auto
  have e: "reaches virt k e (num_levels pm) (root pm)" "k = 1 \<or> (\<exists>w. e = Entry w)" "look_pte k e virt = Some (w, d)"
    using r walk assms(2) x by auto
  have "wf_pte k (Entry 0)" by (simp add: wf_pte_def pmentry_valid_def)
  then have "wf_pte k e" using store_correct [OF wf(1) e(1)] by blast
  then have "\<exists>w. e = Entry w" using e(2) by (auto simp: wf_pte_def split: pte.splits)
  then have "e = Entry w" "k = d" "pmentry_valid w" using e(3) by (auto simp: look_pte_def split: if_splits)
  then show "pmentry_walk virt 1 (num_levels pm) (root pm) = (Some (Entry w), d)" "reaches virt d (Entry w) (num_levels pm) (root pm)"
      "pmentry_valid w" "0 < d" "d \<le> num_levels pm"
    using walk x e(1) reaches_le [OF e(1)] by simp_all
qed

lemma walk_not_found:
  assumes "wf_pmap pm" "look (num_levels pm) (root pm) virt = None"
  shows "case pmentry_walk virt 1 (num_levels pm) (root pm) of (Some e, _) \<Rightarrow> \<not> pte_valid e | (None, _) \<Rightarrow> True"
proof -
  have wf: "wf_table (num_levels pm) (root pm)" "Suc 0 \<le> num_levels pm" using assms by (simp_all add: wf_pmap_def)
  have "\<not> pte_valid e" if e: "reaches virt k e (num_levels pm) (root pm)" "k = 1 \<or> (\<exists>w. e = Entry w)" "look_pte k e virt = None" for e k
  proof -
    have "wf_pte k (Entry 0)" by (simp add: wf_pte_def pmentry_valid_def)
    then have "wf_pte k e" using store_correct [OF wf(1) e(1)] by blast
    then show ?thesis using e(2,3) by (auto simp: wf_pte_def look_pte_def pte_valid_def split: pte.splits if_splits)
  qed
  then show ?thesis using walk_reaches [OF wf(1) _ wf(2), of virt] assms(2) by (auto split: prod.splits option.splits)
qed

lemma same_way_refl [simp]: "same_way n k v v"
  by (simp add: same_way_def)

lemma split_view:
  assumes wf: "wf_pmap pm" and look: "look (num_levels pm) (root pm) virt = Some (w, Suc d)" "0 < d"
    and split: "split_large_nolock mem (Entry w) (Suc d) = Some (t, mem')"
  defines "pm' \<equiv> store_at virt (Suc d) t pm"
  shows "wf_pmap pm'" "num_levels pm' = num_levels pm" "pmap_view pm' v = pmap_view pm v"
    "\<exists>w'. look (num_levels pm') (root pm') virt = Some (w', d)"
proof -
  note f = walk_found [OF wf look(1)]
  have d: "1 < Suc d" "Suc d \<le> 5" using look(2) f(5) wf by (simp_all add: wf_pmap_def)
  note sp = split_pte [OF d split]
  note st = store_view [OF wf f(2) sp(1)]
  show "wf_pmap pm'" "num_levels pm' = num_levels pm" unfolding pm'_def by (rule st(1), rule st(2))
  show "pmap_view pm' v = pmap_view pm v"
    unfolding pm'_def st(3) using st(5) [of v] sp(3) [OF f(3), of v] f(3) by (auto simp: look_pte_def)
  have "look (num_levels pm') (root pm') virt = look_pte (Suc d) t virt"
    using store_correct [OF _ f(2) sp(1), of virt] wf by (simp add: wf_pmap_def pm'_def store_at_def)
  moreover obtain ts where "t = Table ts" using sp(2) by blast
  moreover obtain k where "d = Suc k" using look(2) by (cases d) auto
  ultimately show "\<exists>w'. look (num_levels pm') (root pm') virt = Some (w', d)"
    using split pte_index_less [of virt d]
    by (auto simp: look_pte_def split_large_nolock_def Let_def PAGEMAP_SIZE_def split: if_splits)
qed

lemma walk_page_found:
  "wf_pmap pm \<Longrightarrow> look (num_levels pm) (root pm) virt = Some (w, d) \<Longrightarrow>
   \<exists>res mem' pm'. pmentry_walk_page_nolock virt mem pm = Some (res, mem', pm') \<and> wf_pmap pm' \<and> num_levels pm' = num_levels pm \<and>
    (\<forall>v. pmap_view pm' v = pmap_view pm v) \<and>
    mem \<le> mem' + (d - 1) \<and>
    (case res of Inr _ \<Rightarrow> \<exists>w. look (num_levels pm') (root pm') virt = Some (w, 1) | Inl err \<Rightarrow> err = ENOMEM \<and> mem < d - 1)"
proof (induction d arbitrary: mem pm w)
  case 0
  then show ?case using walk_found(4) by blast
next
  case (Suc d)
  note f = walk_found [OF Suc.prems]
  have v: "pte_valid (Entry w)" using f(3) by (simp add: pte_valid_def)
  show ?case
  proof (cases "d = 0")
    case True
    then have "pmentry_walk_page_nolock virt mem pm = Some (Inr (), mem, pm)"
      using f(1) v by (subst pmentry_walk_page_nolock.simps) simp
    then show ?thesis using Suc.prems True by simp
  next
    case False
    show ?thesis
    proof (cases "split_large_nolock mem (Entry w) (Suc d)")
      case None
      then have "pmentry_walk_page_nolock virt mem pm = Some (Inl ENOMEM, mem, pm)"
        using f(1) v False by (subst pmentry_walk_page_nolock.simps) simp
      moreover have "mem = 0" using None by (simp add: split_large_nolock_def Let_def split: if_splits)
      ultimately show ?thesis using Suc.prems(1) False by simp
    next
      case (Some x)
      then obtain t mem1 where x: "split_large_nolock mem (Entry w) (Suc d) = Some (t, mem1)" by (cases x) simp
      let ?pm = "store_at virt (Suc d) t pm"
      have sv: "wf_pmap ?pm" "num_levels ?pm = num_levels pm" "\<And>v. pmap_view ?pm v = pmap_view pm v"
          "\<exists>w'. look (num_levels ?pm) (root ?pm) virt = Some (w', d)"
        using split_view [OF Suc.prems _ x] False by simp_all
      have "pmentry_walk_page_nolock virt mem pm = pmentry_walk_page_nolock virt mem1 ?pm"
        using f(1) v False x by (subst pmentry_walk_page_nolock.simps) simp
      moreover have m: "mem = Suc mem1" using x by (auto simp: split_large_nolock_def Let_def split: if_splits)
      moreover obtain w' where "look (num_levels ?pm) (root ?pm) virt = Some (w', d)" using sv(4) by blast
      then obtain res mem' pm' where ih: "pmentry_walk_page_nolock virt mem1 ?pm = Some (res, mem', pm')" "wf_pmap pm'" "num_levels pm' = num_levels ?pm"
          "\<forall>v. pmap_view pm' v = pmap_view ?pm v" "mem1 \<le> mem' + (d - 1)"
          "case res of Inr _ \<Rightarrow> \<exists>w. look (num_levels pm') (root pm') virt = Some (w, 1) | Inl err \<Rightarrow> err = ENOMEM \<and> mem1 < d - 1"
        using Suc.IH [OF sv(1), of w' mem1] by blast
      moreover have "case res of Inr _ \<Rightarrow> \<exists>w. look (num_levels pm') (root pm') virt = Some (w, 1) | Inl err \<Rightarrow> err = ENOMEM \<and> mem < Suc d - 1"
        using ih(6) m by (cases res) auto
      moreover have "mem \<le> mem' + (Suc d - 1)" using ih(5) m False by simp
      ultimately show ?thesis using sv(2,3) by (intro exI [of _ res] exI [of _ mem'] exI [of _ pm'] conjI) simp_all
    qed
  qed
qed

lemma walk_page_correct:
  assumes "wf_pmap pm"
  shows "\<exists>res mem' pm'. pmentry_walk_page_nolock virt mem pm = Some (res, mem', pm') \<and> wf_pmap pm' \<and> num_levels pm' = num_levels pm \<and>
    (\<forall>v. pmap_view pm' v = pmap_view pm v) \<and> mem \<le> mem' + (num_levels pm - 1) \<and>
    (case res of
       Inr _ \<Rightarrow> \<exists>w. look (num_levels pm') (root pm') virt = Some (w, 1)
     | Inl err \<Rightarrow> err = ENOENT \<and> pmap_view pm virt = None \<or> err = ENOMEM \<and> pmap_view pm virt \<noteq> None \<and> mem < num_levels pm - 1)"
proof (cases "look (num_levels pm) (root pm) virt")
  case None
  then have "pmentry_walk_page_nolock virt mem pm = Some (Inl ENOENT, mem, pm)"
    using walk_not_found [OF assms None] by (subst pmentry_walk_page_nolock.simps) (auto split: prod.splits option.splits)
  then show ?thesis using assms None by (simp add: pmap_view_def)
next
  case (Some x)
  then obtain w d where x: "look (num_levels pm) (root pm) virt = Some (w, d)" by (cases x) simp
  obtain res mem' pm' where r: "pmentry_walk_page_nolock virt mem pm = Some (res, mem', pm')" "wf_pmap pm'" "num_levels pm' = num_levels pm"
      "\<forall>v. pmap_view pm' v = pmap_view pm v" "mem \<le> mem' + (d - 1)"
      "case res of Inr _ \<Rightarrow> \<exists>w. look (num_levels pm') (root pm') virt = Some (w, 1) | Inl err \<Rightarrow> err = ENOMEM \<and> mem < d - 1"
    using walk_page_found [OF assms x, of mem] by blast
  have "d \<le> num_levels pm" by (rule walk_found(5) [OF assms x])
  then show ?thesis using r x by (intro exI [of _ res] exI [of _ mem'] exI [of _ pm']) (auto simp: pmap_view_def split: sum.splits)
qed

end
