(* ===== verification/Pmap_Spec.thy ===== *)
theory Pmap_Spec
  imports Pmap
begin

text \<open>
  What page tables promise: a map from addresses to frames and protections, changed a page at a time. Every
  sequence of requests on the tables, which split large pages and run out of memory on the way,
  follows this map.
\<close>

lemma unmap_correct:
  assumes wf: "wf_pmap pm" and r: "pmap_unmap_noflush virt mem pm = Some (res, mem', pm')"
  shows "wf_pmap pm' \<and> num_levels pm' = num_levels pm \<and> mem \<le> mem' + (num_levels pm - 1) \<and>
    (case res of
       Inr _ \<Rightarrow> pmap_view pm virt \<noteq> None \<and> (\<forall>v. pmap_view pm' v = (if same_page pm virt v then None else pmap_view pm v))
     | Inl err \<Rightarrow> (\<forall>v. pmap_view pm' v = pmap_view pm v) \<and>
         (err = ENOENT \<and> pmap_view pm virt = None \<or> err = ENOMEM \<and> pmap_view pm virt \<noteq> None \<and> mem < num_levels pm - 1))"
proof -
  obtain mem1 pm1 where w: "pmentry_walk_page_nolock virt mem pm = Some (res, mem1, pm1)" "wf_pmap pm1" "num_levels pm1 = num_levels pm"
      "\<forall>v. pmap_view pm1 v = pmap_view pm v" "mem \<le> mem1 + (num_levels pm - 1)"
      "case res of Inr _ \<Rightarrow> \<exists>w. look (num_levels pm1) (root pm1) virt = Some (w, 1)
       | Inl err \<Rightarrow> err = ENOENT \<and> pmap_view pm virt = None \<or> err = ENOMEM \<and> pmap_view pm virt \<noteq> None \<and> mem < num_levels pm - 1"
    using walk_page_correct [OF wf, of virt mem] r by (auto simp: pmap_unmap_noflush_def)
  show ?thesis
  proof (cases res)
    case (Inl err)
    then show ?thesis using w r by (auto simp: pmap_unmap_noflush_def)
  next
    case (Inr u)
    then obtain x where x: "look (num_levels pm1) (root pm1) virt = Some (x, 1)" using w(6) by auto
    have "wf_pte 1 (Entry PMENTRY_NULL)" by (simp add: wf_pte_def)
    note st = store_view [OF w(2) walk_found(2) [OF w(2) x] this]
    have "pmap_view pm virt \<noteq> None" using x w(4) [rule_format, of virt, symmetric] by (simp add: pmap_view_def [of pm1])
    moreover have "pmap_view (store_at virt 1 (Entry PMENTRY_NULL) pm1) v = (if same_page pm virt v then None else pmap_view pm v)" for v
      using st(3) [of v] w(3,4) by (simp add: look_pte_def same_page_def)
    ultimately show ?thesis
      using r w Inr st(1,2) by (auto simp: pmap_unmap_noflush_def)
  qed
qed

text \<open>The frame of an entry of the lowest level.\<close>

lemma translate_patch:
  "translate (pmentry_setup (pmentry_address w 1) vprot 1, 1) v = (fst (translate (w, 1) v), vprot_seen vprot)"
proof -
  have fa: "frame_aligned 1 (pmentry_address w 1)" by (rule frame_aligned_address)
  show ?thesis
    using setup_address [OF _ fa, of vprot] setup_vprot [OF _ fa, of vprot] by (simp add: translate_def)
qed

lemma patch_correct:
  assumes wf: "wf_pmap pm" and r: "pmap_patch_noflush virt vprot mem pm = Some (res, mem', pm')"
  shows "wf_pmap pm' \<and> num_levels pm' = num_levels pm \<and> mem \<le> mem' + (num_levels pm - 1) \<and>
    (case res of
       Inr _ \<Rightarrow> pmap_view pm virt \<noteq> None \<and>
         (\<forall>v. pmap_view pm' v = (if same_page pm virt v then map_option (\<lambda>(a, _). (a, vprot_seen vprot)) (pmap_view pm v) else pmap_view pm v))
     | Inl err \<Rightarrow> (\<forall>v. pmap_view pm' v = pmap_view pm v) \<and>
         (err = EINVAL \<and> pmap_view pm virt = None \<or> err = ENOMEM \<and> pmap_view pm virt \<noteq> None \<and> mem < num_levels pm - 1))"
proof -
  obtain res1 mem1 pm1 where w: "pmentry_walk_page_nolock virt mem pm = Some (res1, mem1, pm1)" "wf_pmap pm1" "num_levels pm1 = num_levels pm"
      "\<forall>v. pmap_view pm1 v = pmap_view pm v" "mem \<le> mem1 + (num_levels pm - 1)"
      "case res1 of Inr _ \<Rightarrow> \<exists>w. look (num_levels pm1) (root pm1) virt = Some (w, 1)
       | Inl err \<Rightarrow> err = ENOENT \<and> pmap_view pm virt = None \<or> err = ENOMEM \<and> pmap_view pm virt \<noteq> None \<and> mem < num_levels pm - 1"
    using walk_page_correct [OF wf, of virt mem] by blast
  show ?thesis
  proof (cases res1)
    case (Inl err)
    then show ?thesis using w r by (auto simp: pmap_patch_noflush_def)
  next
    case (Inr u)
    then obtain x where x: "look (num_levels pm1) (root pm1) virt = Some (x, 1)" using w(6) by auto
    note f = walk_found [OF w(2) x]
    let ?w = "pmentry_setup (pmentry_address x 1) vprot 1"
    have "wf_pte 1 (Entry ?w)" by (simp add: wf_pte_def)
    note st = store_view [OF w(2) f(2) this]
    have r': "res = Inr ()" "mem' = mem1" "pm' = store_at virt 1 (Entry ?w) pm1"
      using r w(1) Inr f(1) by (simp_all add: pmap_patch_noflush_def)
    have "pmap_view pm virt \<noteq> None" using x w(4) [rule_format, of virt, symmetric] by (simp add: pmap_view_def [of pm1])
    moreover have "pmap_view pm' v = (if same_page pm virt v then map_option (\<lambda>(a, _). (a, vprot_seen vprot)) (pmap_view pm v) else pmap_view pm v)" for v
      using st(3) [of v] st(5) [of v] w(3,4) f(3) unfolding r'(3) same_page_def
      by (auto simp: look_pte_def translate_patch [simplified] case_prod_unfold)
    ultimately show ?thesis using r' w st(1,2) by simp
  qed
qed

lemma page_ops_total:
  assumes "wf_pmap pm"
  shows "pmap_unmap_noflush virt mem pm \<noteq> None" "pmap_patch_noflush virt vprot mem pm \<noteq> None"
  using walk_page_correct [OF assms, of virt mem]
  by (auto simp: pmap_unmap_noflush_def pmap_patch_noflush_def simp del: not_None_eq)

subsection \<open>Refinement of operations that may run out of memory\<close>

text \<open>
  A component performs requests and may refuse one for want of memory, without effect; any other result and
  its effect are those of the specification. A request takes at most \<open>cost\<close> units of memory.
\<close>

fun run_requests :: "('q \<Rightarrow> 's \<Rightarrow> 'r \<times> 's) \<Rightarrow> 'q list \<Rightarrow> 's \<Rightarrow> 'r list \<times> 's" where
  "run_requests perform [] s = ([], s)"
| "run_requests perform (q # qs) s = (case perform q s of (r, s) \<Rightarrow> case run_requests perform qs s of (rs, s) \<Rightarrow> (r # rs, s))"

text \<open>The state of a specification after requests with the given results, if it allows these results.\<close>

fun follow_spec :: "('q \<Rightarrow> 'v \<Rightarrow> 'r result \<times> 'v) \<Rightarrow> 'q list \<Rightarrow> 'r result list \<Rightarrow> 'v \<Rightarrow> 'v option" where
  "follow_spec spec [] [] v = Some v"
| "follow_spec spec (q # qs) (r # rs) v =
     (if r = Inl ENOMEM then follow_spec spec qs rs v
      else case spec q v of (r', v') \<Rightarrow> if r' = r then follow_spec spec qs rs v' else None)"
| "follow_spec spec _ _ v = None"

locale fallible_refinement =
  fixes ok :: "'s \<Rightarrow> bool"
    and view :: "'s \<Rightarrow> 'v"
    and budget :: "'s \<Rightarrow> nat"
    and cost :: "'s \<Rightarrow> nat"
    and perform :: "'q \<Rightarrow> 's \<Rightarrow> 'r result \<times> 's"
    and spec :: "'q \<Rightarrow> 'v \<Rightarrow> 'r result \<times> 'v"
  assumes perform: "ok s \<Longrightarrow> perform q s = (r, s') \<Longrightarrow>
      ok s' \<and> cost s' = cost s \<and> budget s \<le> budget s' + cost s \<and>
      (r = Inl ENOMEM \<and> view s' = view s \<and> budget s < cost s \<or> r \<noteq> Inl ENOMEM \<and> spec q (view s) = (r, view s'))"
begin

lemma run_follows:
  "ok s \<Longrightarrow> run_requests perform qs s = (rs, s') \<Longrightarrow>
    ok s' \<and> follow_spec spec qs rs (view s) = Some (view s') \<and> (length qs * cost s \<le> budget s \<longrightarrow> Inl ENOMEM \<notin> set rs)"
proof (induction qs arbitrary: s rs)
  case (Cons q qs)
  obtain r s1 where p: "perform q s = (r, s1)" by fastforce
  obtain rs1 where r: "run_requests perform qs s1 = (rs1, s')" "rs = r # rs1" using Cons.prems(2) p by (auto split: prod.splits)
  note st = perform [OF Cons.prems(1) p]
  have ok: "ok s1" using st by blast
  note ih = Cons.IH [OF ok r(1)]
  have "follow_spec spec (q # qs) rs (view s) = Some (view s')" using st ih r(2) by auto
  moreover have "Inl ENOMEM \<notin> set rs" if "length (q # qs) * cost s \<le> budget s"
  proof -
    have "length qs * cost s1 \<le> budget s1" using that st by auto
    moreover have "\<not> budget s < cost s" using that by simp
    ultimately show ?thesis using ih st r(2) by auto
  qed
  ultimately show ?case using ih by blast
qed simp

end

datatype request = Map u64 u64 u32 | Unmap u64 | Patch u64 u32

text \<open>The number of the page of an address, for tables of \<open>n\<close> levels.\<close>

definition page_number :: "nat \<Rightarrow> u64 \<Rightarrow> u64" where
  "page_number n virt = take_bit (9 * n) (drop_bit 12 virt)"

lemma field_eq:
  "take_bit m (drop_bit s a) = take_bit m (drop_bit s b) \<longleftrightarrow> (\<forall>k. s \<le> k \<and> k < s + m \<longrightarrow> bit a k = bit b k)" for a b :: u64
proof
  assume eq: "take_bit m (drop_bit s a) = take_bit m (drop_bit s b)"
  show "\<forall>k. s \<le> k \<and> k < s + m \<longrightarrow> bit a k = bit b k"
  proof (intro allI impI)
    fix k
    assume k: "s \<le> k \<and> k < s + m"
    then have "k - s < m" by arith
    with k show "bit a k = bit b k"
      using arg_cong [OF eq, of "\<lambda>w. bit w (k - s)"] by (simp add: bit_take_bit_iff bit_drop_bit_eq)
  qed
next
  assume "\<forall>k. s \<le> k \<and> k < s + m \<longrightarrow> bit a k = bit b k"
  then show "take_bit m (drop_bit s a) = take_bit m (drop_bit s b)"
    by (intro bit_eqI) (auto simp: bit_take_bit_iff bit_drop_bit_eq)
qed

lemma index_eq: "pte_index a j = pte_index b j \<longleftrightarrow> (\<forall>k. pmentry_level_shift j \<le> k \<and> k < pmentry_level_shift j + 9 \<longrightarrow> bit a k = bit b k)"
  unfolding pte_index_def level_mask take_bit_eq_mask [symmetric] word_unat_eq_iff [symmetric] by (rule field_eq)

lemma level_shift: "pmentry_level_shift j = 12 + 9 * (j - 1)"
  by (simp add: pmentry_level_shift_def PMENTRY_LVL1_SHIFT_def PMENTRY_LEVEL_BITS_def)

lemma same_way_field:
  assumes "0 < k" "k \<le> n"
  shows "same_way n k a b \<longleftrightarrow>
    take_bit (9 * (n - (k - 1))) (drop_bit (pmentry_level_shift k) a) = take_bit (9 * (n - (k - 1))) (drop_bit (pmentry_level_shift k) b)"
    (is "_ \<longleftrightarrow> ?field")
proof -
  have top: "pmentry_level_shift k + 9 * (n - (k - 1)) = 12 + 9 * n" using assms by (simp add: level_shift)
  have "?field \<longleftrightarrow> (\<forall>i. pmentry_level_shift k \<le> i \<and> i < 12 + 9 * n \<longrightarrow> bit a i = bit b i)" (is "_ = ?bits")
    unfolding field_eq top ..
  moreover have "same_way n k a b \<longleftrightarrow> ?bits"
  proof
    assume w: "same_way n k a b"
    show ?bits
    proof (intro allI impI)
      fix i :: nat
      assume i: "pmentry_level_shift k \<le> i \<and> i < 12 + 9 * n"
      let ?j = "Suc ((i - 12) div 9)"
      have "12 \<le> i" "9 * (k - 1) \<le> i - 12" "i - 12 < 9 * n" using i unfolding level_shift by arith+
      then have j: "k - 1 \<le> (i - 12) div 9" "(i - 12) div 9 < n" by (simp_all add: less_eq_div_iff_mult_less_eq div_less_iff_less_mult mult.commute)
      then have "pte_index a ?j = pte_index b ?j" using w assms(1) by (simp add: same_way_def)
      moreover have "pmentry_level_shift ?j \<le> i" "i < pmentry_level_shift ?j + 9"
        using \<open>12 \<le> i\<close> mult_div_mod_eq [of 9 "i - 12"] mod_less_divisor [of 9 "i - 12"] unfolding level_shift diff_Suc_1 by linarith+
      ultimately show "bit a i = bit b i" unfolding index_eq by blast
    qed
  next
    assume bits: ?bits
    have "pte_index a j = pte_index b j" if "k \<le> j" "j \<le> n" for j
    proof -
      have "pmentry_level_shift k \<le> pmentry_level_shift j" "pmentry_level_shift j + 9 \<le> 12 + 9 * n"
        using that assms(1) by (simp_all add: level_shift)
      then show ?thesis unfolding index_eq using bits by auto
    qed
    then show "same_way n k a b" by (simp add: same_way_def)
  qed
  ultimately show ?thesis by simp
qed

lemma same_way_page: "0 < n \<Longrightarrow> same_way n (Suc 0) a b \<longleftrightarrow> page_number n a = page_number n b"
  using same_way_field [of 1 n a b] by (simp add: page_number_def level_shift)

text \<open>The specification of tables of \<open>n\<close> levels.\<close>

definition page_spec :: "nat \<Rightarrow> request \<Rightarrow> (u64 \<Rightarrow> (u64 \<times> u32) option) \<Rightarrow> unit result \<times> (u64 \<Rightarrow> (u64 \<times> u32) option)" where
  "page_spec n q f =
     (case q of
        Map virt phys vprot \<Rightarrow>
          if f virt \<noteq> None then (Inl EEXIST, f)
          else (Inr (), \<lambda>v. if page_number n virt = page_number n v then Some (frame_of phys + page_offset v, vprot_seen vprot) else f v)
      | Unmap virt \<Rightarrow> if f virt = None then (Inl ENOENT, f) else (Inr (), \<lambda>v. if page_number n virt = page_number n v then None else f v)
      | Patch virt vprot \<Rightarrow>
          if f virt = None then (Inl EINVAL, f)
          else (Inr (), \<lambda>v. if page_number n virt = page_number n v then map_option (\<lambda>(a, _). (a, vprot_seen vprot)) (f v) else f v))"

definition pmap_perform :: "request \<Rightarrow> nat \<times> pmap \<Rightarrow> unit result \<times> nat \<times> pmap" where
  "pmap_perform q s =
     (case s of (mem, pm) \<Rightarrow>
        case q of
          Map virt phys vprot \<Rightarrow> pmap_map virt phys vprot mem pm
        | Unmap virt \<Rightarrow> the (pmap_unmap_noflush virt mem pm)
        | Patch virt vprot \<Rightarrow> the (pmap_patch_noflush virt vprot mem pm))"

lemma same_page_iff: "wf_pmap pm \<Longrightarrow> same_page pm a b \<longleftrightarrow> page_number (num_levels pm) a = page_number (num_levels pm) b"
  using same_way_page [of "num_levels pm" a b] by (simp add: same_page_def wf_pmap_def)

lemma pmap_perform_step:
  assumes "wf_pmap pm" "pmap_perform q (mem, pm) = (r, mem', pm')"
  shows "wf_pmap pm' \<and> num_levels pm' = num_levels pm \<and> mem \<le> mem' + (num_levels pm - 1) \<and>
    (r = Inl ENOMEM \<and> pmap_view pm' = pmap_view pm \<and> mem < num_levels pm - 1 \<or>
     r \<noteq> Inl ENOMEM \<and> page_spec (num_levels pm) q (pmap_view pm) = (r, pmap_view pm'))"
proof (cases q)
  case (Map virt phys vprot)
  then show ?thesis
    using assms map_correct [OF assms(1), of virt phys vprot mem r mem' pm']
    by (cases r) (auto simp: pmap_perform_def page_spec_def same_page_iff [OF assms(1)] fun_eq_iff)
next
  case (Unmap virt)
  then have "pmap_unmap_noflush virt mem pm = Some (r, mem', pm')"
    using assms page_ops_total(1) [OF assms(1), of virt mem] by (auto simp: pmap_perform_def)
  from unmap_correct [OF assms(1) this] show ?thesis
    using Unmap by (cases r) (auto simp: page_spec_def same_page_iff [OF assms(1)] fun_eq_iff)
next
  case (Patch virt vprot)
  then have "pmap_patch_noflush virt vprot mem pm = Some (r, mem', pm')"
    using assms page_ops_total(2) [OF assms(1), of virt vprot mem] by (auto simp: pmap_perform_def)
  from patch_correct [OF assms(1) this] show ?thesis
    using Patch by (cases r) (auto simp: page_spec_def same_page_iff [OF assms(1)] fun_eq_iff)
qed

interpretation pt: fallible_refinement "\<lambda>(mem, pm). wf_pmap pm \<and> num_levels pm = n" "\<lambda>(mem, pm). pmap_view pm" fst "\<lambda>_. n - 1"
    pmap_perform "page_spec n" for n
  using pmap_perform_step by unfold_locales (auto simp: fun_eq_iff, (metis fst_conv)+)

text \<open>
  C2: Any sequence of requests to map, unmap and protect pages, of any well-formed page tables with large pages among
  them, gives the results and leaves the mapping of the same sequence on a map from addresses to frames and protections; a request that
  is refused for want of memory changes nothing, and none is refused while there is a page for
  each level below the root.
\<close>

theorem pmap_refines:
  assumes "wf_pmap pm" and "run_requests pmap_perform qs (mem, pm) = (rs, mem', pm')"
  shows "wf_pmap pm' \<and> follow_spec (page_spec (num_levels pm)) qs rs (pmap_view pm) = Some (pmap_view pm') \<and>
    (length qs * (num_levels pm - 1) \<le> mem \<longrightarrow> Inl ENOMEM \<notin> set rs)"
  using pt.run_follows [of "num_levels pm" "(mem, pm)" qs rs "(mem', pm')"] assms by simp

definition empty_pmap :: pmap where
  "empty_pmap = \<lparr>num_levels = 4, root = empty_table\<rparr>"

lemma wf_empty_pmap: "wf_pmap empty_pmap"
  by (simp add: empty_pmap_def wf_pmap_def)

theorem pmap_refines_witness:
  "(case run_requests pmap_perform [Map 0x400000 0x1000 VPROT_WRITE, Unmap 0x400000] (6, empty_pmap) of
     (rs, mem, pm) \<Rightarrow> Inl ENOMEM \<notin> set rs \<and> wf_pmap pm)"
proof -
  obtain rs mem pm where r: "run_requests pmap_perform [Map 0x400000 0x1000 VPROT_WRITE, Unmap 0x400000] (6, empty_pmap) = (rs, mem, pm)"
    by (metis prod_cases3)
  then show ?thesis
    using pmap_refines [OF wf_empty_pmap r] by (simp add: empty_pmap_def)
qed

end
