(* ===== verification/Pmap_Range.thy ===== *)
theory Pmap_Range
  imports Pmap_Spec
begin

text \<open>
  Ranges of pages, the functions \<^verbatim>\<open>pmap_map_range\<close> and \<^verbatim>\<open>pmap_unmap_range_noflush\<close> of \<^verbatim>\<open>kernel/mm/pmap.c\<close>: mapping a
  range uses the largest pages that its alignment permits, and unmapping one splits those that
  reach over its ends. Ranges are compared by the distance of an address from their start,
  modulo the span of the tables.
\<close>

definition dist :: "nat \<Rightarrow> u64 \<Rightarrow> u64 \<Rightarrow> nat" where
  "dist n virt v = unat (take_bit (12 + 9 * n) (v - virt))"

lemma unat_take_bit: "unat (take_bit m w) = unat w mod 2 ^ m" for w :: u64
  unfolding unsigned_take_bit_eq by (simp add: take_bit_eq_mod)

lemma unat_drop_bit: "unat (drop_bit m w) = unat w div 2 ^ m" for w :: u64
proof -
  have "unat w < 2 ^ LENGTH(64)" by (rule unsigned_less)
  then show ?thesis unfolding unsigned_drop_bit_eq by (simp add: drop_bit_eq_div take_bit_nat_eq_self)
qed

lemma dist_uint: "int (dist n virt v) = uint (v - virt) mod 2 ^ (12 + 9 * n)"
  by (simp add: dist_def unat_take_bit zmod_int)

lemma dist_int:
  assumes "n \<le> 5"
  shows "int (dist n virt v) = (int (unat v) - int (unat virt)) mod 2 ^ (12 + 9 * n)"
proof -
  note dist_uint
  also have "uint (v - virt) = (uint v - uint virt) mod 2 ^ 64"
    by (simp add: uint_word_ariths)
  also have "(uint v - uint virt) mod 2 ^ 64 mod 2 ^ (12 + 9 * n) = (uint v - uint virt) mod 2 ^ (12 + 9 * n)"
    using assms by (intro mod_mod_cancel le_imp_power_dvd) simp
  finally show ?thesis by simp
qed

lemma dist_less: "dist n virt v < 2 ^ (12 + 9 * n)"
  unfolding dist_def unat_take_bit by simp

lemma dist_self [simp]: "dist n virt virt = 0"
  by (simp add: dist_def)

lemma dist_near: "n \<le> 5 \<Longrightarrow> m < 2 ^ (12 + 9 * n) \<Longrightarrow> dist n virt (virt + of_nat m) = m"
  using less_le_trans [of m "2 ^ (12 + 9 * n)" "2 ^ 64"] power_increasing [of "12 + 9 * n" 64 "2 :: nat"]
  by (simp add: dist_def unat_take_bit unsigned_of_nat take_bit_nat_eq_self)

lemma dist_step:
  assumes "n \<le> 5" "m \<le> 2 ^ (12 + 9 * n)"
  shows "dist n (virt + of_nat m) v = (if m \<le> dist n virt v then dist n virt v - m else dist n virt v + 2 ^ (12 + 9 * n) - m)"
proof -
  let ?N = "2 ^ (12 + 9 * n) :: int"
  have "int (dist n (virt + of_nat m) v) = (int (dist n virt v) - int m) mod ?N"
  proof -
    have "v - (virt + of_nat m) = (v - virt) - of_nat m" by simp
    then have "int (dist n (virt + of_nat m) v) = uint ((v - virt) - of_nat m) mod ?N"
      by (simp only: dist_uint)
    also have "\<dots> = (uint (v - virt) - int m) mod 2 ^ 64 mod ?N"
      by (simp add: uint_word_ariths(2) uint_word_of_int unsigned_of_nat take_bit_eq_mod zmod_int mod_diff_right_eq)
    also have "\<dots> = (uint (v - virt) - int m) mod ?N"
      using assms(1) by (intro mod_mod_cancel le_imp_power_dvd) simp
    also have "\<dots> = (uint (v - virt) mod ?N - int m) mod ?N" by (simp add: mod_diff_left_eq)
    finally show ?thesis by (simp only: dist_uint)
  qed
  then have e: "int (dist n (virt + of_nat m) v) = (int (dist n virt v) - int m) mod ?N" .
  have N: "int (2 ^ (12 + 9 * n)) = ?N" by simp
  have d: "int (dist n virt v) < ?N" unfolding N [symmetric] of_nat_less_iff by (rule dist_less)
  have m: "int m \<le> ?N" unfolding N [symmetric] of_nat_le_iff by (rule assms)
  show ?thesis
  proof (cases "m \<le> dist n virt v")
    case True
    then have "(int (dist n virt v) - int m) mod ?N = int (dist n virt v - m)"
      unfolding of_nat_diff [OF True] by (intro mod_pos_pos_trivial) (simp, use d in linarith)
    with e show ?thesis using True by simp
  next
    case False
    then have l: "m \<le> dist n virt v + 2 ^ (12 + 9 * n)" using assms(2) by simp
    have "(int (dist n virt v) - int m) mod ?N = (int (dist n virt v) - int m + ?N) mod ?N" by simp
    also have "\<dots> = int (dist n virt v) - int m + ?N"
      by (intro mod_pos_pos_trivial) (use m False in linarith)+
    also have "\<dots> = int (dist n virt v + 2 ^ (12 + 9 * n) - m)" unfolding of_nat_diff [OF l] of_nat_add N by simp
    finally show ?thesis using False e by simp
  qed
qed

lemma dist_beyond:
  assumes "n \<le> 5" "m \<le> 2 ^ (12 + 9 * n)" "l \<le> 2 ^ (12 + 9 * n)" "m \<le> l"
  shows "dist n (virt + of_nat m) v < l - m \<longleftrightarrow> m \<le> dist n virt v \<and> dist n virt v < l"
  using assms by (auto simp: dist_step)

text \<open>The block of level \<open>k\<close> around an address, and the rest of it above the address.\<close>

lemma block_quotient:
  assumes "0 < k" "k \<le> n" "n \<le> 5"
  shows "same_way n k a b \<longleftrightarrow>
    unat a mod 2 ^ (12 + 9 * n) div 2 ^ pmentry_level_shift k = unat b mod 2 ^ (12 + 9 * n) div 2 ^ pmentry_level_shift k"
proof -
  have top: "12 + 9 * n = pmentry_level_shift k + 9 * (n - (k - 1))" using assms by (simp add: level_shift)
  have q: "unat (take_bit (9 * (n - (k - 1))) (drop_bit (pmentry_level_shift k) w)) = unat w mod 2 ^ (12 + 9 * n) div 2 ^ pmentry_level_shift k" for w :: u64
    unfolding top power_add by (simp add: unat_take_bit unat_drop_bit mod_mult2_eq)
  show ?thesis unfolding same_way_field [OF assms(1, 2)] word_unat_eq_iff q ..
qed

lemma quotient_near:
  fixes x y d b N :: nat
  assumes "x < N" "y < N" "b dvd N" "0 < b" "int d = (int y - int x) mod int N" "d < b - x mod b"
  shows "x div b = y div b"
proof -
  obtain c where N: "N = b * c" using assms(3) by (elim dvdE)
  have "x div b < c" using assms(1) less_mult_imp_div_less [of x c b] unfolding N by (simp add: mult.commute)
  then have block: "b * Suc (x div b) \<le> N" unfolding N by (intro mult_le_mono2) simp
  have x: "x = b * (x div b) + x mod b" by simp
  have m: "x mod b < b" using assms(4) by simp
  have up: "b * Suc (x div b) = b + b * (x div b)" by simp
  have xd: "x + d < b * Suc (x div b)" unfolding up using x m assms(6) by linarith
  have N': "x + d < N" using xd block by (rule less_le_trans)
  have "(int x + (int y - int x) mod int N) mod int N = int y mod int N" by (simp add: mod_add_right_eq)
  then have "int (x + d) mod int N = int y mod int N" using assms(5) by simp
  then have "int ((x + d) mod N) = int (y mod N)" unfolding zmod_int .
  then have y: "y = x + d" using N' assms(2) by simp
  have "b * (x div b) \<le> x + d" using x by linarith
  from div_nat_eqI [OF this xd] show ?thesis unfolding y by (rule sym)
qed

lemma dist_quotient:
  assumes "n \<le> 5"
  shows "int (dist n virt v) = (int (unat v mod 2 ^ (12 + 9 * n)) - int (unat virt mod 2 ^ (12 + 9 * n))) mod int (2 ^ (12 + 9 * n))"
  unfolding dist_int [OF assms] zmod_int by (simp add: mod_diff_eq)

lemma shift_le: "0 < k \<Longrightarrow> k \<le> n \<Longrightarrow> pmentry_level_shift k + 9 \<le> 12 + 9 * n"
  by (simp add: level_shift)

lemma shift_dvd: "0 < k \<Longrightarrow> k \<le> n \<Longrightarrow> 2 ^ pmentry_level_shift k dvd (2 ^ (12 + 9 * n) :: nat)"
  using shift_le [of k n] by (intro le_imp_power_dvd) simp

lemma near_same_way:
  assumes "0 < k" "k \<le> n" "n \<le> 5" "dist n virt v < 2 ^ pmentry_level_shift k - unat virt mod 2 ^ pmentry_level_shift k"
  shows "same_way n k virt v"
  unfolding block_quotient [OF assms(1-3)]
  using assms(4) by (intro quotient_near [OF _ _ shift_dvd [OF assms(1, 2)] _ dist_quotient [OF assms(3)]]) (simp_all add: mod_mod_cancel shift_dvd [OF assms(1, 2)])

lemma block_dist:
  assumes "0 < k" "k \<le> n" "n \<le> 5" "unat virt mod 2 ^ pmentry_level_shift k = 0" "same_way n k virt v"
  shows "dist n virt v = unat v mod 2 ^ pmentry_level_shift k"
proof -
  define b where "b = (2 :: nat) ^ pmentry_level_shift k"
  define x where "x = unat virt mod 2 ^ (12 + 9 * n)"
  define y where "y = unat v mod 2 ^ (12 + 9 * n)"
  have q: "x div b = y div b" using assms(5) unfolding block_quotient [OF assms(1-3)] x_def y_def b_def .
  have "x mod b = 0" using assms(4) shift_dvd [OF assms(1, 2)] unfolding x_def b_def by (simp add: mod_mod_cancel)
  then have x: "x = b * (x div b)" by auto
  have yx: "y = x + y mod b" using x q by (metis mult_div_mod_eq)
  have "y < 2 ^ (12 + 9 * n)" unfolding y_def by simp
  then have "y mod b < 2 ^ (12 + 9 * n)" using mod_less_eq_dividend [of y b] by linarith
  then have "int (y mod b) < int (2 ^ (12 + 9 * n))" by (simp only: of_nat_less_iff)
  moreover have "int y - int x = int (y mod b)" using yx by linarith
  ultimately have "int (dist n virt v) = int (y mod b)"
    unfolding dist_quotient [OF assms(3)] x_def [symmetric] y_def [symmetric] by (simp add: mod_pos_pos_trivial)
  then have "dist n virt v = y mod b" by (simp only: of_nat_eq_iff)
  also have "\<dots> = unat v mod b" unfolding y_def b_def by (rule mod_mod_cancel [OF shift_dvd [OF assms(1, 2)]])
  finally show ?thesis unfolding b_def .
qed

lemma block_aligned:
  assumes "0 < k" "k \<le> n" "n \<le> 5" "unat virt mod 2 ^ pmentry_level_shift k = 0"
  shows "same_way n k virt v \<longleftrightarrow> dist n virt v < 2 ^ pmentry_level_shift k"
proof
  assume "dist n virt v < 2 ^ pmentry_level_shift k"
  then show "same_way n k virt v" using assms(4) by (intro near_same_way [OF assms(1-3)]) simp
next
  assume "same_way n k virt v"
  from block_dist [OF assms this] show "dist n virt v < 2 ^ pmentry_level_shift k" by simp
qed

lemma block_skip: "(virt OR mask s) + 1 = virt + of_nat (2 ^ s - unat virt mod 2 ^ s)" if "s < 64" for virt :: u64
proof -
  have "virt OR mask s = (virt AND NOT (mask s)) OR mask s" by (rule bit_eqI) (auto simp: bit_simps)
  also have "\<dots> = (virt AND NOT (mask s)) + mask s" by (rule disjunctive_add_eq_or [symmetric]) (rule bit_eqI, auto simp: bit_simps)
  finally have o: "virt OR mask s = (virt AND NOT (mask s)) + mask s" .
  have "virt = (virt AND NOT (mask s)) OR take_bit s virt" by (rule bit_eqI) (auto simp: bit_simps)
  also have "\<dots> = (virt AND NOT (mask s)) + take_bit s virt" by (rule disjunctive_add_eq_or [symmetric]) (rule bit_eqI, auto simp: bit_simps)
  finally have "virt AND NOT (mask s) = virt - take_bit s virt" by (simp add: algebra_simps)
  moreover have "take_bit s virt = of_nat (unat virt mod 2 ^ s)" by (simp flip: unat_take_bit)
  moreover have "unat virt mod 2 ^ s \<le> 2 ^ s" by (simp add: less_imp_le)
  ultimately show ?thesis unfolding o by (simp add: of_nat_diff mask_eq_exp_minus_1)
qed

lemma same_way_sym: "same_way n k a b \<Longrightarrow> same_way n k b a"
  by (simp add: same_way_def)

lemma same_way_trans: "same_way n k a b \<Longrightarrow> same_way n k b c \<Longrightarrow> same_way n k a c"
  by (simp add: same_way_def)

lemma block_offset:
  assumes "0 < k" "k \<le> n" "n \<le> 5" "unat virt mod 2 ^ pmentry_level_shift k = 0" "same_way n k virt v"
  shows "v AND (pmentry_level_size k - 1) = of_nat (dist n virt v)"
  unfolding block_dist [OF assms] level_size_mask take_bit_eq_mask [symmetric] by (simp flip: unat_take_bit)

subsection \<open>Mapping\<close>

lemma mask_zero: "w AND mask m = 0 \<longleftrightarrow> unat w mod 2 ^ m = 0" for w :: u64
  unfolding take_bit_eq_mask [symmetric] unat_take_bit [symmetric] by (simp add: unat_eq_0)

lemma level_size_of_nat: "pmentry_level_size level = of_nat (2 ^ pmentry_level_shift level)"
  by (simp add: pmentry_level_size_def push_bit_eq_mult)

lemma unat_level_size:
  assumes "level \<le> 5"
  shows "unat (pmentry_level_size level) = 2 ^ pmentry_level_shift level"
proof -
  have "pmentry_level_shift level < 64" using assms by (simp add: level_shift)
  then show ?thesis unfolding level_size_of_nat by (simp add: unsigned_of_nat take_bit_nat_eq_self del: of_nat_power)
qed

lemma unat_level_mask:
  assumes "level \<le> 5"
  shows "unat (pmentry_level_size level - 1) = 2 ^ pmentry_level_shift level - 1"
proof -
  have "pmentry_level_size level \<noteq> 0" using unat_level_size [OF assms] by auto
  from unat_minus_one [OF this] show ?thesis unfolding unat_level_size [OF assms] .
qed

lemma page_aligned_le: "unat w mod 2 ^ 12 = 0 \<Longrightarrow> w \<noteq> 0 \<Longrightarrow> 2 ^ 12 \<le> unat w" for w :: u64
  by (metis dvd_imp_le mod_0_imp_dvd neq0_conv unat_eq_0)

lemma pick_from_fits:
  assumes "unat virt mod 2 ^ 12 = 0" "unat phys mod 2 ^ 12 = 0" "unat len mod 2 ^ 12 = 0" "len \<noteq> 0" "level \<le> 5"
  shows "case pick_from level virt phys len of k \<Rightarrow> 0 < k \<and> (k = 1 \<or> k \<le> level) \<and> unat virt mod 2 ^ pmentry_level_shift k = 0 \<and>
      unat phys mod 2 ^ pmentry_level_shift k = 0 \<and> 2 ^ pmentry_level_shift k \<le> unat len"
  using assms(5)
proof (induction level)
  case 0
  then show ?case using assms page_aligned_le [of len] by (simp add: pick_from.simps level_shift)
next
  case (Suc level)
  let ?m = "pmentry_level_size (Suc level) - 1"
  show ?case
  proof (cases "0 < level \<and> (virt OR phys) AND ?m = 0 \<and> len > ?m")
    case True
    then have "virt AND ?m = 0" "phys AND ?m = 0" by (simp_all add: word_ao_dist or_eq_0_iff)
    then have "unat virt mod 2 ^ pmentry_level_shift (Suc level) = 0" "unat phys mod 2 ^ pmentry_level_shift (Suc level) = 0"
      unfolding level_size_mask mask_zero by simp_all
    moreover have "2 ^ pmentry_level_shift (Suc level) \<le> unat len"
      using True unat_level_mask [OF Suc.prems] unfolding word_less_nat_alt by linarith
    moreover have "pick_from (Suc level) virt phys len = Suc level" using True by (simp add: pick_from.simps [of "Suc level"] Let_def)
    ultimately show ?thesis by simp
  next
    case False
    then have "pick_from (Suc level) virt phys len = (if 0 < level then pick_from level virt phys len else 1)"
      unfolding pick_from.simps [of "Suc level"] Let_def by auto
    moreover have "pmentry_level_shift 1 = 12" by (simp add: level_shift)
    ultimately show ?thesis
      using Suc.IH Suc.prems assms(1-3) page_aligned_le [OF assms(3, 4)] by (cases "0 < level") (simp_all only: if_True if_False, auto)
  qed
qed

lemma pick_leaf_level_fits:
  assumes "unat virt mod 2 ^ 12 = 0" "unat phys mod 2 ^ 12 = 0" "unat len mod 2 ^ 12 = 0" "len \<noteq> 0" "max_leaf \<le> n" "n \<le> 5" "0 < n"
  shows "case pick_leaf_level max_leaf virt phys len vprot of k \<Rightarrow> 0 < k \<and> k \<le> n \<and> unat virt mod 2 ^ pmentry_level_shift k = 0 \<and>
      unat phys mod 2 ^ pmentry_level_shift k = 0 \<and> 2 ^ pmentry_level_shift k \<le> unat len"
proof (cases "vprot AND VPROT_USER = 0")
  case True
  then show ?thesis using pick_from_fits [OF assms(1-4), of max_leaf] assms(5-7) by (auto simp: pick_leaf_level_def)
next
  case False
  then show ?thesis using assms page_aligned_le [OF assms(3, 4)] by (simp add: pick_leaf_level_def level_shift)
qed

text \<open>The entry of the tables that translates an address.\<close>

definition leaf_of :: "pmap \<Rightarrow> u64 \<Rightarrow> (u64 \<times> nat) option" where
  "leaf_of pm v = look (num_levels pm) (root pm) v"

lemma view_leaf: "pmap_view pm v = map_option (\<lambda>leaf. translate leaf v) (leaf_of pm v)"
  by (simp add: pmap_view_def leaf_of_def)

lemma view_none: "pmap_view pm v = None \<longleftrightarrow> leaf_of pm v = None"
  by (simp add: view_leaf)

lemma store_leaf:
  assumes "wf_pmap pm" "reaches virt k old (num_levels pm) (root pm)" "wf_pte k e"
  shows "wf_pmap (store_at virt k e pm)" "num_levels (store_at virt k e pm) = num_levels pm"
    "leaf_of (store_at virt k e pm) v = (if same_way (num_levels pm) k virt v then look_pte k e v else leaf_of pm v)"
    "same_way (num_levels pm) k virt v \<Longrightarrow> leaf_of pm v = look_pte k old v"
  using assms store_correct [of "num_levels pm" "root pm" virt k old e v]
  by (auto simp: wf_pmap_def store_at_def leaf_of_def)

lemma allocate_leaf:
  assumes "wf_pmap pm" "0 < k" "k \<le> num_levels pm" "walk_allocate virt k (num_levels pm) mem (root pm) = (found, mem', t)"
  defines "pm1 \<equiv> pm\<lparr>root := t\<rparr>"
  shows "wf_pmap pm1" "num_levels pm1 = num_levels pm" "leaf_of pm1 v = leaf_of pm v"
    "found \<Longrightarrow> fst (pmentry_walk virt k (num_levels pm) t) \<noteq> None" "num_levels pm - k \<le> mem \<Longrightarrow> found" "mem \<le> mem' + (num_levels pm - k)"
  using assms walk_allocate_correct [of "num_levels pm" "root pm" k virt mem] by (auto simp: wf_pmap_def leaf_of_def)

lemma walk_free:
  assumes "wf_pmap pm" "0 < k" "k \<le> num_levels pm" "pmentry_walk virt k (num_levels pm) (root pm) = (Some e, at)" "\<not> pte_valid e"
  shows "at = k" "reaches virt k e (num_levels pm) (root pm)" "look_pte k e v = None"
proof -
  have w: "reaches virt at e (num_levels pm) (root pm)" "k \<le> at" "k < at \<longrightarrow> pte_valid e"
    using walk_reaches [of "num_levels pm" "root pm" k virt] assms(1-4) by (auto simp: wf_pmap_def)
  then show "at = k" using assms(5) by auto
  then show "reaches virt k e (num_levels pm) (root pm)" using w by simp
  show "look_pte k e v = None" using assms(5) by (cases e) (simp_all add: look_pte_def pte_valid_def)
qed

lemma map_step:
  fixes phys :: u64 and vprot :: u32
  assumes wf: "wf_pmap pm" and k: "0 < k" "k \<le> num_levels pm" and virt: "unat virt mod 2 ^ pmentry_level_shift k = 0"
    and walk: "pmentry_walk virt k (num_levels pm) (root pm) = (Some e, at)" "\<not> pte_valid e"
  defines "pm2 \<equiv> store_at virt at (Entry (pmentry_setup phys vprot k)) pm"
  shows "wf_pmap pm2" "num_levels pm2 = num_levels pm"
    "leaf_of pm2 v = (if dist (num_levels pm) virt v < 2 ^ pmentry_level_shift k then Some (pmentry_setup phys vprot k, k) else leaf_of pm v)"
    "dist (num_levels pm) virt v < 2 ^ pmentry_level_shift k \<Longrightarrow> leaf_of pm v = None"
proof -
  note free = walk_free [OF wf k walk]
  have n: "num_levels pm \<le> 5" using wf by (simp add: wf_pmap_def)
  have e: "wf_pte k (Entry (pmentry_setup phys vprot k))" using k by (simp add: wf_pte_def)
  note s = store_leaf [OF wf free(2) e]
  show "wf_pmap pm2" "num_levels pm2 = num_levels pm" unfolding pm2_def free(1) by (rule s)+
  show "leaf_of pm2 v = (if dist (num_levels pm) virt v < 2 ^ pmentry_level_shift k then Some (pmentry_setup phys vprot k, k) else leaf_of pm v)"
    unfolding pm2_def free(1) s(3) block_aligned [OF k n virt] by (simp add: look_pte_def)
  show "leaf_of pm v = None" if "dist (num_levels pm) virt v < 2 ^ pmentry_level_shift k"
    using store_leaf(4) [OF wf free(2) e, of v] that free(3) by (simp add: block_aligned [OF k n virt])
qed

lemma frame_alignedI_nat:
  assumes "unat a mod 2 ^ pmentry_level_shift k = 0" "unat a < 2 ^ 52"
  shows "frame_aligned k a"
proof -
  have "take_bit (pmentry_level_shift k) a = 0" using assms(1) by (simp flip: unat_take_bit add: unat_eq_0)
  moreover have "unat (take_bit 52 a) = unat a" using assms(2) by (simp add: unat_take_bit)
  then have "take_bit 52 a = a" by (simp only: word_unat_eq_iff)
  ultimately show ?thesis by (simp add: frame_aligned_def)
qed

lemma unat_add_small: "unat a + m < 2 ^ 64 \<Longrightarrow> unat (a + of_nat m) = unat a + m" for a :: u64
  by (simp add: unat_word_ariths unsigned_of_nat take_bit_nat_eq_self)

lemma unat_sub_small: "m \<le> unat a \<Longrightarrow> unat (a - of_nat m) = unat a - m" for a :: u64
proof -
  assume m: "m \<le> unat a"
  then have "unat (of_nat m :: u64) = m"
    using unsigned_less [of a, where 'a = nat] by (simp add: unsigned_of_nat take_bit_nat_eq_self)
  then show ?thesis using m by (simp add: unat_sub_if_size)
qed

lemma unat_add_of_nat: "unat (a + of_nat m) = (unat a + m) mod 2 ^ 64" for a :: u64
  by (simp add: unat_word_ariths unsigned_of_nat take_bit_eq_mod mod_add_right_eq)

lemma aligned_add: "unat a mod 2 ^ 12 = 0 \<Longrightarrow> 12 \<le> s \<Longrightarrow> unat (a + of_nat (2 ^ s)) mod 2 ^ 12 = 0" for a :: u64
proof -
  assume a: "unat a mod 2 ^ 12 = 0" and "12 \<le> s"
  then have "(2 :: nat) ^ 12 dvd 2 ^ s" by (intro le_imp_power_dvd)
  moreover have "2 ^ 12 dvd unat a" using a by (rule mod_0_imp_dvd)
  ultimately have "2 ^ 12 dvd unat a + 2 ^ s" by (intro dvd_add)
  moreover have "(2 :: nat) ^ 12 dvd 2 ^ 64" by (intro le_imp_power_dvd) simp
  ultimately have "2 ^ 12 dvd (unat a + 2 ^ s) mod 2 ^ 64" by (intro dvd_mod)
  then show ?thesis unfolding unat_add_of_nat by (rule dvd_imp_mod_0)
qed

text \<open>What a call leaves that mapped \<open>k\<close> bytes from \<open>virt\<close> on.\<close>

definition mapped_part :: "pmap \<Rightarrow> pmap \<Rightarrow> u64 \<Rightarrow> u64 \<Rightarrow> u32 \<Rightarrow> nat \<Rightarrow> bool" where
  "mapped_part pm pm' virt phys vprot k \<longleftrightarrow>
     wf_pmap pm' \<and> num_levels pm' = num_levels pm \<and>
     (\<forall>v. if dist (num_levels pm) virt v < k
        then leaf_of pm v = None \<and>
          (\<exists>w d. leaf_of pm' v = Some (w, d) \<and> translate (w, d) v = (phys + of_nat (dist (num_levels pm) virt v), vprot_seen vprot) \<and>
             (\<forall>u. same_way (num_levels pm) d v u \<longrightarrow> dist (num_levels pm) virt u < k))
        else leaf_of pm' v = leaf_of pm v)"

lemma mapped_none: "wf_pmap pm' \<Longrightarrow> num_levels pm' = num_levels pm \<Longrightarrow> (\<And>v. leaf_of pm' v = leaf_of pm v) \<Longrightarrow> mapped_part pm pm' virt phys vprot 0"
  by (simp add: mapped_part_def)

lemma mapped_more:
  assumes first: "0 < d" "d \<le> num_levels pm" "num_levels pm \<le> 5" "unat virt mod 2 ^ pmentry_level_shift d = 0" "frame_aligned d phys"
    and leaf: "\<And>v. leaf_of pm2 v = (if dist (num_levels pm) virt v < 2 ^ pmentry_level_shift d then Some (pmentry_setup phys vprot d, d) else leaf_of pm v)"
      "\<And>v. dist (num_levels pm) virt v < 2 ^ pmentry_level_shift d \<Longrightarrow> leaf_of pm v = None" "num_levels pm2 = num_levels pm"
    and rest: "mapped_part pm2 pm' (virt + of_nat (2 ^ pmentry_level_shift d)) (phys + of_nat (2 ^ pmentry_level_shift d)) vprot k"
      "2 ^ pmentry_level_shift d + k \<le> 2 ^ (12 + 9 * num_levels pm)"
  shows "mapped_part pm pm' virt phys vprot (2 ^ pmentry_level_shift d + k)"
proof -
  let ?n = "num_levels pm"
  define b where "b = (2 :: nat) ^ pmentry_level_shift d"
  define N where "N = (2 :: nat) ^ (12 + 9 * ?n)"
  note leaf = leaf [folded b_def]
  note block = block_aligned [OF first(1-4), folded b_def]
  have bk: "b + k \<le> N" using rest(2) unfolding b_def N_def .
  then have dist': "dist ?n (virt + of_nat b) v = (if b \<le> dist ?n virt v then dist ?n virt v - b else dist ?n virt v + N - b)" for v
    using dist_step [OF first(3), of b virt v] unfolding N_def by linarith
  note beyond = dist_beyond [OF first(3), of b "b + k", folded N_def]
  note r = rest(1) [folded b_def, unfolded mapped_part_def leaf(3)]
  note rv = r [THEN conjunct2, THEN conjunct2, THEN spec]
  have "if dist ?n virt v < b + k
        then leaf_of pm v = None \<and>
          (\<exists>w d. leaf_of pm' v = Some (w, d) \<and> translate (w, d) v = (phys + of_nat (dist ?n virt v), vprot_seen vprot) \<and>
             (\<forall>u. same_way ?n d v u \<longrightarrow> dist ?n virt u < b + k))
        else leaf_of pm' v = leaf_of pm v" for v
  proof (cases "dist ?n virt v < b")
    case True
    then have w: "same_way ?n d virt v" using block by simp
    have "\<not> dist ?n (virt + of_nat b) v < k" unfolding dist' using True bk by simp
    then have "leaf_of pm' v = Some (pmentry_setup phys vprot d, d)" using rv [of v] leaf(1) [of v] True by simp
    moreover have "dist ?n virt u < b + k" if "same_way ?n d v u" for u
      using block [of u] same_way_trans [OF w that] by simp
    moreover have "translate (pmentry_setup phys vprot d, d) v = (phys + of_nat (dist ?n virt v), vprot_seen vprot)"
      unfolding translate_setup [OF first(1, 5)] block_offset [OF first(1-4) w] ..
    ultimately show ?thesis using leaf(2) [OF True] True by simp
  next
    case False
    then have d': "dist ?n (virt + of_nat b) v = dist ?n virt v - b" unfolding dist' by simp
    have same: "leaf_of pm2 v = leaf_of pm v" using leaf(1) False by simp
    show ?thesis
    proof (cases "dist ?n virt v < b + k")
      case in_range: True
      then have "dist ?n (virt + of_nat b) v < k" unfolding d' using False by simp
      then obtain w l where "leaf_of pm2 v = None" and l: "leaf_of pm' v = Some (w, l)"
        "translate (w, l) v = (phys + of_nat b + of_nat (dist ?n (virt + of_nat b) v), vprot_seen vprot)"
        "\<And>u. same_way ?n l v u \<Longrightarrow> dist ?n (virt + of_nat b) u < k"
        using rv [of v] by (auto simp only: if_True)
      moreover have "phys + of_nat b + of_nat (dist ?n (virt + of_nat b) v) = phys + of_nat (dist ?n virt v)"
        unfolding d' using False by (simp add: of_nat_diff)
      moreover have "dist ?n virt u < b + k" if "same_way ?n l v u" for u
      proof -
        have "dist ?n (virt + of_nat b) u < b + k - b" using l(3) [OF that] by simp
        then show ?thesis using beyond bk by simp
      qed
      ultimately show ?thesis using in_range unfolding same by simp
    next
      case out: False
      then have "\<not> dist ?n (virt + of_nat b) v < k" unfolding d' using False by simp
      then show ?thesis using rv [of v] same out by simp
    qed
  qed
  then show ?thesis using r unfolding mapped_part_def b_def [symmetric] by blast
qed

lemma map_range_part:
  assumes "wf_pmap pm" "unat virt mod 2 ^ 12 = 0" "unat phys mod 2 ^ 12 = 0" "unat len mod 2 ^ 12 = 0"
    "unat phys + unat len \<le> 2 ^ 52" "unat len \<le> 2 ^ (12 + 9 * num_levels pm)" "max_leaf \<le> num_levels pm"
  shows "\<exists>res mem' pm' k. map_range_from max_leaf virt phys len vprot mem pm = Some (res, mem', pm') \<and>
    mapped_part pm pm' virt phys vprot k \<and> k \<le> unat len \<and> (case res of Inr _ \<Rightarrow> k = unat len | Inl err \<Rightarrow> err = ENOMEM \<or> err = EEXIST)"
  using assms
proof (induction "unat len" arbitrary: virt phys len mem pm rule: less_induct)
  case less
  let ?n = "num_levels pm"
  have n: "0 < ?n" "?n \<le> 5" using less.prems(1) by (simp_all add: wf_pmap_def)
  show ?case
  proof (cases "len = 0")
    case True
    then show ?thesis using mapped_none [OF less.prems(1) refl refl] by (simp add: map_range_from.simps)
  next
    case False
    define d where "d = pick_leaf_level max_leaf virt phys len vprot"
    have d: "0 < d" "d \<le> ?n" and virt: "unat virt mod 2 ^ pmentry_level_shift d = 0" and phys: "unat phys mod 2 ^ pmentry_level_shift d = 0"
      and fits: "2 ^ pmentry_level_shift d \<le> unat len"
      using pick_leaf_level_fits [OF less.prems(2-4) False less.prems(7) n(2, 1), of vprot] unfolding d_def by auto
    obtain found mem1 t where a: "walk_allocate virt d ?n mem (root pm) = (found, mem1, t)" by (metis prod_cases3)
    define pm1 where "pm1 = pm\<lparr>root := t\<rparr>"
    note al = allocate_leaf [OF less.prems(1) d a, folded pm1_def]
    have t: "root pm1 = t" by (simp add: pm1_def)
    obtain e at where w: "pmentry_walk virt d ?n t = (e, at)" by fastforce
    note unfold = map_range_from.simps [of max_leaf virt phys len vprot mem pm, folded d_def, unfolded a Let_def prod.case, folded pm1_def, unfolded w al(2) prod.case]
    show ?thesis
    proof (cases "found \<and> \<not> (case e of None \<Rightarrow> False | Some e \<Rightarrow> pte_valid e)")
      case False
      then have "map_range_from max_leaf virt phys len vprot mem pm = Some (Inl ENOMEM, mem1, pm1) \<or>
          map_range_from max_leaf virt phys len vprot mem pm = Some (Inl EEXIST, mem1, pm1)"
        unfolding unfold using \<open>len \<noteq> 0\<close> w al(2) by (auto split: option.splits)
      then show ?thesis using mapped_none [OF al(1-3)] by fastforce
    next
      case True
      then obtain e' where e: "e = Some e'" "\<not> pte_valid e'" using al(4) w by (cases e) auto
      define pm2 where "pm2 = store_at virt at (Entry (pmentry_setup phys vprot d)) pm1"
      have walk: "pmentry_walk virt d (num_levels pm1) (root pm1) = (Some e', at)" using w e al(2) t by simp
      note st = map_step(1-3) [where phys = phys and vprot = vprot, OF al(1) d [folded al(2)] virt walk e(2), folded pm2_def, unfolded al(2, 3)]
        and free = map_step(4) [OF al(1) d [folded al(2)] virt walk e(2), unfolded al(2, 3)]
      define b where "b = (2 :: nat) ^ pmentry_level_shift d"
      have b: "b \<le> unat len" "0 < b" "pmentry_level_size d = of_nat b" using fits unfolding b_def by (simp_all add: level_size_of_nat)
      have s12: "12 \<le> pmentry_level_shift d" by (simp add: level_shift)
      have "unat phys < 2 ^ 52" using b less.prems(5) by linarith
      then have aligned: "frame_aligned d phys" by (rule frame_alignedI_nat [OF phys])
      have len': "unat (len - of_nat b) = unat len - b" by (rule unat_sub_small [OF b(1)])
      have phys': "unat (phys + of_nat b) = unat phys + b" using b(1) less.prems(5) by (intro unat_add_small) simp
      have b12: "2 ^ 12 dvd b" unfolding b_def using s12 by (rule le_imp_power_dvd)
      have len12: "unat (len - of_nat b) mod 2 ^ 12 = 0"
        unfolding len' by (rule dvd_imp_mod_0 [OF dvd_diff_nat [OF mod_0_imp_dvd [OF less.prems(4)] b12]])
      have sum: "unat (phys + of_nat b) + unat (len - of_nat b) \<le> 2 ^ 52" unfolding len' phys' using less.prems(5) b(1) by linarith
      have shorter: "unat (len - of_nat b) < unat len" unfolding len' using b(1, 2) by linarith
      have small: "unat (len - of_nat b) \<le> 2 ^ (12 + 9 * num_levels pm2)" unfolding st(2) using shorter less.prems(6) by linarith
      from less.hyps [OF shorter st(1) aligned_add [OF less.prems(2) s12, folded b_def] aligned_add [OF less.prems(3) s12, folded b_def]
          len12 sum small less.prems(7) [folded st(2)], of mem1]
      obtain res mem' pm' k where m: "map_range_from max_leaf (virt + of_nat b) (phys + of_nat b) (len - of_nat b) vprot mem1 pm2 = Some (res, mem', pm')"
        and k: "mapped_part pm2 pm' (virt + of_nat b) (phys + of_nat b) vprot k" "k \<le> unat len - b"
        and res: "case res of Inr _ \<Rightarrow> k = unat len - b | Inl err \<Rightarrow> err = ENOMEM \<or> err = EEXIST"
        unfolding len' by blast
      have "mapped_part pm pm' virt phys vprot (b + k)"
      proof (rule mapped_more [OF d n(2) virt aligned st(3) free st(2), folded b_def, OF _ k(1)])
        show "b + k \<le> 2 ^ (12 + 9 * ?n)" using b(1) k(2) less.prems(6) by linarith
      qed
      moreover have "map_range_from max_leaf virt phys len vprot mem pm = Some (res, mem', pm')"
        unfolding unfold using \<open>len \<noteq> 0\<close> True e(2) m unfolding e(1) by (simp add: b(3) pm2_def)
      ultimately show ?thesis using k(2) res b(1) by (intro exI [of _ res] exI [of _ mem'] exI [of _ pm'] exI [of _ "b + k"]) (auto split: sum.splits)
    qed
  qed
qed

subsection \<open>Unmapping\<close>

lemma walk_missing:
  "wf_table level t \<Longrightarrow> 0 < leaf \<Longrightarrow> leaf \<le> level \<Longrightarrow> pmentry_walk virt leaf level t = (None, k) \<Longrightarrow>
    \<exists>w. reaches virt k (Entry w) level t \<and> \<not> pmentry_valid w"
proof (induction level arbitrary: t)
  case (Suc level)
  let ?e = "t ! pte_index virt (Suc level)"
  have wf: "wf_pte (Suc level) ?e" by (rule wf_nth [OF Suc.prems(1)])
  have leaf: "leaf < Suc level" "\<not> (pte_valid ?e \<and> pte_leaf ?e (Suc level))"
    using Suc.prems(4) by (auto simp: pmentry_walk.simps [of virt leaf "Suc level"] Let_def split: if_splits)
  show ?case
  proof (cases ?e)
    case (Entry w)
    then have "k = Suc level" "\<not> pmentry_valid w"
      using Suc.prems(4) leaf wf by (auto simp: pmentry_walk.simps [of virt leaf "Suc level"] Let_def wf_pte_def pte_valid_def pte_leaf_def)
    then show ?thesis using Entry by auto
  next
    case (Table t')
    then have w: "pmentry_walk virt leaf level t' = (None, k)"
      using Suc.prems(4) leaf by (auto simp: pmentry_walk.simps [of virt leaf "Suc level"] Let_def)
    have "wf_table level t'" "leaf \<le> level" using wf Table leaf(1) by (simp_all add: wf_pte_def)
    from Suc.IH [OF this(1) Suc.prems(2) this(2) w] obtain w where "reaches virt k (Entry w) level t'" "\<not> pmentry_valid w" by blast
    then show ?thesis using Table reaches_le [of virt k "Entry w" level t'] by auto
  qed
qed simp

lemma walk_gap:
  assumes "wf_pmap pm" "pmentry_walk virt 1 (num_levels pm) (root pm) = (e, k)" "case e of None \<Rightarrow> True | Some e \<Rightarrow> \<not> pte_valid e"
  shows "0 < k" "k \<le> num_levels pm" "same_way (num_levels pm) k virt v \<Longrightarrow> leaf_of pm v = None"
proof -
  have wf: "wf_table (num_levels pm) (root pm)" "1 \<le> num_levels pm" using assms(1) by (auto simp: wf_pmap_def)
  obtain e' where r: "reaches virt k e' (num_levels pm) (root pm)" "\<not> pte_valid e'"
  proof (cases e)
    case None
    from walk_missing [OF wf(1) _ wf(2) assms(2) [unfolded None]] show ?thesis using that by (auto simp: pte_valid_def)
  next
    case (Some e')
    then show ?thesis using assms walk_free(1, 2) [OF assms(1) _ wf(2), of virt e' k] that by auto
  qed
  show "0 < k" "k \<le> num_levels pm" using reaches_le [OF r(1)] by simp_all
  have "wf_pte k (Entry PMENTRY_NULL)" by (simp add: wf_pte_def)
  from store_leaf(4) [OF assms(1) r(1) this] r(2) show "leaf_of pm v = None" if "same_way (num_levels pm) k virt v"
    using that by (cases e') (auto simp: look_pte_def pte_valid_def)
qed

lemma leaf_block:
  assumes "wf_pmap pm" "leaf_of pm v = Some (w, d)" "same_way (num_levels pm) d v u"
  shows "leaf_of pm u = Some (w, d)"
proof -
  note f = walk_found [OF assms(1) assms(2) [unfolded leaf_of_def]]
  have "wf_pte d (Entry PMENTRY_NULL)" by (simp add: wf_pte_def)
  from store_leaf(4) [OF assms(1) f(2) this assms(3)] show ?thesis using f(3) by (simp add: look_pte_def)
qed

text \<open>A range that no leaf reaches out of.\<close>

definition inside :: "pmap \<Rightarrow> u64 \<Rightarrow> nat \<Rightarrow> bool" where
  "inside pm virt len \<longleftrightarrow>
     (\<forall>v w d u. dist (num_levels pm) virt v < len \<longrightarrow> leaf_of pm v = Some (w, d) \<longrightarrow> same_way (num_levels pm) d v u \<longrightarrow>
        dist (num_levels pm) virt u < len)"

definition cleared :: "pmap \<Rightarrow> pmap \<Rightarrow> u64 \<Rightarrow> nat \<Rightarrow> bool" where
  "cleared pm pm' virt len \<longleftrightarrow> (\<forall>v. leaf_of pm' v = (if dist (num_levels pm) virt v < len then None else leaf_of pm v))"

definition cleared_view :: "pmap \<Rightarrow> pmap \<Rightarrow> u64 \<Rightarrow> nat \<Rightarrow> bool" where
  "cleared_view pm pm' virt len \<longleftrightarrow> wf_pmap pm' \<and> num_levels pm' = num_levels pm \<and>
     (\<forall>v. pmap_view pm' v = (if dist (num_levels pm) virt v < len then None else pmap_view pm v))"

lemma cleared_self: "cleared pm pm virt len \<longleftrightarrow> (\<forall>v. dist (num_levels pm) virt v < len \<longrightarrow> leaf_of pm v = None)"
  unfolding cleared_def by (metis (full_types))

lemma dist_onward:
  assumes "n \<le> 5" "b + k \<le> 2 ^ (12 + 9 * n)"
  shows "dist n (virt + of_nat b) v < k \<longleftrightarrow> b \<le> dist n virt v \<and> dist n virt v < b + k"
  using dist_beyond [OF assms(1), of b "b + k" virt v] assms(2) by simp

lemma clear_more:
  assumes "num_levels pm \<le> 5" "cleared pm pm2 virt b" "num_levels pm2 = num_levels pm" "b + k \<le> 2 ^ (12 + 9 * num_levels pm)"
  shows "cleared_view pm2 pm' (virt + of_nat b) k \<Longrightarrow> cleared_view pm pm' virt (b + k)"
    "cleared pm2 pm' (virt + of_nat b) k \<Longrightarrow> cleared pm pm' virt (b + k)"
    "wf_pmap pm2 \<Longrightarrow> inside pm virt (b + k) \<Longrightarrow> inside pm2 (virt + of_nat b) k"
proof -
  note on = dist_onward [OF assms(1, 4)]
  show "cleared_view pm2 pm' (virt + of_nat b) k \<Longrightarrow> cleared_view pm pm' virt (b + k)"
    using assms(2, 3) unfolding cleared_view_def cleared_def by (auto simp: on view_leaf)
  show "cleared pm2 pm' (virt + of_nat b) k \<Longrightarrow> cleared pm pm' virt (b + k)"
    using assms(2, 3) unfolding cleared_def by (auto simp: on)
  assume wf: "wf_pmap pm2" and "inside pm virt (b + k)"
  then have i: "dist (num_levels pm) virt u < b + k"
    if "dist (num_levels pm) virt v < b + k" "leaf_of pm v = Some (w, d)" "same_way (num_levels pm) d v u" for v w d u
    using that unfolding inside_def by blast
  show "inside pm2 (virt + of_nat b) k"
    unfolding inside_def assms(3) on
  proof (intro allI impI)
    fix v w d u
    assume v: "b \<le> dist (num_levels pm) virt v \<and> dist (num_levels pm) virt v < b + k" and l: "leaf_of pm2 v = Some (w, d)"
      and u: "same_way (num_levels pm) d v u"
    have lv: "leaf_of pm v = Some (w, d)" using l v assms(2) by (simp add: cleared_def split: if_splits)
    have "dist (num_levels pm) virt u < b + k" using i [OF _ lv u] v by simp
    moreover have "leaf_of pm2 u = Some (w, d)" using leaf_block [OF wf l] u assms(3) by simp
    then have "b \<le> dist (num_levels pm) virt u" using assms(2) by (simp add: cleared_def split: if_splits)
    ultimately show "b \<le> dist (num_levels pm) virt u \<and> dist (num_levels pm) virt u < b + k" by simp
  qed
qed

lemma inside_block:
  assumes wf: "wf_pmap pm" and leaf: "leaf_of pm virt = Some (w, d)" and i: "inside pm virt len" "0 < len"
    and len: "len + 2 ^ pmentry_level_shift d \<le> 2 ^ (12 + 9 * num_levels pm)"
  shows "unat virt mod 2 ^ pmentry_level_shift d = 0 \<and> 2 ^ pmentry_level_shift d \<le> len"
proof -
  let ?n = "num_levels pm"
  define b where "b = (2 :: nat) ^ pmentry_level_shift d"
  define N where "N = (2 :: nat) ^ (12 + 9 * ?n)"
  have n: "?n \<le> 5" using wf by (simp add: wf_pmap_def)
  have d: "0 < d" "d \<le> ?n" using walk_found(4, 5) [OF wf leaf [unfolded leaf_of_def]] by simp_all
  have b0: "0 < b" and bN: "len + b \<le> N" using len unfolding b_def N_def by simp_all
  have in_len: "dist ?n virt u < len" if "same_way ?n d virt u" for u
    using i that leaf unfolding inside_def by (metis dist_self)
  define r where "r = unat virt mod b"
  define base where "base = virt - of_nat r"
  have r: "r < b" "r \<le> unat virt" using b0 unfolding r_def by simp_all
  then have base: "unat base mod b = 0" unfolding base_def by (simp add: unat_sub_small) (simp add: r_def minus_mod_eq_mult_div)
  have virt: "virt = base + of_nat r" by (simp add: base_def)
  have block: "same_way ?n d base u \<longleftrightarrow> dist ?n base u < b" for u
    using block_aligned [OF d n base [unfolded b_def]] unfolding b_def .
  have "dist ?n base virt = r" unfolding virt using r(1) bN by (intro dist_near [OF n]) (simp add: N_def)
  then have way: "same_way ?n d virt base" using block [of virt] r(1) same_way_sym by simp
  have "r = 0"
  proof (rule ccontr)
    assume "r \<noteq> 0"
    have "r \<le> N" using r(1) bN by linarith
    from dist_step [OF n this [unfolded N_def], of base base]
    have "dist ?n virt base = N - r" using \<open>r \<noteq> 0\<close> by (simp add: virt [symmetric] N_def)
    then show False using in_len [OF way] bN r(1) by linarith
  qed
  then have virt': "virt = base" by (simp add: base_def)
  moreover have "b \<le> len"
  proof (rule ccontr)
    assume "\<not> b \<le> len"
    then have "dist ?n virt (virt + of_nat len) = len" using bN by (intro dist_near [OF n]) (simp add: N_def)
    then show False using in_len [of "virt + of_nat len"] block [of "virt + of_nat len"] \<open>\<not> b \<le> len\<close> unfolding virt' by simp
  qed
  ultimately show ?thesis using base unfolding b_def by simp
qed

definition leaf_level :: "pmap \<Rightarrow> u64 \<Rightarrow> nat" where
  "leaf_level pm v = (case leaf_of pm v of None \<Rightarrow> 0 | Some (_, d) \<Rightarrow> d)"

lemma leaf_level_le: "wf_pmap pm \<Longrightarrow> leaf_level pm v \<le> 5"
  using walk_found(5) [of pm v] by (auto simp: leaf_level_def leaf_of_def wf_pmap_def split: option.splits)

definition unmap_result :: "pmap \<Rightarrow> u64 \<Rightarrow> nat \<Rightarrow> nat \<Rightarrow> (unit result \<times> nat \<times> pmap) option \<Rightarrow> bool" where
  "unmap_result pm virt len mem r \<longleftrightarrow>
     (\<exists>res mem' pm' k. r = Some (res, mem', pm') \<and> cleared_view pm pm' virt k \<and> k \<le> len \<and>
        (case res of Inr _ \<Rightarrow> k = len | Inl err \<Rightarrow> err = ENOMEM) \<and> (inside pm virt len \<longrightarrow> res = Inr () \<and> mem' = mem \<and> cleared pm pm' virt len))"

lemma unmap_step:
  assumes "wf_pmap pm2" "num_levels pm \<le> 5" "cleared pm pm2 virt b" "num_levels pm2 = num_levels pm" "b \<le> len" "len \<le> 2 ^ (12 + 9 * num_levels pm)"
    and r: "unmap_result pm2 (virt + of_nat b) (len - b) mem r"
  shows "unmap_result pm virt len mem r"
proof -
  from r obtain res mem' pm' k where k: "r = Some (res, mem', pm')" "cleared_view pm2 pm' (virt + of_nat b) k" "k \<le> len - b"
      "case res of Inr _ \<Rightarrow> k = len - b | Inl err \<Rightarrow> err = ENOMEM"
      "inside pm2 (virt + of_nat b) (len - b) \<Longrightarrow> res = Inr () \<and> mem' = mem \<and> cleared pm2 pm' (virt + of_nat b) (len - b)"
    unfolding unmap_result_def by blast
  have part: "b + k \<le> 2 ^ (12 + 9 * num_levels pm)" "b + k \<le> len" using k(3) assms(5, 6) by linarith+
  have whole: "b + (len - b) \<le> 2 ^ (12 + 9 * num_levels pm)" "b + (len - b) = len" using assms(5, 6) by linarith+
  note c = clear_more [OF assms(2-4) whole(1), unfolded whole(2)]
  have "cleared_view pm pm' virt (b + k)" by (rule clear_more(1) [OF assms(2-4) part(1) k(2)])
  moreover have "case res of Inr _ \<Rightarrow> b + k = len | Inl err \<Rightarrow> err = ENOMEM" using k(4) whole(2) by (cases res) simp_all
  moreover have "res = Inr () \<and> mem' = mem \<and> cleared pm pm' virt len" if "inside pm virt len"
    using k(5) [OF c(3) [OF assms(1) that]] c(2) by blast
  ultimately show ?thesis unfolding unmap_result_def using k(1) part(2) by blast
qed

text \<open>One turn of the loop over an address that nothing translates.\<close>

lemma unmap_gap:
  assumes wf: "wf_pmap pm" and virt: "virt < last_virt" "unat virt mod 2 ^ 12 = 0"
    and walk: "pmentry_walk virt 1 (num_levels pm) (root pm) = (e, d)" and gap: "case e of None \<Rightarrow> True | Some e \<Rightarrow> \<not> pte_valid e"
  obtains c where "0 < c" "2 ^ 12 dvd c" "c \<le> 2 ^ pmentry_level_shift (num_levels pm)" "cleared pm pm virt c"
    "unmap_range_from virt last_virt mem pm = unmap_range_from (virt + of_nat c) last_virt mem pm"
proof -
  let ?n = "num_levels pm"
  note d = walk_gap [OF wf walk gap]
  have n: "?n \<le> 5" using wf by (simp add: wf_pmap_def)
  define b where "b = (2 :: nat) ^ pmentry_level_shift d"
  define c where "c = b - unat virt mod b"
  have s64: "pmentry_level_shift d < 64" using d(2) n by (simp add: level_shift)
  have "2 ^ 12 dvd b" unfolding b_def by (intro le_imp_power_dvd) (simp add: level_shift)
  then have "0 < c" "2 ^ 12 dvd c"
    unfolding c_def using virt(2) by (simp_all add: b_def, intro dvd_diff_nat dvd_mod) (auto simp: mod_0_imp_dvd)
  moreover have "b \<le> 2 ^ pmentry_level_shift ?n" unfolding b_def using d(2) by (intro power_increasing) (simp_all add: level_shift)
  then have "c \<le> 2 ^ pmentry_level_shift ?n" unfolding c_def by linarith
  moreover have "cleared pm pm virt c"
    using d(3) near_same_way [OF d(1, 2) n, of virt] unfolding cleared_def c_def b_def by auto
  moreover have "(virt OR (pmentry_level_size d - 1)) + 1 = virt + of_nat c"
    unfolding level_size_mask block_skip [OF s64] c_def b_def ..
  then have "unmap_range_from virt last_virt mem pm = unmap_range_from (virt + of_nat c) last_virt mem pm"
    using virt(1) walk gap unmap_range_from.simps [of virt last_virt mem pm] by (auto simp: Let_def split: option.splits)
  ultimately show ?thesis by (rule that)
qed

text \<open>One turn over an address that is mapped: its entry is cleared, or split when it reaches out of the range.\<close>

lemma unmap_leaf:
  assumes wf: "wf_pmap pm" and virt: "virt < last_virt" and leaf: "leaf_of pm virt = Some (w, d)"
  defines "b \<equiv> 2 ^ pmentry_level_shift d" and "len \<equiv> unat last_virt - unat virt"
  shows "unmap_range_from virt last_virt mem pm =
    (if unat virt mod b = 0 \<and> b \<le> len then unmap_range_from (virt + of_nat b) last_virt mem (store_at virt d (Entry PMENTRY_NULL) pm)
     else case split_large_nolock mem (Entry w) d of
       None \<Rightarrow> Some (Inl ENOMEM, mem, pm)
     | Some (t, mem) \<Rightarrow> unmap_range_from virt last_virt mem (store_at virt d t pm))"
    "unat virt mod b = 0 \<and> b \<le> len \<Longrightarrow> cleared pm (store_at virt d (Entry PMENTRY_NULL) pm) virt b"
proof -
  let ?m = "pmentry_level_size d - 1"
  note f = walk_found [OF wf leaf [unfolded leaf_of_def]]
  have n: "num_levels pm \<le> 5" using wf by (simp add: wf_pmap_def)
  then have d: "d \<le> 5" using f(5) by simp
  have "0 < b" by (simp add: b_def)
  have "unat (last_virt - virt) = len" using virt unfolding len_def by (intro unat_sub less_imp_le)
  then have cond: "virt AND ?m = 0 \<and> last_virt - virt > ?m \<longleftrightarrow> unat virt mod b = 0 \<and> b \<le> len"
    using unat_level_mask [OF d, folded b_def] \<open>0 < b\<close>
    unfolding word_less_nat_alt mask_zero [of virt "pmentry_level_shift d", folded level_size_mask b_def] by auto
  show "unmap_range_from virt last_virt mem pm =
    (if unat virt mod b = 0 \<and> b \<le> len then unmap_range_from (virt + of_nat b) last_virt mem (store_at virt d (Entry PMENTRY_NULL) pm)
     else case split_large_nolock mem (Entry w) d of
       None \<Rightarrow> Some (Inl ENOMEM, mem, pm)
     | Some (t, mem) \<Rightarrow> unmap_range_from virt last_virt mem (store_at virt d t pm))"
    unfolding unmap_range_from.simps [of virt last_virt mem pm] f(1) prod.case Let_def option.case cond
    using virt f(3) by (simp add: pte_valid_def b_def level_size_of_nat)
  assume "unat virt mod b = 0 \<and> b \<le> len"
  moreover have "wf_pte d (Entry PMENTRY_NULL)" by (simp add: wf_pte_def)
  note store_leaf(3) [OF wf f(2) this]
  ultimately show "cleared pm (store_at virt d (Entry PMENTRY_NULL) pm) virt b"
    using block_aligned [OF f(4, 5) n, of virt] unfolding cleared_def b_def by (simp add: look_pte_def)
qed

lemma inside_leaf:
  assumes wf: "wf_pmap pm" and leaf: "leaf_of pm virt = Some (w, d)" and "inside pm virt len" "0 < len" "len \<le> 2 ^ (11 + 9 * num_levels pm)"
  shows "unat virt mod 2 ^ pmentry_level_shift d = 0 \<and> 2 ^ pmentry_level_shift d \<le> len"
proof (rule inside_block [OF assms(1-4)])
  have "d \<le> num_levels pm" using walk_found(5) [OF wf leaf [unfolded leaf_of_def]] .
  then have "(2 :: nat) ^ pmentry_level_shift d \<le> 2 ^ (11 + 9 * num_levels pm)"
    using walk_found(4) [OF wf leaf [unfolded leaf_of_def]] by (intro power_increasing) (simp_all add: level_shift)
  moreover have "(2 :: nat) ^ (12 + 9 * num_levels pm) = 2 ^ (11 + 9 * num_levels pm) + 2 ^ (11 + 9 * num_levels pm)" by (simp add: power_add)
  ultimately show "len + 2 ^ pmentry_level_shift d \<le> 2 ^ (12 + 9 * num_levels pm)" using assms(5) by linarith
qed

text \<open>The splitting turn.\<close>

lemma unmap_split:
  assumes wf: "wf_pmap pm" and virt: "virt < last_virt" "unat virt mod 2 ^ 12 = 0" "unat last_virt mod 2 ^ 12 = 0"
    and leaf: "leaf_of pm virt = Some (w, d)" and len: "unat last_virt - unat virt \<le> 2 ^ (11 + 9 * num_levels pm)"
    and out: "\<not> (unat virt mod 2 ^ pmentry_level_shift d = 0 \<and> 2 ^ pmentry_level_shift d \<le> unat last_virt - unat virt)"
    and IH: "\<And>mem1 pm2. wf_pmap pm2 \<Longrightarrow> num_levels pm2 = num_levels pm \<Longrightarrow> leaf_level pm2 virt < leaf_level pm virt \<Longrightarrow>
      unmap_result pm2 virt (unat last_virt - unat virt) mem1 (unmap_range_from virt last_virt mem1 pm2)"
  shows "unmap_result pm virt (unat last_virt - unat virt) mem (unmap_range_from virt last_virt mem pm)"
proof -
  define l where "l = unat last_virt - unat virt"
  have pos: "0 < l" using virt(1) by (simp add: l_def word_less_nat_alt)
  note u = unmap_leaf(1) [OF wf virt(1) leaf, folded l_def]
  have no: "\<not> inside pm virt l" using inside_leaf [OF wf leaf _ pos] len out unfolding l_def by blast
  have "d \<noteq> 1"
  proof
    assume "d = 1"
    moreover have "2 ^ 12 dvd l" unfolding l_def using virt(2, 3) by (intro dvd_diff_nat mod_0_imp_dvd)
    then have "2 ^ 12 \<le> l" using pos by (rule dvd_imp_le)
    ultimately show False using out virt(2) unfolding l_def by (simp add: level_shift)
  qed
  then obtain d0 where d0: "d = Suc d0" "0 < d0" using walk_found(4) [OF wf leaf [unfolded leaf_of_def]] by (cases d) auto
  show ?thesis
  proof (cases "split_large_nolock mem (Entry w) d")
    case None
    then have "unmap_range_from virt last_virt mem pm = Some (Inl ENOMEM, mem, pm)" using u out unfolding l_def by auto
    then show ?thesis using no wf unfolding unmap_result_def l_def by (auto simp: cleared_view_def intro!: exI [of _ 0])
  next
    case (Some tm)
    obtain t mem1 where tm: "tm = (t, mem1)" by (cases tm)
    define pm2 where "pm2 = store_at virt d t pm"
    have eq: "unmap_range_from virt last_virt mem pm = unmap_range_from virt last_virt mem1 pm2"
      using u out Some tm unfolding l_def by (auto simp: pm2_def)
    note sv = split_view [OF wf leaf [unfolded leaf_of_def d0(1)] d0(2) Some [unfolded tm d0(1)], folded d0(1), folded pm2_def]
    have "leaf_level pm2 virt < leaf_level pm virt"
      using sv(4) leaf unfolding leaf_level_def leaf_of_def d0(1) by auto
    from IH [OF sv(1, 2) this, of mem1] show ?thesis
      using no sv(2, 3) unfolding eq unmap_result_def cleared_view_def l_def [symmetric] by auto
  qed
qed

lemma unmap_range_part:
  assumes "wf_pmap pm" "unat virt mod 2 ^ 12 = 0" "unat last_virt mod 2 ^ 12 = 0" "unat last_virt + 2 ^ pmentry_level_shift (num_levels pm) \<le> 2 ^ 64"
    "unat last_virt - unat virt \<le> 2 ^ (11 + 9 * num_levels pm)"
  shows "unmap_result pm virt (unat last_virt - unat virt) mem (unmap_range_from virt last_virt mem pm)"
  using assms
proof (induction "(unat last_virt - unat virt) * 6 + leaf_level pm virt" arbitrary: virt mem pm rule: less_induct)
  case less
  let ?n = "num_levels pm"
  define len where "len = unat last_virt - unat virt"
  have n: "?n \<le> 5" using less.prems(1) by (simp add: wf_pmap_def)
  have room: "unat last_virt < 2 ^ 64" using unsigned_less [of last_virt, where 'a = nat] by simp
  have finished: "unmap_result pm virt len mem (Some (Inr (), mem, pm))" if "cleared pm pm virt len"
    using that less.prems(1) unfolding unmap_result_def cleared_view_def cleared_self by (auto simp: view_leaf cleared_self)
  have IH: "unmap_result pm virt len mem (unmap_range_from (virt + of_nat c) last_virt mem pm2)"
    if c: "wf_pmap pm2" "num_levels pm2 = ?n" "cleared pm pm2 virt c" "0 < c" "c \<le> len" "2 ^ 12 dvd c" for c pm2
  proof (rule unmap_step [OF c(1) n c(3, 2, 5)])
    have virt': "unat (virt + of_nat c) = unat virt + c" using c(4, 5) room unfolding len_def by (intro unat_add_small) linarith
    then have len': "unat last_virt - unat (virt + of_nat c) = len - c" by (simp add: len_def)
    have shorter: "(unat last_virt - unat (virt + of_nat c)) * 6 + leaf_level pm2 (virt + of_nat c) < (unat last_virt - unat virt) * 6 + leaf_level pm virt"
      unfolding len' len_def [symmetric] using c(4, 5) leaf_level_le [OF c(1), of "virt + of_nat c"] by linarith
    have aligned: "unat (virt + of_nat c) mod 2 ^ 12 = 0"
      unfolding virt' by (rule dvd_imp_mod_0 [OF dvd_add [OF mod_0_imp_dvd [OF less.prems(2)] c(6)]])
    have small: "unat last_virt - unat (virt + of_nat c) \<le> 2 ^ (11 + 9 * num_levels pm2)"
      using less.prems(5) unfolding len' c(2) len_def by linarith
    from less.hyps [OF shorter c(1) aligned less.prems(3) less.prems(4) [folded c(2)] small, of mem]
    show "unmap_result pm2 (virt + of_nat c) (len - c) mem (unmap_range_from (virt + of_nat c) last_virt mem pm2)" unfolding len' .
    show "len \<le> 2 ^ (12 + 9 * ?n)" using less.prems(5) unfolding len_def by (rule order_trans) (intro power_increasing, simp_all)
  qed
  show ?case
  proof (cases "virt < last_virt")
    case False
    then have "len = 0" by (simp add: len_def word_less_nat_alt)
    then show ?thesis using finished False unfolding len_def by (simp add: unmap_range_from.simps cleared_self)
  next
    case True
    show ?thesis
    proof (cases "leaf_of pm virt")
      case None
      then obtain e d where w: "pmentry_walk virt 1 ?n (root pm) = (e, d)" "case e of None \<Rightarrow> True | Some e \<Rightarrow> \<not> pte_valid e"
        using walk_not_found [OF less.prems(1), of virt] unfolding leaf_of_def by (cases "pmentry_walk virt 1 ?n (root pm)") (auto split: option.splits)
      obtain c where c: "0 < c" "2 ^ 12 dvd c" "c \<le> 2 ^ pmentry_level_shift ?n" "cleared pm pm virt c"
        "unmap_range_from virt last_virt mem pm = unmap_range_from (virt + of_nat c) last_virt mem pm"
        by (rule unmap_gap [OF less.prems(1) True less.prems(2) w])
      show ?thesis
      proof (cases "c \<le> len")
        case True
        from IH [OF less.prems(1) refl c(4, 1) True c(2)] show ?thesis unfolding c(5) len_def .
      next
        case False
        have "unat (virt + of_nat c) = unat virt + c"
          using less.prems(4) c(3) True by (intro unat_add_small) (simp add: word_less_nat_alt)
        then have "\<not> virt + of_nat c < last_virt" using False unfolding len_def word_less_nat_alt by linarith
        then have "unmap_range_from virt last_virt mem pm = Some (Inr (), mem, pm)"
          unfolding c(5) by (subst unmap_range_from.simps) simp
        then show ?thesis using finished False c(4) unfolding len_def by (simp add: cleared_self)
      qed
    next
      case (Some wd)
      obtain w d where wd: "leaf_of pm virt = Some (w, d)" using Some by (cases wd) simp
      show ?thesis
      proof (cases "unat virt mod 2 ^ pmentry_level_shift d = 0 \<and> 2 ^ pmentry_level_shift d \<le> unat last_virt - unat virt")
        case cond: True
        have "2 ^ 12 dvd (2 :: nat) ^ pmentry_level_shift d" by (intro le_imp_power_dvd) (simp add: level_shift)
        moreover have "wf_pte d (Entry PMENTRY_NULL)" by (simp add: wf_pte_def)
        note store_leaf(1, 2) [OF less.prems(1) walk_found(2) [OF less.prems(1) wd [unfolded leaf_of_def]] this]
        ultimately show ?thesis
          using unmap_leaf(1) [OF less.prems(1) True wd, of mem] unmap_leaf(2) [OF less.prems(1) True wd] cond IH [of "store_at virt d (Entry PMENTRY_NULL) pm" "2 ^ pmentry_level_shift d"]
          unfolding len_def by simp
      next
        case False
        show ?thesis
          using less.prems(2-5) by (intro unmap_split [OF less.prems(1) True _ _ wd _ False] less.hyps) simp_all
      qed
    qed
  qed
qed

subsection \<open>Ranges that are mapped and unmapped\<close>

lemma page_mask_zero: "w AND (PAGE_SIZE - 1) = 0 \<longleftrightarrow> unat w mod 2 ^ 12 = 0"
  using mask_zero [of w 12] by (simp add: PAGE_SIZE_def mask_eq_exp_minus_1)

lemma page_offset_zero: "page_offset w = 0 \<longleftrightarrow> unat w mod 2 ^ 12 = 0"
  unfolding page_offset_def by (rule page_mask_zero)

definition in_range :: "pmap \<Rightarrow> u64 \<Rightarrow> u64 \<Rightarrow> u64 \<Rightarrow> bool" where
  "in_range pm virt len v \<longleftrightarrow> dist (num_levels pm) virt v < unat len"

text \<open>A range of whole pages that the tables and the physical address space have room for.\<close>

definition range_fits :: "pmap \<Rightarrow> u64 \<Rightarrow> u64 \<Rightarrow> bool" where
  "range_fits pm virt len \<longleftrightarrow> page_offset virt = 0 \<and> page_offset len = 0 \<and>
     unat virt + unat len + 2 ^ pmentry_level_shift (num_levels pm) \<le> 2 ^ 64 \<and> unat len \<le> 2 ^ (11 + 9 * num_levels pm)"

lemma map_range_result:
  assumes "wf_pmap pm" "range_fits pm virt len" "page_offset phys = 0" "unat phys + unat len \<le> 2 ^ 52" "max_leaf \<le> num_levels pm"
  obtains res mem' pm' k where "pmap_map_range max_leaf virt phys len vprot mem pm = Some (res, mem', pm')" "mapped_part pm pm' virt phys vprot k"
    "k \<le> unat len" "case res of Inr _ \<Rightarrow> k = unat len | Inl err \<Rightarrow> err = ENOMEM \<or> err = EEXIST"
proof -
  have p: "unat virt mod 2 ^ 12 = 0" "unat len mod 2 ^ 12 = 0" "unat phys mod 2 ^ 12 = 0"
    using assms(2, 3) unfolding range_fits_def page_offset_zero by simp_all
  have "unat len \<le> 2 ^ (11 + 9 * num_levels pm)" using assms(2) by (simp add: range_fits_def)
  also have "\<dots> \<le> 2 ^ (12 + 9 * num_levels pm)" by (intro power_increasing) simp_all
  finally have "unat len \<le> 2 ^ (12 + 9 * num_levels pm)" .
  note m = map_range_part [OF assms(1) p(1, 3, 2) assms(4) this assms(5), of vprot mem]
  have "virt AND (PAGE_SIZE - 1) = 0" "phys AND (PAGE_SIZE - 1) = 0" "len AND (PAGE_SIZE - 1) = 0" using p unfolding page_mask_zero by simp_all
  then have "(virt OR phys OR len) AND (PAGE_SIZE - 1) = 0" by (simp only: word_ao_dist or_eq_0_iff simp_thms)
  then show ?thesis using m that by (auto simp: pmap_map_range_def)
qed

lemma unmap_range_result:
  assumes "wf_pmap pm" "range_fits pm virt len"
  shows "unmap_result pm virt (unat len) mem (pmap_unmap_range_noflush virt len mem pm)"
proof -
  have p: "unat virt mod 2 ^ 12 = 0" "unat len mod 2 ^ 12 = 0"
    and top: "unat virt + unat len + 2 ^ pmentry_level_shift (num_levels pm) \<le> 2 ^ 64" and small: "unat len \<le> 2 ^ (11 + 9 * num_levels pm)"
    using assms(2) unfolding range_fits_def page_offset_zero by simp_all
  have "(0 :: nat) < 2 ^ pmentry_level_shift (num_levels pm)" by simp
  then have "unat virt + unat len < 2 ^ 64" using top by linarith
  from unat_add_small [OF this] have e: "unat (virt + len) = unat virt + unat len" by simp
  have "unat (virt + len) mod 2 ^ 12 = 0" unfolding e using p by (intro dvd_imp_mod_0 dvd_add) (auto simp: mod_0_imp_dvd)
  from unmap_range_part [OF assms(1) p(1) this, of mem] top small
  have "unmap_result pm virt (unat len) mem (unmap_range_from virt (virt + len) mem pm)" unfolding e by simp
  moreover have "virt AND (PAGE_SIZE - 1) = 0" "len AND (PAGE_SIZE - 1) = 0" using p unfolding page_mask_zero by simp_all
  then have "(virt OR len) AND (PAGE_SIZE - 1) = 0" by (simp only: word_ao_dist or_eq_0_iff simp_thms)
  ultimately show ?thesis by (simp add: pmap_unmap_range_noflush_def)
qed

text \<open>What was mapped in a range that was free lies inside it, so that no page has to be split to unmap it.\<close>

lemma mapped_inside:
  assumes "mapped_part pm pm' virt phys vprot k" "k \<le> len" "\<And>v. dist (num_levels pm) virt v < len \<Longrightarrow> leaf_of pm v = None"
  shows "inside pm' virt len"
proof -
  have m: "num_levels pm' = num_levels pm" "if dist (num_levels pm) virt v < k
        then leaf_of pm v = None \<and>
          (\<exists>w d. leaf_of pm' v = Some (w, d) \<and> translate (w, d) v = (phys + of_nat (dist (num_levels pm) virt v), vprot_seen vprot) \<and>
             (\<forall>u. same_way (num_levels pm) d v u \<longrightarrow> dist (num_levels pm) virt u < k))
        else leaf_of pm' v = leaf_of pm v" for v
    using assms(1) unfolding mapped_part_def by blast+
  show ?thesis
    unfolding inside_def m(1)
  proof (intro allI impI)
    fix v w d u
    assume v: "dist (num_levels pm) virt v < len" and l: "leaf_of pm' v = Some (w, d)" and u: "same_way (num_levels pm) d v u"
    have "dist (num_levels pm) virt v < k" using m(2) [of v] assms(3) [OF v] l by (auto split: if_splits)
    then have "dist (num_levels pm) virt u < k" using m(2) [of v] l u by auto
    then show "dist (num_levels pm) virt u < len" using assms(2) by linarith
  qed
qed

lemma unmap_mapped:
  assumes fits: "range_fits pm virt len" and m: "mapped_part pm pm' virt phys vprot k" "k \<le> unat len"
    and free: "\<And>v. dist (num_levels pm) virt v < unat len \<Longrightarrow> leaf_of pm v = None"
  shows "\<exists>pm''. pmap_unmap_range_noflush virt len mem pm' = Some (Inr (), mem, pm'') \<and> wf_pmap pm'' \<and> num_levels pm'' = num_levels pm \<and>
    (\<forall>v. leaf_of pm'' v = leaf_of pm v)"
proof -
  have wf: "wf_pmap pm'" "num_levels pm' = num_levels pm" using m(1) unfolding mapped_part_def by auto
  have "range_fits pm' virt len" using fits wf(2) by (simp add: range_fits_def)
  from unmap_range_result [OF wf(1) this, of mem] mapped_inside [OF m free]
  obtain pm'' where r: "pmap_unmap_range_noflush virt len mem pm' = Some (Inr (), mem, pm'')" "cleared pm' pm'' virt (unat len)"
    "wf_pmap pm''" "num_levels pm'' = num_levels pm'"
    unfolding unmap_result_def cleared_view_def by auto
  have "leaf_of pm'' v = leaf_of pm v" for v
  proof (cases "dist (num_levels pm) virt v < unat len")
    case True
    then show ?thesis using r(2) free wf(2) by (simp add: cleared_def)
  next
    case False
    then have "leaf_of pm' v = leaf_of pm v" using m unfolding mapped_part_def by (metis le_trans not_le)
    then show ?thesis using r(2) False wf(2) by (simp add: cleared_def)
  qed
  then show ?thesis using r wf(2) by simp
qed

lemma mapped_view:
  assumes "mapped_part pm pm' virt phys vprot k"
  shows "pmap_view pm' v = (if dist (num_levels pm) virt v < k then Some (phys + of_nat (dist (num_levels pm) virt v), vprot_seen vprot) else pmap_view pm v)"
proof -
  have "if dist (num_levels pm) virt v < k
        then leaf_of pm v = None \<and>
          (\<exists>w d. leaf_of pm' v = Some (w, d) \<and> translate (w, d) v = (phys + of_nat (dist (num_levels pm) virt v), vprot_seen vprot) \<and>
             (\<forall>u. same_way (num_levels pm) d v u \<longrightarrow> dist (num_levels pm) virt u < k))
        else leaf_of pm' v = leaf_of pm v"
    using assms unfolding mapped_part_def by blast
  then show ?thesis by (auto simp: view_leaf split: if_splits)
qed

text \<open>
  C12: Mapping a range of pages that are free returns. When it succeeds, every address of the range translates to the one as
  far into the physical range, with the protection asked for, and all others translate as before.
  Whether it succeeds or not, unmapping the range then succeeds, takes no memory however little
  there is, and leaves every address as it was before.
\<close>

theorem pmap_range_roundtrip:
  assumes "wf_pmap pm" and "range_fits pm virt len" and "page_offset phys = 0" and "unat phys + unat len \<le> 2 ^ 52" and "max_leaf \<le> num_levels pm"
    and "\<And>v. in_range pm virt len v \<Longrightarrow> pmap_view pm v = None"
  shows "\<exists>res mem' pm'. pmap_map_range max_leaf virt phys len vprot mem pm = Some (res, mem', pm') \<and>
    (res = Inr () \<longrightarrow> (\<forall>v. pmap_view pm' v =
       (if in_range pm virt len v then Some (phys + of_nat (dist (num_levels pm) virt v), vprot_seen vprot) else pmap_view pm v))) \<and>
    (\<forall>mem. \<exists>pm''. pmap_unmap_range_noflush virt len mem pm' = Some (Inr (), mem, pm'') \<and> (\<forall>v. pmap_view pm'' v = pmap_view pm v))"
proof -
  obtain res mem' pm' k where r: "pmap_map_range max_leaf virt phys len vprot mem pm = Some (res, mem', pm')" "mapped_part pm pm' virt phys vprot k"
    "k \<le> unat len" "case res of Inr _ \<Rightarrow> k = unat len | Inl err \<Rightarrow> err = ENOMEM \<or> err = EEXIST"
    by (rule map_range_result [OF assms(1-5)])
  have free: "leaf_of pm v = None" if "dist (num_levels pm) virt v < unat len" for v
    using assms(6) [of v] that by (simp add: in_range_def view_none)
  have "\<exists>pm''. pmap_unmap_range_noflush virt len mem pm' = Some (Inr (), mem, pm'') \<and> (\<forall>v. pmap_view pm'' v = pmap_view pm v)" for mem
    using unmap_mapped [OF assms(2) r(2, 3) free, of mem] by (auto simp: view_leaf)
  then show ?thesis using r(1, 4) mapped_view [OF r(2)] by (auto simp: in_range_def)
qed

theorem pmap_range_roundtrip_witness:
  "\<exists>res mem' pm'. pmap_map_range 2 0xFFFFFE0000000000 0xE0000000 0x300000 (VPROT_READ OR VPROT_WRITE) 5 empty_pmap = Some (res, mem', pm') \<and>
     (\<exists>pm''. pmap_unmap_range_noflush 0xFFFFFE0000000000 0x300000 0 pm' = Some (Inr (), 0, pm''))"
proof -
  have v: "pmap_view empty_pmap v = None" for v by (simp add: pmap_view_def empty_pmap_def)
  have f: "range_fits empty_pmap 0xFFFFFE0000000000 0x300000"
    by (simp add: range_fits_def empty_pmap_def page_offset_def PAGE_SIZE_def level_shift)
  have p: "page_offset 0xE0000000 = 0" "unat (0xE0000000 :: u64) + unat (0x300000 :: u64) \<le> 2 ^ 52" "2 \<le> num_levels empty_pmap"
    by (simp_all add: page_offset_def PAGE_SIZE_def empty_pmap_def)
  show ?thesis
    using pmap_range_roundtrip [OF wf_empty_pmap f p v] by blast
qed

definition keeps_shape :: "pmap \<Rightarrow> (unit result \<times> nat \<times> pmap) option \<Rightarrow> bool" where
  "keeps_shape pm r \<longleftrightarrow> (case r of None \<Rightarrow> False | Some (_, _, pm') \<Rightarrow> wf_pmap pm' \<and> num_levels pm' = num_levels pm)"

lemma keeps_shapeI: "r \<noteq> None \<Longrightarrow> (\<And>x m pm'. r = Some (x, m, pm') \<Longrightarrow> wf_pmap pm' \<and> num_levels pm' = num_levels pm) \<Longrightarrow> keeps_shape pm r"
  by (cases r) (auto simp: keeps_shape_def)

text \<open>
  C26: Every operation returns and keeps page tables page tables, whatever it results in: as many levels, 512 entries in every table,
  no table below the lowest level, and every valid entry that is not a table marked as a page of its level.
\<close>

theorem pmap_shape_kept:
  assumes "wf_pmap pm" and "range_fits pm virt len" and "page_offset phys = 0" and "unat phys + unat len \<le> 2 ^ 52" and "max_leaf \<le> num_levels pm"
  shows "keeps_shape pm (Some (pmap_map v p vprot mem pm)) \<and> keeps_shape pm (pmap_unmap_noflush v mem pm) \<and>
    keeps_shape pm (pmap_patch_noflush v vprot mem pm) \<and> keeps_shape pm (pmap_map_range max_leaf virt phys len vprot mem pm) \<and>
    keeps_shape pm (pmap_unmap_range_noflush virt len mem pm)"
proof (intro conjI)
  show "keeps_shape pm (Some (pmap_map v p vprot mem pm))"
    by (rule keeps_shapeI, simp) (use map_correct [OF assms(1)] in blast)
  show "keeps_shape pm (pmap_unmap_noflush v mem pm)"
    by (rule keeps_shapeI [OF page_ops_total(1) [OF assms(1)]]) (use unmap_correct [OF assms(1)] in blast)
  show "keeps_shape pm (pmap_patch_noflush v vprot mem pm)"
    by (rule keeps_shapeI [OF page_ops_total(2) [OF assms(1)]]) (use patch_correct [OF assms(1)] in blast)
  obtain res mem' pm' k where "pmap_map_range max_leaf virt phys len vprot mem pm = Some (res, mem', pm')" "mapped_part pm pm' virt phys vprot k"
    by (rule map_range_result [OF assms])
  then show "keeps_shape pm (pmap_map_range max_leaf virt phys len vprot mem pm)" by (simp add: keeps_shape_def mapped_part_def)
  show "keeps_shape pm (pmap_unmap_range_noflush virt len mem pm)"
    using unmap_range_result [OF assms(1, 2), of mem] by (auto simp: keeps_shape_def unmap_result_def cleared_view_def)
qed

theorem pmap_shape_kept_witness:
  "keeps_shape empty_pmap (pmap_map_range 2 0xFFFFFE0000000000 0xE0000000 0x300000 VPROT_WRITE 5 empty_pmap)"
proof -
  have f: "range_fits empty_pmap 0xFFFFFE0000000000 0x300000"
    by (simp add: range_fits_def empty_pmap_def page_offset_def PAGE_SIZE_def level_shift)
  have p: "page_offset 0xE0000000 = 0" "unat (0xE0000000 :: u64) + unat (0x300000 :: u64) \<le> 2 ^ 52" "2 \<le> num_levels empty_pmap"
    by (simp_all add: page_offset_def PAGE_SIZE_def empty_pmap_def)
  show ?thesis using pmap_shape_kept [OF wf_empty_pmap f p, where vprot = VPROT_WRITE and mem = 5] by simp
qed

end
