(* ===== verification/Pmap_Limits.thy ===== *)
theory Pmap_Limits
  imports Pmap_Range
begin

text \<open>
  What page tables do not do: take reading away from a page, and drop a table that has become empty, so that
  \<^verbatim>\<open>pmap_map_range\<close> of \<^verbatim>\<open>kernel/mm/pmap.c\<close> refuses to put a large page in its place.
\<close>

text \<open>A page of the empty tables.\<close>

lemma map_empty:
  obtains mem pm where "pmap_map virt phys vprot 6 empty_pmap = (Inr (), mem, pm)" "wf_pmap pm" "num_levels pm = 4" "3 \<le> mem"
    "\<forall>v. pmap_view pm v = (if same_page empty_pmap virt v then Some (frame_of phys + page_offset v, vprot_seen vprot) else None)"
proof -
  obtain r mem pm where m: "pmap_map virt phys vprot 6 empty_pmap = (r, mem, pm)" by (metis prod_cases3)
  have v: "pmap_view empty_pmap v = None" for v by (simp add: pmap_view_def empty_pmap_def)
  have n: "num_levels empty_pmap = 4" by (simp add: empty_pmap_def)
  show ?thesis
    using map_correct [OF wf_empty_pmap m] m that by (cases r) (auto simp: v n)
qed

text \<open>
  C39: A page whose protection is changed to none, for the user, stays mapped and can still be read: the present bit stands for
  the right to read and is always set.
\<close>

theorem pmap_patch_none_readable:
  assumes "wf_pmap pm" and "pmap_view pm virt = Some (a, vprot)" and "num_levels pm - 1 \<le> mem"
  shows "\<exists>mem' pm'. pmap_patch_noflush virt (VPROT_NONE OR VPROT_USER) mem pm = Some (Inr (), mem', pm') \<and>
    pmap_view pm' virt = Some (a, VPROT_READ OR VPROT_USER)"
proof -
  obtain r mem' pm' where p: "pmap_patch_noflush virt (VPROT_NONE OR VPROT_USER) mem pm = Some (r, mem', pm')"
    using page_ops_total(2) [OF assms(1), of virt "VPROT_NONE OR VPROT_USER" mem] by auto
  have seen: "vprot_seen (VPROT_NONE OR VPROT_USER) = VPROT_READ OR VPROT_USER" by (simp add: vprot_seen_def vprot_defs)
  show ?thesis
    using patch_correct [OF assms(1) p] p assms(2, 3) by (cases r) (auto simp: seen same_page_def)
qed

theorem pmap_patch_none_readable_witness:
  "\<exists>mem pm mem' pm'. pmap_map 0x400000 0x1000 (VPROT_WRITE OR VPROT_USER) 6 empty_pmap = (Inr (), mem, pm) \<and>
     pmap_patch_noflush 0x400000 (VPROT_NONE OR VPROT_USER) mem pm = Some (Inr (), mem', pm') \<and>
     pmap_view pm' 0x400000 = Some (0x1000, VPROT_READ OR VPROT_USER)"
proof -
  obtain mem pm where m: "pmap_map 0x400000 0x1000 (VPROT_WRITE OR VPROT_USER) 6 empty_pmap = (Inr (), mem, pm)" "wf_pmap pm" "num_levels pm = 4" "3 \<le> mem"
    "\<forall>v. pmap_view pm v = (if same_page empty_pmap 0x400000 v then Some (frame_of 0x1000 + page_offset v, vprot_seen (VPROT_WRITE OR VPROT_USER)) else None)"
    by (rule map_empty [where virt = "0x400000" and phys = "0x1000" and vprot = "VPROT_WRITE OR VPROT_USER"])
  have "pmap_view pm 0x400000 = Some (0x1000, vprot_seen (VPROT_WRITE OR VPROT_USER))"
    by (simp add: m(5) same_page_def frame_of_def page_offset_def PAGE_SIZE_def AMD64_PML_ADDRESS_MASK_def)
  from pmap_patch_none_readable [OF m(2) this] show ?thesis using m(1, 3, 4) by auto
qed

lemma reaches_table:
  "reaches virt k e level t \<Longrightarrow> 0 < k \<Longrightarrow> k < level \<Longrightarrow> \<exists>t'. reaches virt (Suc k) (Table t') level t"
proof (induction level arbitrary: t)
  case (Suc level)
  obtain t' where t': "t ! pte_index virt (Suc level) = Table t'" "reaches virt k e level t'"
    using Suc.prems(1, 3) by (auto split: pte.splits if_splits)
  show ?case
  proof (cases "k = level")
    case True
    then show ?thesis using t' by auto
  next
    case False
    then obtain t'' where "reaches virt (Suc k) (Table t'') level t'" using Suc.IH [OF t'(2) Suc.prems(2)] Suc.prems(3) by auto
    then show ?thesis using t' False by auto
  qed
qed simp

lemma store_reaches:
  "wf_table level t \<Longrightarrow> reaches virt k old level t \<Longrightarrow> reaches virt k e level (pmentry_store virt k e level t)"
proof (induction level arbitrary: t)
  case (Suc level)
  have l: "pte_index virt (Suc level) < length t" using Suc.prems(1) pte_index_less [of virt "Suc level"] by simp
  show ?case
  proof (cases "Suc level = k")
    case True
    then show ?thesis using l unfolding True [symmetric] by (subst pmentry_store.simps) simp
  next
    case False
    then obtain t' where t': "t ! pte_index virt (Suc level) = Table t'" "reaches virt k old level t'"
      using Suc.prems(2) by (auto split: pte.splits)
    have "wf_table level t'" using wf_nth [OF Suc.prems(1), of virt "Suc level"] t'(1) by (simp add: wf_pte_def)
    moreover have "k < Suc level" using reaches_le [OF t'(2)] by simp
    ultimately show ?thesis using Suc.IH [OF _ t'(2)] t'(1) l by (subst pmentry_store.simps) simp
  qed
qed simp

text \<open>A walk to an entry that is a table finds it, and allocates nothing.\<close>

lemma walk_to_table:
  "wf_table level t \<Longrightarrow> reaches virt k (Table t') level t \<Longrightarrow> 1 < k \<Longrightarrow>
    walk_allocate virt k level mem t = (True, mem, t) \<and> pmentry_walk virt k level t = (Some (Table t'), k)"
proof (induction level arbitrary: t)
  case (Suc level)
  show ?case
  proof (cases "Suc level = k")
    case True
    then show ?thesis using Suc.prems(2) unfolding True [symmetric] by (subst walk_allocate.simps, subst pmentry_walk.simps) simp
  next
    case False
    then obtain t1 where t1: "t ! pte_index virt (Suc level) = Table t1" "reaches virt k (Table t') level t1"
      using Suc.prems(2) by (auto split: pte.splits)
    have "wf_table level t1" using wf_nth [OF Suc.prems(1), of virt "Suc level"] t1(1) by (simp add: wf_pte_def)
    from Suc.IH [OF this t1(2) Suc.prems(3)] have IH: "walk_allocate virt k level mem t1 = (True, mem, t1)" "pmentry_walk virt k level t1 = (Some (Table t'), k)" by simp_all
    have k: "k < Suc level" using reaches_le [OF t1(2)] by simp
    have "t[pte_index virt (Suc level) := Table t1] = t" using t1(1) by (metis list_update_id)
    then have "walk_allocate virt k (Suc level) mem t = (True, mem, t)"
      using k Suc.prems(3) t1(1) IH(1) by (subst walk_allocate.simps) (simp add: Let_def pte_leaf_def pmentry_get_def)
    moreover have "pmentry_walk virt k (Suc level) t = (Some (Table t'), k)"
      using k Suc.prems(3) t1(1) IH(2) by (subst pmentry_walk.simps) (simp add: Let_def pte_leaf_def)
    ultimately show ?thesis by simp
  qed
qed simp

lemma unmap_leaves_table:
  assumes "wf_pmap pm" "1 < num_levels pm" "pmap_unmap_noflush virt mem pm = Some (Inr (), mem', pm')"
  shows "wf_pmap pm'" "num_levels pm' = num_levels pm" "\<exists>t. reaches virt 2 (Table t) (num_levels pm') (root pm')"
proof -
  show "wf_pmap pm'" "num_levels pm' = num_levels pm" using unmap_correct [OF assms(1, 3)] by simp_all
  obtain pm1 w where w: "wf_pmap pm1" "num_levels pm1 = num_levels pm" "look (num_levels pm1) (root pm1) virt = Some (w, 1)"
      "pm' = store_at virt 1 (Entry PMENTRY_NULL) pm1"
    using walk_page_correct [OF assms(1), of virt mem] assms(3) by (auto simp: pmap_unmap_noflush_def)
  have "reaches virt 1 (Entry PMENTRY_NULL) (num_levels pm') (root pm')"
    using store_reaches [OF _ walk_found(2) [OF w(1, 3)], of "Entry PMENTRY_NULL"] w(1) unfolding w(4) store_at_def wf_pmap_def by simp
  from reaches_table [OF this] assms(2) \<open>num_levels pm' = num_levels pm\<close>
  show "\<exists>t. reaches virt 2 (Table t) (num_levels pm') (root pm')" by (simp add: numeral_2_eq_2)
qed

text \<open>
  C38: Once a page has been unmapped, mapping a large page at its address is refused as existing, although no address of it is
  mapped: the table that held the page is left, empty, and taken for a mapping.
\<close>

theorem pmap_map_range_stale_table:
  assumes "wf_pmap pm" and "1 < num_levels pm" and "pmap_unmap_noflush virt mem pm = Some (Inr (), mem1, pm1)"
    and "\<And>v. in_range pm1 virt 0x200000 v \<Longrightarrow> pmap_view pm1 v = None"
    and "virt AND 0x1FFFFF = 0" and "phys AND 0x1FFFFF = 0" and "vprot AND VPROT_USER = 0"
  shows "pmap_map_range 2 virt phys 0x200000 vprot mem' pm1 = Some (Inl EEXIST, mem', pm1)"
proof -
  note u = unmap_leaves_table [OF assms(1-3)]
  obtain t where t: "reaches virt 2 (Table t) (num_levels pm1) (root pm1)" using u(3) by blast
  have m: "pmentry_level_size 2 - 1 = 0x1FFFFF" by (simp add: pmentry_level_size_def level_shift push_bit_eq_mult)
  have "(virt OR phys) AND 0x1FFFFF = 0" using assms(5, 6) by (simp add: word_ao_dist)
  then have pick: "pick_leaf_level 2 virt phys 0x200000 vprot = 2"
    using assms(7) m by (simp add: pick_leaf_level_def pick_from.simps [of 2] Let_def)
  have "w AND 0x1FFFFF = 0 \<Longrightarrow> w AND (PAGE_SIZE - 1) = 0" for w :: u64
  proof -
    assume w: "w AND 0x1FFFFF = 0"
    have "w AND (PAGE_SIZE - 1) = (w AND 0x1FFFFF) AND (PAGE_SIZE - 1)" by (simp add: PAGE_SIZE_def and.assoc)
    then show ?thesis using w by simp
  qed
  then have "(virt OR phys OR 0x200000) AND (PAGE_SIZE - 1) = 0"
    using assms(5, 6) by (simp add: word_ao_dist PAGE_SIZE_def)
  moreover have "wf_table (num_levels pm1) (root pm1)" using u(1) by (simp add: wf_pmap_def)
  note walk_to_table [OF this t, of mem']
  ultimately show ?thesis
    unfolding pmap_map_range_def by (subst map_range_from.simps) (simp add: pick pte_valid_def)
qed

theorem pmap_map_range_stale_table_witness:
  "\<exists>mem pm mem1 pm1. pmap_map 0xFFFFFE0000000000 0x1000 VPROT_WRITE 6 empty_pmap = (Inr (), mem, pm) \<and>
     pmap_unmap_noflush 0xFFFFFE0000000000 mem pm = Some (Inr (), mem1, pm1) \<and> (\<forall>v. pmap_view pm1 v = None) \<and>
     pmap_map_range 2 0xFFFFFE0000000000 0xE0000000 0x200000 VPROT_WRITE mem1 pm1 = Some (Inl EEXIST, mem1, pm1)"
proof -
  let ?virt = "0xFFFFFE0000000000 :: u64"
  obtain mem pm where m: "pmap_map ?virt 0x1000 VPROT_WRITE 6 empty_pmap = (Inr (), mem, pm)" "wf_pmap pm" "num_levels pm = 4" "3 \<le> mem"
    "\<forall>v. pmap_view pm v = (if same_page empty_pmap ?virt v then Some (frame_of 0x1000 + page_offset v, vprot_seen VPROT_WRITE) else None)"
    by (rule map_empty [where virt = ?virt and phys = "0x1000" and vprot = VPROT_WRITE])
  obtain r mem1 pm1 where u: "pmap_unmap_noflush ?virt mem pm = Some (r, mem1, pm1)"
    using page_ops_total(1) [OF m(2), of ?virt mem] by auto
  have n: "num_levels empty_pmap = 4" by (simp add: empty_pmap_def)
  have r: "r = Inr ()" and v: "pmap_view pm1 v = None" for v
    using unmap_correct [OF m(2) u] m(3-5) n by (cases r, auto simp: same_page_def)+
  from pmap_map_range_stale_table [OF m(2) _ u [unfolded r], of "0xE0000000" VPROT_WRITE mem1] show ?thesis
    using m(1, 3) u r v by (auto simp: vprot_defs)
qed

end
