(* ===== verification/Mmio.thy ===== *)
theory Mmio
  imports Pmap_Range
begin

text \<open>
  Device memory in the kernel's address space, \<^verbatim>\<open>kernel/mm/mmio.c\<close>: a list of mappings, sorted by virtual address, of
  physical ranges into one region of the kernel's page tables. Mappings of the same range are shared and counted. A
  mapping that nobody holds any more is unmapped under the lock and leaves the list only after the other
  processors have dropped their translations, in a second section under the lock. A mapping is
  known by its address, which no other one of the list has. A call that panics does not return.
\<close>

definition MMIO_REGION_BASE :: u64 where "MMIO_REGION_BASE = 0xFFFFFE0000000000"
definition MMIO_REGION_SIZE :: u64 where "MMIO_REGION_SIZE = 0x0000008000000000"
definition LARGE_ALIGN :: u64 where "LARGE_ALIGN = push_bit 21 1"

record mmio_mapping =
  m_virt :: u64
  m_phys :: u64
  m_size :: u64
  m_vprot :: u32
  m_refcount :: u32

record mmio =
  mmio_list :: "mmio_mapping list"
  sys_pmap :: pmap

definition type_conflicts_nolock :: "u64 \<Rightarrow> u64 \<Rightarrow> u32 \<Rightarrow> mmio_mapping list \<Rightarrow> bool" where
  "type_conflicts_nolock phys len vprot ms \<longleftrightarrow>
     list_ex (\<lambda>it. (phys < m_phys it + m_size it \<and> m_phys it < phys + len) \<and>
       m_vprot it AND VPROT_CACHE_MASK \<noteq> vprot AND VPROT_CACHE_MASK) ms"

text \<open>The place in the list of the first mapping that satisfies a condition.\<close>

fun position :: "(mmio_mapping \<Rightarrow> bool) \<Rightarrow> mmio_mapping list \<Rightarrow> nat option" where
  "position P [] = None"
| "position P (it # ms) = (if P it then Some 0 else map_option Suc (position P ms))"

definition find_reusable_nolock :: "u64 \<Rightarrow> u64 \<Rightarrow> u32 \<Rightarrow> mmio_mapping list \<Rightarrow> nat option" where
  "find_reusable_nolock phys len vprot ms =
     position (\<lambda>it. m_refcount it \<noteq> 0 \<and> m_vprot it = vprot \<and> m_phys it \<le> phys \<and> phys + len \<le> m_phys it + m_size it) ms"

definition place_virt :: "u64 \<Rightarrow> u64 \<Rightarrow> u64 \<Rightarrow> u64" where
  "place_virt gap_start phys len =
     (if len < LARGE_ALIGN then gap_start
      else
        let virt = (gap_start AND NOT (LARGE_ALIGN - 1)) OR (phys AND (LARGE_ALIGN - 1))
        in if virt < gap_start then virt + LARGE_ALIGN else virt)"

fun insert_gap_from :: "u64 \<Rightarrow> mmio_mapping \<Rightarrow> mmio_mapping list \<Rightarrow> (u64 \<times> mmio_mapping list) option" where
  "insert_gap_from gap_start mapping ms =
     (let gap_end = (case ms of [] \<Rightarrow> MMIO_REGION_BASE + MMIO_REGION_SIZE | it # _ \<Rightarrow> m_virt it);
          virt = place_virt gap_start (m_phys mapping) (m_size mapping)
      in if virt \<le> gap_end \<and> m_size mapping \<le> gap_end - virt then Some (virt, mapping\<lparr>m_virt := virt\<rparr> # ms)
         else case ms of
           [] \<Rightarrow> None
         | it # rest \<Rightarrow> map_option (\<lambda>(virt, rest). (virt, it # rest)) (insert_gap_from (m_virt it + m_size it) mapping rest))"

declare insert_gap_from.simps [simp del]

definition insert_nolock :: "mmio_mapping \<Rightarrow> mmio_mapping list \<Rightarrow> (u64 \<times> mmio_mapping list) option" where
  "insert_nolock mapping ms = insert_gap_from MMIO_REGION_BASE mapping ms"

fun unlink_nolock :: "u64 \<Rightarrow> mmio_mapping list \<Rightarrow> mmio_mapping list" where
  "unlink_nolock virt [] = []"
| "unlink_nolock virt (it # ms) = (if m_virt it = virt then ms else it # unlink_nolock virt ms)"

text \<open>
  \<open>alloc\<close> says whether \<^verbatim>\<open>slab_alloc\<close> gives the mapping's memory, \<open>mem\<close> is the number of pages left for page tables. The result
  is the pointer, or \<open>None\<close> for the null pointer.
\<close>

definition mmio_map :: "nat \<Rightarrow> bool \<Rightarrow> u64 \<Rightarrow> u64 \<Rightarrow> u32 \<Rightarrow> nat \<Rightarrow> mmio \<Rightarrow> (u64 option \<times> nat \<times> mmio) option" where
  "mmio_map max_leaf alloc phys len vprot mem s =
     (if len = 0 \<or> vprot AND VPROT_USER \<noteq> 0 then None
      else
        let phys_page = page_align phys; length = page_align_up (phys + len) - phys_page; ms = mmio_list s
        in if \<not> alloc then Some (None, mem, s)
           else case find_reusable_nolock phys_page length vprot ms of
             Some i \<Rightarrow>
               let existing = ms ! i
               in Some (Some (m_virt existing + (phys - m_phys existing)), mem,
                    s\<lparr>mmio_list := ms[i := existing\<lparr>m_refcount := m_refcount existing + 1\<rparr>]\<rparr>)
           | None \<Rightarrow>
               if type_conflicts_nolock phys_page length vprot ms then Some (None, mem, s)
               else case insert_nolock \<lparr>m_virt = 0, m_phys = phys_page, m_size = length, m_vprot = vprot, m_refcount = 1\<rparr> ms of
                 None \<Rightarrow> Some (None, mem, s)
               | Some (virt, ms') \<Rightarrow>
                   (case pmap_map_range max_leaf virt phys_page length vprot mem (sys_pmap s) of
                      None \<Rightarrow> None
                    | Some (Inr _, mem, pm) \<Rightarrow> Some (Some (virt + (phys - phys_page)), mem, \<lparr>mmio_list = ms', sys_pmap = pm\<rparr>)
                    | Some (Inl _, mem, pm) \<Rightarrow>
                        (case pmap_unmap_range_noflush virt length mem pm of
                           Some (Inr _, mem, pm) \<Rightarrow> Some (None, mem, \<lparr>mmio_list = unlink_nolock virt ms', sys_pmap = pm\<rparr>)
                         | _ \<Rightarrow> None)))"

text \<open>
  The first section of \<^verbatim>\<open>mmio_unmap\<close>, which gives the mapping to be unlinked, if any, after the shootdown, and the second one.
\<close>

definition mmio_unmap :: "u64 \<Rightarrow> nat \<Rightarrow> mmio \<Rightarrow> (u64 option \<times> nat \<times> mmio) option" where
  "mmio_unmap address mem s =
     (let ms = mmio_list s
      in case position (\<lambda>it. m_virt it \<le> address \<and> address < m_virt it + m_size it) ms of
           None \<Rightarrow> None
         | Some i \<Rightarrow>
             let mapping = (ms ! i)\<lparr>m_refcount := m_refcount (ms ! i) - 1\<rparr>; s = s\<lparr>mmio_list := ms[i := mapping]\<rparr>
             in if m_refcount mapping > 0 then Some (None, mem, s)
                else case pmap_unmap_range_noflush (m_virt mapping) (m_size mapping) mem (sys_pmap s) of
                  Some (Inr _, mem, pm) \<Rightarrow> Some (Some (m_virt mapping), mem, s\<lparr>sys_pmap := pm\<rparr>)
                | _ \<Rightarrow> None)"

definition mmio_unlink :: "u64 \<Rightarrow> mmio \<Rightarrow> mmio" where
  "mmio_unlink virt s = s\<lparr>mmio_list := unlink_nolock virt (mmio_list s)\<rparr>"

definition mmio_owns :: "u64 \<Rightarrow> bool" where
  "mmio_owns address \<longleftrightarrow> MMIO_REGION_BASE \<le> address \<and> address - MMIO_REGION_BASE < MMIO_REGION_SIZE"

end
