(* ===== verification/Mmio_Safety.thy ===== *)
theory Mmio_Safety
  imports Mmio
begin

text \<open>
  Safety of device memory: whoever holds a mapping reaches its physical memory through it, whatever other
  drivers map and unmap meanwhile, no operation panics, and no two mappings of one physical page disagree on the memory type.
  Everything here is for page tables of four levels.
\<close>

subsection \<open>The region\<close>

definition region_start :: nat where
  "region_start = unat MMIO_REGION_BASE"

definition region_end :: nat where
  "region_end = unat MMIO_REGION_BASE + unat MMIO_REGION_SIZE"

text \<open>How far into the region an address is, where the mapping is, and whether an address is in it.\<close>

definition region_pos :: "u64 \<Rightarrow> nat" where
  "region_pos v = dist 4 MMIO_REGION_BASE v"

definition m_pos :: "mmio_mapping \<Rightarrow> nat" where
  "m_pos m = unat (m_virt m) - region_start"

definition in_region :: "u64 \<Rightarrow> bool" where
  "in_region v \<longleftrightarrow> region_pos v < unat MMIO_REGION_SIZE"

definition covers :: "mmio_mapping \<Rightarrow> u64 \<Rightarrow> bool" where
  "covers m v \<longleftrightarrow> m_pos m \<le> region_pos v \<and> region_pos v < m_pos m + unat (m_size m)"

definition wf_mapping :: "mmio_mapping \<Rightarrow> bool" where
  "wf_mapping m \<longleftrightarrow> region_start \<le> unat (m_virt m) \<and> unat (m_virt m) + unat (m_size m) \<le> region_end \<and> 0 < unat (m_size m) \<and>
     unat (m_virt m) mod 2 ^ 12 = 0 \<and> unat (m_size m) mod 2 ^ 12 = 0 \<and> unat (m_phys m) mod 2 ^ 12 = 0 \<and>
     unat (m_phys m) + unat (m_size m) \<le> 2 ^ 52 \<and> m_vprot m AND VPROT_USER = 0"

definition below :: "mmio_mapping \<Rightarrow> mmio_mapping \<Rightarrow> bool" where
  "below a b \<longleftrightarrow> unat (m_virt a) + unat (m_size a) \<le> unat (m_virt b)"

lemma region_bounds: "region_start = 0xFFFFFE0000000000" "region_end = 0xFFFFFE8000000000" "unat MMIO_REGION_SIZE = 0x8000000000"
  by (simp_all add: region_start_def region_end_def MMIO_REGION_BASE_def MMIO_REGION_SIZE_def)

lemma virt_pos:
  assumes "wf_mapping m"
  shows "m_virt m = MMIO_REGION_BASE + of_nat (m_pos m)" "m_pos m + unat (m_size m) \<le> 0x8000000000"
proof -
  have b: "region_start \<le> unat (m_virt m)" "m_pos m + unat (m_size m) \<le> 0x8000000000"
    using assms by (auto simp: wf_mapping_def m_pos_def region_bounds)
  have "unat (MMIO_REGION_BASE + of_nat (m_pos m)) = unat MMIO_REGION_BASE + m_pos m"
    using b by (intro unat_add_small) (simp add: MMIO_REGION_BASE_def)
  then show "m_virt m = MMIO_REGION_BASE + of_nat (m_pos m)"
    using b(1) unfolding m_pos_def region_start_def by (simp add: word_unat_eq_iff)
  show "m_pos m + unat (m_size m) \<le> 0x8000000000" by (rule b)
qed

lemma dist_mapping:
  assumes "wf_mapping m"
  shows "dist 4 (m_virt m) v < unat (m_size m) \<longleftrightarrow> covers m v" "covers m v \<Longrightarrow> dist 4 (m_virt m) v = region_pos v - m_pos m"
proof -
  note virt = virt_pos(1) [OF assms] and b = virt_pos(2) [OF assms]
  have d: "dist 4 (m_virt m) v = (if m_pos m \<le> region_pos v then region_pos v - m_pos m else region_pos v + 2 ^ 48 - m_pos m)"
    using b dist_step [of 4 "m_pos m" MMIO_REGION_BASE v] unfolding virt region_pos_def by simp
  show "dist 4 (m_virt m) v < unat (m_size m) \<longleftrightarrow> covers m v"
    unfolding d covers_def using b by auto
  show "dist 4 (m_virt m) v = region_pos v - m_pos m" if "covers m v"
    using that unfolding d covers_def by simp
qed

lemma covers_region: "wf_mapping m \<Longrightarrow> covers m v \<Longrightarrow> in_region v"
  by (auto simp: wf_mapping_def covers_def in_region_def m_pos_def region_bounds)

lemma covers_disjoint: "wf_mapping a \<Longrightarrow> wf_mapping b \<Longrightarrow> below a b \<Longrightarrow> covers a v \<Longrightarrow> covers b v \<Longrightarrow> False"
  by (auto simp: wf_mapping_def covers_def below_def m_pos_def region_bounds)

lemma mapping_fits: "wf_mapping m \<Longrightarrow> num_levels pm = 4 \<Longrightarrow> range_fits pm (m_virt m) (m_size m)"
  by (auto simp: range_fits_def wf_mapping_def page_offset_zero region_bounds level_shift)

subsection \<open>The list\<close>

definition wf_list :: "mmio_mapping list \<Rightarrow> bool" where
  "wf_list ms \<longleftrightarrow> sorted_wrt below ms \<and> (\<forall>m \<in> set ms. wf_mapping m)"

lemma covers_unique: "wf_list ms \<Longrightarrow> a \<in> set ms \<Longrightarrow> b \<in> set ms \<Longrightarrow> covers a v \<Longrightarrow> covers b v \<Longrightarrow> a = b"
proof (induction ms)
  case (Cons m ms)
  then have "wf_list ms" "\<And>x. x \<in> set ms \<Longrightarrow> below m x \<and> wf_mapping x" "wf_mapping m" by (auto simp: wf_list_def)
  then show ?case using Cons covers_disjoint by (metis set_ConsD)
qed simp

lemma place_virt_fits:
  assumes "unat gap mod 2 ^ 12 = 0" "unat phys mod 2 ^ 12 = 0" "unat gap < 2 ^ 63 * 2 - 2 ^ 22"
  shows "unat gap \<le> unat (place_virt gap phys len)" "unat (place_virt gap phys len) mod 2 ^ 12 = 0"
proof -
  have m: "LARGE_ALIGN - 1 = mask 21" by (simp add: LARGE_ALIGN_def mask_eq_exp_minus_1 push_bit_eq_mult)
  define q where "q = unat gap div 2 ^ 21 * 2 ^ 21"
  define r where "r = unat phys mod 2 ^ 21"
  let ?v = "(gap AND NOT (mask 21)) OR (phys AND mask 21) :: u64"
  have "?v = (gap AND NOT (mask 21)) + (phys AND mask 21)"
    by (rule disjunctive_add_eq_or [symmetric]) (rule bit_eqI, auto simp: bit_simps)
  moreover have "q + r < 2 ^ 64" using assms(3) unfolding q_def r_def by simp
  ultimately have v: "unat ?v = q + r"
    by (simp add: unat_word_ariths unat_and_not_mask unat_and_mask q_def r_def)
  have large: "unat LARGE_ALIGN = 2 ^ 21" by (simp add: LARGE_ALIGN_def push_bit_eq_mult)
  have "unat gap = q + unat gap mod 2 ^ 21" "unat gap mod 2 ^ 21 < 2 ^ 21" unfolding q_def by (simp_all only: div_mult_mod_eq) simp
  then have gap: "q \<le> unat gap" "unat gap < q + 2 ^ 21" by linarith+
  have v': "unat (?v + LARGE_ALIGN) = q + r + 2 ^ 21" if "?v < gap"
    using that assms(3) v large by (simp add: unat_word_ariths word_less_nat_alt)
  have al: "(q + r) mod 2 ^ 12 = 0" "(q + r + 2 ^ 21) mod 2 ^ 12 = 0"
  proof -
    have d: "(2 :: nat) ^ 12 dvd 2 ^ 21" by (intro le_imp_power_dvd) simp
    have "2 ^ 12 dvd r" unfolding r_def using mod_mod_cancel [OF d, of "unat phys"] assms(2) by (intro mod_0_imp_dvd) simp
    moreover have "2 ^ 12 dvd q" unfolding q_def using d by (rule dvd_mult)
    ultimately show "(q + r) mod 2 ^ 12 = 0" "(q + r + 2 ^ 21) mod 2 ^ 12 = 0"
      using d by (intro dvd_imp_mod_0 dvd_add; simp only:)+
  qed
  show "unat gap \<le> unat (place_virt gap phys len)"
    using gap v v' unfolding place_virt_def m Let_def by (auto simp: word_less_nat_alt)
  show "unat (place_virt gap phys len) mod 2 ^ 12 = 0"
    using al v v' assms(1) unfolding place_virt_def m Let_def by auto
qed

lemma gap_room: "v \<le> e \<Longrightarrow> l \<le> e - v \<Longrightarrow> unat v + unat l \<le> unat e" for v e l :: u64
  using unat_sub [of v e] unfolding word_le_nat_alt by linarith

lemma insert_from_sound:
  assumes "insert_gap_from gap m ms = Some (virt, ms')" "wf_list ms" "\<forall>x \<in> set ms. unat gap \<le> unat (m_virt x)"
    "unat gap mod 2 ^ 12 = 0" "unat gap \<le> region_end" "unat (m_phys m) mod 2 ^ 12 = 0"
  shows "\<exists>xs ys. ms = xs @ ys \<and> ms' = xs @ m\<lparr>m_virt := virt\<rparr> # ys \<and> unat gap \<le> unat virt \<and> unat virt mod 2 ^ 12 = 0 \<and>
    unat virt + unat (m_size m) \<le> region_end \<and> (\<forall>x \<in> set xs. below x (m\<lparr>m_virt := virt\<rparr>)) \<and> (\<forall>y \<in> set ys. below (m\<lparr>m_virt := virt\<rparr>) y)"
  using assms
proof (induction ms arbitrary: gap ms')
  case Nil
  have e: "unat (MMIO_REGION_BASE + MMIO_REGION_SIZE) = region_end" by (simp add: region_bounds MMIO_REGION_BASE_def MMIO_REGION_SIZE_def)
  let ?v = "place_virt gap (m_phys m) (m_size m)"
  have v: "virt = ?v" "ms' = [m\<lparr>m_virt := virt\<rparr>]" "?v \<le> MMIO_REGION_BASE + MMIO_REGION_SIZE" "m_size m \<le> MMIO_REGION_BASE + MMIO_REGION_SIZE - ?v"
    using Nil.prems(1) by (auto simp: insert_gap_from.simps Let_def split: if_splits)
  have "unat ?v + unat (m_size m) \<le> region_end"
    using gap_room [OF v(3, 4)] e by simp
  then show ?case
    using v(1, 2) place_virt_fits [OF Nil.prems(4, 6), of "m_size m"] Nil.prems(5) by (simp add: region_bounds)
next
  case (Cons x ms)
  let ?v = "place_virt gap (m_phys m) (m_size m)"
  have x: "wf_mapping x" "wf_list ms" "\<forall>y \<in> set ms. below x y" using Cons.prems(2) by (auto simp: wf_list_def)
  show ?case
  proof (cases "?v \<le> m_virt x \<and> m_size m \<le> m_virt x - ?v")
    case True
    then have v: "virt = ?v" "ms' = m\<lparr>m_virt := virt\<rparr> # x # ms" using Cons.prems(1) by (auto simp: insert_gap_from.simps Let_def)
    have vx: "unat ?v + unat (m_size m) \<le> unat (m_virt x)" using True by (intro gap_room) simp_all
    have "below (m\<lparr>m_virt := virt\<rparr>) y" if "y \<in> set (x # ms)" for y
      using that vx x(3) unfolding v(1) by (auto simp: below_def dest: bspec)
    moreover have "unat ?v + unat (m_size m) \<le> region_end" using vx x(1) by (simp add: wf_mapping_def)
    moreover have "unat gap < 2 ^ 63 * 2 - 2 ^ 22" using Cons.prems(5) by (simp add: region_bounds)
    note place_virt_fits [OF Cons.prems(4, 6) this, of "m_size m"]
    ultimately show ?thesis using v by (intro exI [of _ "[]"] exI [of _ "x # ms"]) simp
  next
    case False
    then obtain rest where r: "insert_gap_from (m_virt x + m_size x) m ms = Some (virt, rest)" "ms' = x # rest"
      using Cons.prems(1) by (auto simp: insert_gap_from.simps [of gap] Let_def split: if_splits)
    have x': "unat (m_virt x + m_size x) = unat (m_virt x) + unat (m_size x)"
      using x(1) unat_add_small [of "m_virt x" "unat (m_size x)"] by (simp add: wf_mapping_def region_bounds)
    have al: "unat (m_virt x + m_size x) mod 2 ^ 12 = 0" unfolding x' using x(1) by (simp add: wf_mapping_def mod_add_eq [symmetric])
    have le: "unat (m_virt x + m_size x) \<le> region_end" unfolding x' using x(1) by (simp add: wf_mapping_def)
    have lb: "\<forall>y \<in> set ms. unat (m_virt x + m_size x) \<le> unat (m_virt y)" unfolding x' using x(3) by (simp add: below_def)
    obtain xs ys where xy: "ms = xs @ ys" "rest = xs @ m\<lparr>m_virt := virt\<rparr> # ys" "unat (m_virt x + m_size x) \<le> unat virt"
        "unat virt mod 2 ^ 12 = 0" "unat virt + unat (m_size m) \<le> region_end" "\<forall>x \<in> set xs. below x (m\<lparr>m_virt := virt\<rparr>)"
        "\<forall>y \<in> set ys. below (m\<lparr>m_virt := virt\<rparr>) y"
      using Cons.IH [OF r(1) x(2) lb al le Cons.prems(6)] by (elim exE conjE)
    have "unat gap \<le> unat virt" using xy(3) Cons.prems(3) x' by simp
    moreover have "below x (m\<lparr>m_virt := virt\<rparr>)" using xy(3) x' by (simp add: below_def)
    ultimately show ?thesis using xy r(2) by (intro exI [of _ "x # xs"] exI [of _ ys]) simp
  qed
qed

lemma insert_nolock_sound:
  assumes "insert_nolock m ms = Some (virt, ms')" "wf_list ms" "unat (m_phys m) mod 2 ^ 12 = 0"
  obtains xs ys where "ms = xs @ ys" "ms' = xs @ m\<lparr>m_virt := virt\<rparr> # ys" "region_start \<le> unat virt" "unat virt mod 2 ^ 12 = 0"
    "unat virt + unat (m_size m) \<le> region_end" "\<forall>x \<in> set xs. below x (m\<lparr>m_virt := virt\<rparr>)" "\<forall>y \<in> set ys. below (m\<lparr>m_virt := virt\<rparr>) y"
proof -
  have a: "\<forall>x \<in> set ms. unat MMIO_REGION_BASE \<le> unat (m_virt x)" using assms(2) by (auto simp: wf_list_def wf_mapping_def region_start_def)
  have b: "unat MMIO_REGION_BASE mod 2 ^ 12 = 0" "unat MMIO_REGION_BASE \<le> region_end" by (simp_all add: MMIO_REGION_BASE_def region_bounds)
  show ?thesis
    using insert_from_sound [OF assms(1) [unfolded insert_nolock_def] assms(2) a b assms(3)] that unfolding region_start_def by (elim exE conjE)
qed

lemma unlink_inserted: "virt \<notin> m_virt ` set xs \<Longrightarrow> m_virt m = virt \<Longrightarrow> unlink_nolock virt (xs @ m # ys) = xs @ ys"
  by (induction xs) auto

lemma position_Some: "position P ms = Some i \<Longrightarrow> i < length ms \<and> P (ms ! i)"
  by (induction ms arbitrary: i) (auto split: if_splits)

lemma position_None: "position P ms = None \<Longrightarrow> x \<in> set ms \<Longrightarrow> \<not> P x"
  by (induction ms) (auto split: if_splits)

lemma wf_list_refcount: "i < length ms \<Longrightarrow> wf_list (ms[i := (ms ! i)\<lparr>m_refcount := r\<rparr>]) \<longleftrightarrow> wf_list ms"
proof -
  assume i: "i < length ms"
  let ?ms = "ms[i := (ms ! i)\<lparr>m_refcount := r\<rparr>]"
  have nth: "j < length ms \<Longrightarrow> m_virt (?ms ! j) = m_virt (ms ! j) \<and> m_size (?ms ! j) = m_size (ms ! j) \<and> wf_mapping (?ms ! j) = wf_mapping (ms ! j)" for j
    by (cases "j = i") (simp_all add: wf_mapping_def)
  then show ?thesis
    unfolding wf_list_def sorted_wrt_iff_nth_less all_set_conv_all_nth below_def by simp
qed

lemma wf_list_insert:
  assumes "wf_list (xs @ ys)" "wf_mapping m" "\<forall>x \<in> set xs. below x m" "\<forall>y \<in> set ys. below m y"
  shows "wf_list (xs @ m # ys)"
  using assms by (auto simp: wf_list_def sorted_wrt_append)

lemma wf_list_unlink: "wf_list ms \<Longrightarrow> wf_list (unlink_nolock virt ms)"
proof (induction ms)
  case (Cons m ms)
  have "set (unlink_nolock virt ms) \<subseteq> set ms" by (induction ms) auto
  then show ?case using Cons by (auto simp: wf_list_def)
qed simp

lemma virt_unique: "wf_list ms \<Longrightarrow> a \<in> set ms \<Longrightarrow> b \<in> set ms \<Longrightarrow> m_virt a = m_virt b \<Longrightarrow> a = b"
proof (induction ms)
  case (Cons m ms)
  then have "wf_list ms" "wf_mapping m" "\<And>x. x \<in> set ms \<Longrightarrow> m_virt x \<noteq> m_virt m"
    by (auto simp: wf_list_def below_def wf_mapping_def)
  then show ?case using Cons by (metis set_ConsD)
qed simp

lemma set_unlink:
  "wf_list ms \<Longrightarrow> m \<in> set ms \<Longrightarrow> set (unlink_nolock (m_virt m) ms) = set ms - {m}"
proof (induction ms)
  case (Cons x ms)
  have wf: "wf_list ms" using Cons.prems(1) by (simp add: wf_list_def)
  have "\<not> below x x" using Cons.prems(1) by (simp add: wf_list_def wf_mapping_def below_def)
  then have x: "x \<notin> set ms" using Cons.prems(1) by (auto simp: wf_list_def)
  show ?case
  proof (cases "m = x")
    case True
    then show ?thesis using x by simp
  next
    case False
    then have "m \<in> set ms" using Cons.prems(2) by simp
    moreover have "m_virt x \<noteq> m_virt m" using virt_unique [OF Cons.prems(1), of x m] False calculation by auto
    ultimately show ?thesis using Cons.IH [OF wf] x False by auto
  qed
qed simp

subsection \<open>The pages of the mappings\<close>

definition live :: "mmio_mapping \<Rightarrow> bool" where
  "live m \<longleftrightarrow> m_refcount m \<noteq> 0"

definition provides :: "pmap \<Rightarrow> mmio_mapping \<Rightarrow> bool" where
  "provides pm m \<longleftrightarrow> (\<forall>v. covers m v \<longrightarrow> pmap_view pm v = Some (m_phys m + of_nat (region_pos v - m_pos m), vprot_seen (m_vprot m))) \<and>
     inside pm (m_virt m) (unat (m_size m))"

definition pages_inv :: "pmap \<Rightarrow> mmio_mapping list \<Rightarrow> bool" where
  "pages_inv pm ms \<longleftrightarrow> wf_pmap pm \<and> num_levels pm = 4 \<and> wf_list ms \<and> (\<forall>m \<in> set ms. live m \<longrightarrow> provides pm m) \<and>
     (\<forall>v. in_region v \<longrightarrow> (\<forall>m \<in> set ms. live m \<longrightarrow> \<not> covers m v) \<longrightarrow> leaf_of pm v = None)"

lemma provides_cong:
  assumes "provides pm m" "wf_mapping m" "num_levels pm = 4" "num_levels pm' = 4" "\<And>v. covers m v \<Longrightarrow> leaf_of pm' v = leaf_of pm v"
  shows "provides pm' m"
proof -
  have "inside pm' (m_virt m) (unat (m_size m))"
    using assms(1, 5) unfolding provides_def inside_def assms(3, 4) dist_mapping [OF assms(2)] by simp
  then show ?thesis using assms(1, 5) unfolding provides_def by (simp add: view_leaf)
qed

lemma pages_free:
  assumes "pages_inv pm (xs @ ys)" "wf_mapping m" "\<forall>x \<in> set xs. below x m" "\<forall>y \<in> set ys. below m y" "covers m v"
  shows "leaf_of pm v = None" "x \<in> set (xs @ ys) \<Longrightarrow> \<not> covers x v"
proof -
  have "wf_mapping x" if "x \<in> set (xs @ ys)" for x using that assms(1) by (auto simp: pages_inv_def wf_list_def)
  then show n: "x \<in> set (xs @ ys) \<Longrightarrow> \<not> covers x v" for x
    using assms(2-5) covers_disjoint [of x m v] covers_disjoint [of m x v] by auto
  then show "leaf_of pm v = None"
    using assms(1) covers_region [OF assms(2, 5)] unfolding pages_inv_def by blast
qed

lemma pages_map:
  assumes inv: "pages_inv pm (xs @ ys)" and m: "wf_mapping m" "live m" "\<forall>x \<in> set xs. below x m" "\<forall>y \<in> set ys. below m y" and leaf: "max_leaf \<le> 4"
  obtains res mem' pm' where "pmap_map_range max_leaf (m_virt m) (m_phys m) (m_size m) (m_vprot m) mem pm = Some (res, mem', pm')"
    "res = Inr () \<Longrightarrow> pages_inv pm' (xs @ m # ys)"
    "\<And>mem. \<exists>pm''. pmap_unmap_range_noflush (m_virt m) (m_size m) mem pm' = Some (Inr (), mem, pm'') \<and> pages_inv pm'' (xs @ ys)"
proof -
  have pm: "wf_pmap pm" "num_levels pm = 4" "wf_list (xs @ ys)" using inv by (simp_all add: pages_inv_def)
  have wfx: "wf_mapping x" if "x \<in> set (xs @ ys)" for x using that pm(3) by (auto simp: wf_list_def)
  note fits = mapping_fits [OF m(1) pm(2)] and dm = dist_mapping [OF m(1)]
  have phys: "page_offset (m_phys m) = 0" "unat (m_phys m) + unat (m_size m) \<le> 2 ^ 52" using m(1) by (simp_all add: wf_mapping_def page_offset_zero)
  have free: "leaf_of pm v = None" if "dist (num_levels pm) (m_virt m) v < unat (m_size m)" for v
    using that pages_free(1) [OF inv m(1, 3, 4)] unfolding pm(2) dm(1) by blast
  obtain res mem' pm' k where r: "pmap_map_range max_leaf (m_virt m) (m_phys m) (m_size m) (m_vprot m) mem pm = Some (res, mem', pm')"
    "mapped_part pm pm' (m_virt m) (m_phys m) (m_vprot m) k" "k \<le> unat (m_size m)"
    "case res of Inr _ \<Rightarrow> k = unat (m_size m) | Inl err \<Rightarrow> err = ENOMEM \<or> err = EEXIST"
    by (rule map_range_result [OF pm(1) fits phys, of max_leaf]) (use leaf pm(2) in simp_all)
  have pm': "wf_pmap pm'" "num_levels pm' = 4" "\<And>v. \<not> dist 4 (m_virt m) v < k \<Longrightarrow> leaf_of pm' v = leaf_of pm v"
    using r(2) pm(2) unfolding mapped_part_def by (auto split: if_splits)
  show ?thesis
  proof (rule that [OF r(1)])
    assume "res = Inr ()"
    then have k: "k = unat (m_size m)" using r(4) by simp
    have other: "leaf_of pm' v = leaf_of pm v" if "\<not> covers m v" for v using pm'(3) [of v] that unfolding k dm(1) by simp
    have "provides pm' x" if x: "x \<in> set (xs @ ys)" "live x" for x
    proof (rule provides_cong [OF _ wfx [OF x(1)] pm(2) pm'(2) other])
      show "provides pm x" using x inv by (simp add: pages_inv_def)
      show "covers x v \<Longrightarrow> \<not> covers m v" for v using pages_free(2) [OF inv m(1, 3, 4) _ x(1)] by blast
    qed
    moreover have "provides pm' m"
      unfolding provides_def
    proof (intro conjI allI impI)
      fix v
      assume "covers m v"
      then show "pmap_view pm' v = Some (m_phys m + of_nat (region_pos v - m_pos m), vprot_seen (m_vprot m))"
        unfolding mapped_view [OF r(2)] pm(2) k dm(1) using dm(2) by simp
    next
      show "inside pm' (m_virt m) (unat (m_size m))" by (rule mapped_inside [OF r(2, 3) free])
    qed
    moreover have "leaf_of pm' v = None" if "in_region v" "\<forall>x \<in> set (xs @ m # ys). live x \<longrightarrow> \<not> covers x v" for v
      using that inv other m(2) unfolding pages_inv_def by auto
    ultimately show "pages_inv pm' (xs @ m # ys)"
      unfolding pages_inv_def using pm' wf_list_insert [OF pm(3) m(1, 3, 4)] by auto
  next
    fix mem
    obtain pm'' where u: "pmap_unmap_range_noflush (m_virt m) (m_size m) mem pm' = Some (Inr (), mem, pm'')" "wf_pmap pm''"
        "num_levels pm'' = 4" "\<And>v. leaf_of pm'' v = leaf_of pm v"
      using unmap_mapped [OF fits r(2, 3) free, of mem] pm(2) by auto
    have "provides pm'' x" if x: "x \<in> set (xs @ ys)" "live x" for x
      using x inv by (intro provides_cong [OF _ wfx [OF x(1)] pm(2) u(3, 4)]) (simp add: pages_inv_def)
    then have "pages_inv pm'' (xs @ ys)" using inv u unfolding pages_inv_def by auto
    then show "\<exists>pm''. pmap_unmap_range_noflush (m_virt m) (m_size m) mem pm' = Some (Inr (), mem, pm'') \<and> pages_inv pm'' (xs @ ys)"
      using u(1) by blast
  qed
qed

lemma set_update: "i < length ms \<Longrightarrow> wf_list ms \<Longrightarrow> set (ms[i := m]) = insert m (set ms - {ms ! i})"
proof -
  assume i: "i < length ms" and wf: "wf_list ms"
  have "distinct ms"
  proof -
    have "distinct (map m_virt ms)" using wf
      by (induction ms) (auto simp: wf_list_def below_def wf_mapping_def dest!: bspec)
    then show ?thesis by (simp add: distinct_map)
  qed
  then show ?thesis using i by (simp add: set_update_distinct)
qed

text \<open>A mapping that gains or loses a holder and keeps another.\<close>

lemma pages_refcount:
  assumes inv: "pages_inv pm ms" and i: "i < length ms" "live (ms ! i)" "r \<noteq> 0"
  shows "pages_inv pm (ms[i := (ms ! i)\<lparr>m_refcount := r\<rparr>])"
proof -
  let ?m = "(ms ! i)\<lparr>m_refcount := r\<rparr>"
  have "ms ! i \<in> set ms" using i by simp
  have m: "live ?m" "covers ?m = covers (ms ! i)" "provides pm ?m = provides pm (ms ! i)"
    using i by (auto simp: live_def covers_def provides_def m_pos_def fun_eq_iff)
  have wf: "wf_list ms" using inv by (simp add: pages_inv_def)
  show ?thesis
    using inv m i \<open>ms ! i \<in> set ms\<close> wf_list_refcount [OF i(1), of r] unfolding pages_inv_def set_update [OF i(1) wf]
    by auto
qed

text \<open>A mapping that loses its last holder.\<close>

lemma pages_unmap:
  assumes inv: "pages_inv pm ms" and i: "i < length ms" "live (ms ! i)"
  shows "\<exists>pm'. pmap_unmap_range_noflush (m_virt (ms ! i)) (m_size (ms ! i)) mem pm = Some (Inr (), mem, pm') \<and>
    pages_inv pm' (ms[i := (ms ! i)\<lparr>m_refcount := 0\<rparr>])"
proof -
  let ?m = "ms ! i"
  have pm: "wf_pmap pm" "num_levels pm = 4" "wf_list ms" and m: "?m \<in> set ms" "wf_mapping ?m" "provides pm ?m"
    using inv i by (auto simp: pages_inv_def wf_list_def)
  from unmap_range_result [OF pm(1) mapping_fits [OF m(2) pm(2)], of mem] m(3)
  obtain pm' where r: "pmap_unmap_range_noflush (m_virt ?m) (m_size ?m) mem pm = Some (Inr (), mem, pm')" "cleared pm pm' (m_virt ?m) (unat (m_size ?m))"
    "wf_pmap pm'" "num_levels pm' = 4"
    unfolding unmap_result_def cleared_view_def provides_def using pm(2) by auto
  have leaf: "leaf_of pm' v = (if covers ?m v then None else leaf_of pm v)" for v
    using r(2) unfolding cleared_def pm(2) dist_mapping [OF m(2)] by simp
  have "provides pm' x" if x: "x \<in> set ms" "x \<noteq> ?m" "live x" for x
  proof (rule provides_cong [OF _ _ pm(2) r(4)])
    show "provides pm x" "wf_mapping x" using x inv by (auto simp: pages_inv_def wf_list_def)
    show "covers x v \<Longrightarrow> leaf_of pm' v = leaf_of pm v" for v using leaf covers_unique [OF pm(3) x(1) m(1)] x(2) by auto
  qed
  moreover have "leaf_of pm' v = None" if "in_region v" "\<forall>x \<in> set ms - {?m}. live x \<longrightarrow> \<not> covers x v" for v
    using that inv leaf [of v] unfolding pages_inv_def by auto
  ultimately have "pages_inv pm' (ms[i := ?m\<lparr>m_refcount := 0\<rparr>])"
    using r(3, 4) wf_list_refcount [OF i(1), of 0] pm(3) unfolding pages_inv_def set_update [OF i(1) pm(3)] by (auto simp: live_def)
  then show ?thesis using r(1) by blast
qed

lemma pages_unlink:
  assumes "pages_inv pm ms" "m \<in> set ms" "\<not> live m"
  shows "pages_inv pm (unlink_nolock (m_virt m) ms)"
proof -
  have "wf_list ms" using assms(1) by (simp add: pages_inv_def)
  then show ?thesis
    using assms wf_list_unlink [of ms "m_virt m"] unfolding pages_inv_def set_unlink [OF \<open>wf_list ms\<close> assms(2)] by blast
qed

subsection \<open>Those who hold a mapping\<close>

record handle =
  h_ptr :: u64
  h_phys :: u64
  h_len :: u64
  h_vprot :: u32

definition serves :: "mmio_mapping \<Rightarrow> handle \<Rightarrow> bool" where
  "serves m h \<longleftrightarrow> m_vprot m = h_vprot h \<and> unat (m_phys m) \<le> unat (h_phys h) \<and> 0 < unat (h_len h) \<and>
     unat (h_phys h) + unat (h_len h) \<le> unat (m_phys m) + unat (m_size m) \<and> h_ptr h = m_virt m + (h_phys h - m_phys m)"

definition holders :: "mmio_mapping \<Rightarrow> handle list \<Rightarrow> nat" where
  "holders m H = length (filter (\<lambda>h. covers m (h_ptr h)) H)"

definition handles_inv :: "mmio_mapping list \<Rightarrow> handle list \<Rightarrow> u64 list \<Rightarrow> bool" where
  "handles_inv ms H P \<longleftrightarrow> (\<forall>h \<in> set H. \<exists>m \<in> set ms. live m \<and> serves m h) \<and> (\<forall>m \<in> set ms. unat (m_refcount m) = holders m H) \<and>
     distinct P \<and> set P = m_virt ` {m \<in> set ms. \<not> live m} \<and> length H < 2 ^ 32"

definition types_inv :: "mmio_mapping list \<Rightarrow> bool" where
  "types_inv ms \<longleftrightarrow> (\<forall>a \<in> set ms. \<forall>b \<in> set ms. unat (m_phys a) < unat (m_phys b) + unat (m_size b) \<longrightarrow>
     unat (m_phys b) < unat (m_phys a) + unat (m_size a) \<longrightarrow> m_vprot a AND VPROT_CACHE_MASK = m_vprot b AND VPROT_CACHE_MASK)"

definition mmio_inv :: "mmio \<Rightarrow> handle list \<Rightarrow> u64 list \<Rightarrow> bool" where
  "mmio_inv s H P \<longleftrightarrow> pages_inv (sys_pmap s) (mmio_list s) \<and> handles_inv (mmio_list s) H P \<and> types_inv (mmio_list s)"

lemma pos_offset:
  assumes "wf_mapping m" "i < unat (m_size m)"
  shows "region_pos (m_virt m + of_nat i) = m_pos m + i" "covers m (m_virt m + of_nat i)"
proof -
  note b = virt_pos(2) [OF assms(1)]
  have e: "m_virt m + of_nat i = MMIO_REGION_BASE + of_nat (m_pos m + i)" unfolding virt_pos(1) [OF assms(1)] by simp
  show p: "region_pos (m_virt m + of_nat i) = m_pos m + i"
    unfolding region_pos_def e using b assms(2) by (intro dist_near) simp_all
  then show "covers m (m_virt m + of_nat i)" using assms(2) by (simp add: covers_def)
qed

lemma serves_offset:
  assumes "wf_mapping m" "serves m h" "i < unat (h_len h)"
  shows "h_ptr h + of_nat i = m_virt m + of_nat (unat (h_phys h) - unat (m_phys m) + i)" "unat (h_phys h) - unat (m_phys m) + i < unat (m_size m)"
    "m_phys m + of_nat (unat (h_phys h) - unat (m_phys m) + i) = h_phys h + of_nat i"
proof -
  have le: "unat (m_phys m) \<le> unat (h_phys h)" using assms(2) by (simp add: serves_def)
  then have "of_nat (unat (h_phys h) - unat (m_phys m)) = h_phys h - m_phys m" by (simp add: of_nat_diff)
  then show "h_ptr h + of_nat i = m_virt m + of_nat (unat (h_phys h) - unat (m_phys m) + i)"
    "m_phys m + of_nat (unat (h_phys h) - unat (m_phys m) + i) = h_phys h + of_nat i"
    using assms(2) by (simp_all add: serves_def)
  show "unat (h_phys h) - unat (m_phys m) + i < unat (m_size m)" using assms(2, 3) le unfolding serves_def by linarith
qed

lemma serves_covers: "wf_mapping m \<Longrightarrow> serves m h \<Longrightarrow> covers m (h_ptr h)"
  using serves_offset [of m h 0] pos_offset(2) [of m "unat (h_phys h) - unat (m_phys m)"] by (auto simp: serves_def)

lemma refcount_simps [simp]:
  "covers (m\<lparr>m_refcount := r\<rparr>) = covers m" "serves (m\<lparr>m_refcount := r\<rparr>) = serves m" "holders (m\<lparr>m_refcount := r\<rparr>) = holders m"
  "live (m\<lparr>m_refcount := r\<rparr>) \<longleftrightarrow> r \<noteq> 0"
  by (auto simp: covers_def serves_def holders_def live_def m_pos_def fun_eq_iff)

lemma handles_update:
  assumes inv: "handles_inv ms H P" "wf_list ms" and i: "i < length ms" "live (ms ! i)"
    and r: "unat r = holders (ms ! i) H'" "\<And>x. x \<in> set ms \<Longrightarrow> x \<noteq> ms ! i \<Longrightarrow> holders x H' = holders x H"
    and H': "\<And>h. h \<in> set H' \<Longrightarrow> h \<in> set H \<or> serves (ms ! i) h" "length H' < 2 ^ 32"
  shows "handles_inv (ms[i := (ms ! i)\<lparr>m_refcount := r\<rparr>]) H' (if r = 0 then m_virt (ms ! i) # P else P)"
proof -
  let ?m = "ms ! i"
  have m: "?m \<in> set ms" "wf_mapping ?m" using i inv(2) by (auto simp: wf_list_def)
  have old: "m_virt ?m \<notin> set P"
    using inv(1) i(2) m(1) virt_unique [OF inv(2) m(1)] unfolding handles_inv_def by auto
  have "\<exists>x \<in> insert (?m\<lparr>m_refcount := r\<rparr>) (set ms - {?m}). live x \<and> serves x h" if h: "h \<in> set H'" for h
  proof -
    obtain x where x: "x \<in> set ms" "live x" "serves x h"
      using H'(1) [OF h] inv(1) m(1) i(2) unfolding handles_inv_def by blast
    have "r \<noteq> 0" if "x = ?m"
    proof
      assume "r = 0"
      then have "holders ?m H' = 0" using r(1) by simp
      then show False using serves_covers [OF m(2)] x(3) h that by (auto simp: holders_def filter_empty_conv)
    qed
    then show ?thesis using x by (cases "x = ?m") auto
  qed
  moreover have "\<forall>x \<in> insert (?m\<lparr>m_refcount := r\<rparr>) (set ms - {?m}). unat (m_refcount x) = holders x H'"
    using inv(1) r unfolding handles_inv_def by auto
  moreover have "{x \<in> insert (?m\<lparr>m_refcount := r\<rparr>) (set ms - {?m}). \<not> live x} =
      (if r = 0 then insert (?m\<lparr>m_refcount := r\<rparr>) {x \<in> set ms. \<not> live x} else {x \<in> set ms. \<not> live x})"
    using i(2) by auto
  then have "set (if r = 0 then m_virt ?m # P else P) = m_virt ` {x \<in> insert (?m\<lparr>m_refcount := r\<rparr>) (set ms - {?m}). \<not> live x}"
    using inv(1) unfolding handles_inv_def by simp
  ultimately show ?thesis
    unfolding handles_inv_def set_update [OF i(1) inv(2)] using inv(1) old H'(2) unfolding handles_inv_def by auto
qed

lemma types_update: "types_inv ms \<Longrightarrow> wf_list ms \<Longrightarrow> i < length ms \<Longrightarrow> types_inv (ms[i := (ms ! i)\<lparr>m_refcount := r\<rparr>])"
  unfolding types_inv_def set_update by (auto dest: nth_mem)

text \<open>A mapping for one new holder.\<close>

lemma handles_insert:
  assumes inv: "handles_inv (xs @ ys) H P" "wf_list (xs @ ys)" and m: "wf_mapping m" "m_refcount m = 1" "\<forall>x \<in> set xs. below x m" "\<forall>y \<in> set ys. below m y"
    and h: "serves m h" "length H + 1 < 2 ^ 32"
  shows "handles_inv (xs @ m # ys) (h # H) P"
proof -
  have wf: "wf_list (xs @ m # ys)" by (rule wf_list_insert [OF inv(2) m(1, 3, 4)])
  have other: "covers m v \<Longrightarrow> covers x v \<Longrightarrow> x \<in> set (xs @ ys) \<Longrightarrow> x = m" for x v
    using covers_unique [OF wf, of x m v] by auto
  have new: "m \<notin> set (xs @ ys)" using m(1, 3, 4) by (auto simp: below_def wf_mapping_def)
  have "holders x (h # H) = holders x H" if "x \<in> set (xs @ ys)" for x
    using other [OF serves_covers [OF m(1) h(1)] _ that] that new by (auto simp: holders_def)
  moreover have "holders m H = 0"
    unfolding holders_def
  proof (simp add: filter_empty_conv, intro ballI notI)
    fix g
    assume g: "g \<in> set H" "covers m (h_ptr g)"
    then obtain x where x: "x \<in> set (xs @ ys)" "serves x g" using inv(1) unfolding handles_inv_def by blast
    have "wf_mapping x" using x(1) inv(2) by (auto simp: wf_list_def)
    then show False using other [OF g(2) serves_covers [OF _ x(2)] x(1)] x(1) new by auto
  qed
  then have "holders m (h # H) = 1" using serves_covers [OF m(1) h(1)] by (simp add: holders_def)
  moreover have "live m" using m(2) by (simp add: live_def)
  ultimately show ?thesis using inv(1) h m(2) unfolding handles_inv_def by auto
qed

lemma types_insert:
  assumes "types_inv (xs @ ys)" "wf_list (xs @ ys)" "wf_mapping m" "\<not> type_conflicts_nolock (m_phys m) (m_size m) (m_vprot m) (xs @ ys)"
  shows "types_inv (xs @ m # ys)"
proof -
  have no_wrap: "unat (m_phys x + m_size x) = unat (m_phys x) + unat (m_size x)" if "wf_mapping x" for x
    using that unat_add_small [of "m_phys x" "unat (m_size x)"] by (simp add: wf_mapping_def)
  have new: "m_vprot x AND VPROT_CACHE_MASK = m_vprot m AND VPROT_CACHE_MASK"
    if "x \<in> set (xs @ ys)" "unat (m_phys x) < unat (m_phys m) + unat (m_size m)" "unat (m_phys m) < unat (m_phys x) + unat (m_size x)" for x
  proof -
    have "wf_mapping x" using that(1) assms(2) by (auto simp: wf_list_def)
    then show ?thesis
      using assms(4) that no_wrap [of x] no_wrap [OF assms(3)] unfolding type_conflicts_nolock_def list_ex_iff word_less_nat_alt by auto
  qed
  show ?thesis
    unfolding types_inv_def
  proof (intro ballI impI)
    fix a b
    assume ab: "a \<in> set (xs @ m # ys)" "b \<in> set (xs @ m # ys)" "unat (m_phys a) < unat (m_phys b) + unat (m_size b)"
      "unat (m_phys b) < unat (m_phys a) + unat (m_size a)"
    consider "a = m" "b = m" | "a = m" "b \<in> set (xs @ ys)" | "a \<in> set (xs @ ys)" "b = m" | "a \<in> set (xs @ ys)" "b \<in> set (xs @ ys)" using ab(1, 2) by auto
    then show "m_vprot a AND VPROT_CACHE_MASK = m_vprot b AND VPROT_CACHE_MASK"
    proof cases
      case 2
      then show ?thesis using new [of b] ab(3, 4) by simp
    next
      case 3
      then show ?thesis using new [of a] ab(3, 4) by simp
    next
      case 4
      then show ?thesis using assms(1) ab(3, 4) unfolding types_inv_def by blast
    qed simp
  qed
qed

definition valid_request :: "u64 \<Rightarrow> u64 \<Rightarrow> u32 \<Rightarrow> bool" where
  "valid_request phys len vprot \<longleftrightarrow> len \<noteq> 0 \<and> unat phys + unat len \<le> 2 ^ 52 \<and> vprot AND VPROT_USER = 0"

lemma ceil_page: "x \<le> (x + 4095) div 4096 * 4096" "x \<le> 2 ^ 52 \<Longrightarrow> (x + 4095) div 4096 * 4096 \<le> 2 ^ 52" for x :: nat
proof -
  show "x \<le> (x + 4095) div 4096 * 4096" using div_mult_mod_eq [of "x + 4095" 4096] mod_less_divisor [of 4096 "x + 4095"] by linarith
  assume "x \<le> 2 ^ 52"
  then have "(x + 4095) div 4096 \<le> (2 ^ 52 + 4095) div 4096" by (intro div_le_mono) simp
  then show "(x + 4095) div 4096 * 4096 \<le> 2 ^ 52" by simp
qed

lemma request_pages:
  assumes "valid_request phys len vprot"
  defines "page \<equiv> page_align phys" and "bytes \<equiv> page_align_up (phys + len) - page_align phys"
  shows "unat page mod 2 ^ 12 = 0" "unat bytes mod 2 ^ 12 = 0" "unat page \<le> unat phys" "unat phys + unat len \<le> unat page + unat bytes"
    "unat page + unat bytes \<le> 2 ^ 52" "0 < unat bytes" "unat (page + bytes) = unat page + unat bytes"
proof -
  have len: "0 < unat len" "unat phys + unat len \<le> 2 ^ 52" using assms(1) by (auto simp: valid_request_def unat_gt_0)
  then have sum: "unat (phys + len) = unat phys + unat len" using unat_add_small [of phys "unat len"] by simp
  have page: "unat page = unat phys div 4096 * 4096" unfolding page_def by (rule unat_page_align)
  have up: "unat (page_align_up (phys + len)) = (unat phys + unat len + 4095) div 4096 * 4096"
    using len unat_page_align_up [of "phys + len"] by (simp add: sum)
  have "unat phys div 4096 \<le> (unat phys + unat len + 4095) div 4096" by (intro div_le_mono) simp
  then have le: "unat page \<le> unat (page_align_up (phys + len))" unfolding page up by simp
  have bytes: "unat bytes = (unat phys + unat len + 4095) div 4096 * 4096 - unat phys div 4096 * 4096"
    using le unat_sub [of page "page_align_up (phys + len)"] unfolding bytes_def up [symmetric] page [symmetric] page_def by (simp add: word_le_nat_alt)
  show "unat page mod 2 ^ 12 = 0" unfolding page by simp
  show "unat bytes mod 2 ^ 12 = 0" unfolding bytes by (simp flip: diff_mult_distrib)
  show "unat page \<le> unat phys" unfolding page by simp
  have ps: "unat page + unat bytes = (unat phys + unat len + 4095) div 4096 * 4096" using le unfolding bytes page up by simp
  show "unat phys + unat len \<le> unat page + unat bytes" unfolding ps by (rule ceil_page)
  then show "0 < unat bytes" using len(1) \<open>unat page \<le> unat phys\<close> by linarith
  show top: "unat page + unat bytes \<le> 2 ^ 52" unfolding ps by (rule ceil_page(2) [OF len(2)])
  show "unat (page + bytes) = unat page + unat bytes" using top unat_add_small [of page "unat bytes"] by simp
qed

subsection \<open>The operations\<close>

definition handle_of :: "u64 \<Rightarrow> u64 \<Rightarrow> u64 \<Rightarrow> u32 \<Rightarrow> handle" where
  "handle_of p phys len vprot = \<lparr>h_ptr = p, h_phys = phys, h_len = len, h_vprot = vprot\<rparr>"

definition held_after :: "u64 option \<Rightarrow> u64 \<Rightarrow> u64 \<Rightarrow> u32 \<Rightarrow> handle list \<Rightarrow> handle list" where
  "held_after r phys len vprot H = (case r of None \<Rightarrow> H | Some p \<Rightarrow> handle_of p phys len vprot # H)"

lemma mmio_reuse:
  assumes inv: "mmio_inv s H P" and req: "valid_request phys len vprot" and H: "length H + 1 < 2 ^ 32"
    and find: "find_reusable_nolock (page_align phys) (page_align_up (phys + len) - page_align phys) vprot (mmio_list s) = Some i"
  defines "m \<equiv> mmio_list s ! i"
  shows "mmio_inv (s\<lparr>mmio_list := (mmio_list s)[i := m\<lparr>m_refcount := m_refcount m + 1\<rparr>]\<rparr>)
    (handle_of (m_virt m + (phys - m_phys m)) phys len vprot # H) P"
proof -
  let ?ms = "mmio_list s" and ?h = "handle_of (m_virt m + (phys - m_phys m)) phys len vprot"
  note rp = request_pages [OF req]
  have i: "i < length ?ms" and m: "m_refcount m \<noteq> 0" "m_vprot m = vprot" "m_phys m \<le> page_align phys"
      "page_align phys + (page_align_up (phys + len) - page_align phys) \<le> m_phys m + m_size m"
    using position_Some [OF find [unfolded find_reusable_nolock_def]] unfolding m_def by auto
  have ms: "m \<in> set ?ms" "wf_list ?ms" "wf_mapping m" using inv i unfolding m_def mmio_inv_def pages_inv_def wf_list_def by auto
  have "unat (m_phys m + m_size m) = unat (m_phys m) + unat (m_size m)"
    using ms(3) unat_add_small [of "m_phys m" "unat (m_size m)"] by (simp add: wf_mapping_def)
  then have "unat phys + unat len \<le> unat (m_phys m) + unat (m_size m)" "unat (m_phys m) \<le> unat phys"
    using m(3, 4) rp(3, 4, 7) unfolding word_le_nat_alt by linarith+
  then have serves: "serves m ?h"
    using m(2) req by (simp add: serves_def handle_of_def valid_request_def unat_gt_0)
  have cov: "covers m (h_ptr ?h)" by (rule serves_covers [OF ms(3) serves])
  have count: "unat (m_refcount m) = holders m H" using inv ms(1) unfolding mmio_inv_def handles_inv_def by blast
  have "holders m H \<le> length H" by (simp add: holders_def)
  then have up: "unat (m_refcount m + 1) = unat (m_refcount m) + 1" using count H by (simp add: unat_word_ariths)
  then have r: "m_refcount m + 1 \<noteq> 0" by auto
  have new: "unat (m_refcount m + 1) = holders m (?h # H)" unfolding up count using cov by (simp add: holders_def)
  have same: "holders x (?h # H) = holders x H" if "x \<in> set ?ms" "x \<noteq> m" for x
    using covers_unique [OF ms(2) that(1) ms(1)] cov that(2) by (auto simp: holders_def)
  have "handles_inv (?ms[i := m\<lparr>m_refcount := m_refcount m + 1\<rparr>]) (?h # H) P"
    using handles_update [of ?ms H P i "m_refcount m + 1" "?h # H", folded m_def] inv ms(2) i m(1) new same serves H r
    unfolding mmio_inv_def live_def by auto
  then show ?thesis
    using inv pages_refcount [of "sys_pmap s" ?ms i "m_refcount m + 1", folded m_def] types_update [of ?ms i] i m(1) r ms(2)
    unfolding mmio_inv_def live_def m_def by simp
qed

lemma mmio_insert:
  assumes inv: "mmio_inv s H P" and req: "valid_request phys len vprot" and H: "length H + 1 < 2 ^ 32" and leaf: "max_leaf \<le> 4"
  defines "page \<equiv> page_align phys" and "bytes \<equiv> page_align_up (phys + len) - page_align phys"
  defines "m0 \<equiv> \<lparr>m_virt = 0, m_phys = page, m_size = bytes, m_vprot = vprot, m_refcount = 1\<rparr>"
  assumes ins: "insert_nolock m0 (mmio_list s) = Some (virt, ms')" and types: "\<not> type_conflicts_nolock page bytes vprot (mmio_list s)"
  obtains res mem' pm' where "pmap_map_range max_leaf virt page bytes vprot mem (sys_pmap s) = Some (res, mem', pm')"
    "res = Inr () \<Longrightarrow> mmio_inv \<lparr>mmio_list = ms', sys_pmap = pm'\<rparr> (handle_of (virt + (phys - page)) phys len vprot # H) P"
    "\<exists>pm''. pmap_unmap_range_noflush virt bytes mem' pm' = Some (Inr (), mem', pm'') \<and> mmio_inv \<lparr>mmio_list = unlink_nolock virt ms', sys_pmap = pm''\<rparr> H P"
proof -
  note rp = request_pages [OF req, folded page_def bytes_def]
  have req': "len \<noteq> 0" "vprot AND VPROT_USER = 0" using req by (simp_all add: valid_request_def)
  have wfl: "wf_list (mmio_list s)" using inv by (simp add: mmio_inv_def pages_inv_def)
  obtain xs ys where xy: "mmio_list s = xs @ ys" "ms' = xs @ m0\<lparr>m_virt := virt\<rparr> # ys" "region_start \<le> unat virt"
      "unat virt mod 2 ^ 12 = 0" "unat virt + unat (m_size m0) \<le> region_end"
      "\<forall>x \<in> set xs. below x (m0\<lparr>m_virt := virt\<rparr>)" "\<forall>y \<in> set ys. below (m0\<lparr>m_virt := virt\<rparr>) y"
    by (rule insert_nolock_sound [OF ins wfl]) (use rp(1) in \<open>simp_all add: m0_def\<close>)
  define m where "m = m0\<lparr>m_virt := virt\<rparr>"
  have msimps: "m_virt m = virt" "m_phys m = page" "m_size m = bytes" "m_vprot m = vprot" "m_refcount m = 1"
    by (simp_all add: m_def m0_def)
  have wf: "wf_mapping m" "live m"
    using xy(3-5) rp req' by (simp_all add: wf_mapping_def msimps live_def m0_def)
  note xym = xy(6, 7) [folded m_def] and ms' = xy(2) [folded m_def]
  have pages: "pages_inv (sys_pmap s) (xs @ ys)" and handles: "handles_inv (xs @ ys) H P" and types_inv: "types_inv (xs @ ys)"
    using inv xy(1) by (simp_all add: mmio_inv_def)
  obtain res mem' pm' where mp: "pmap_map_range max_leaf virt page bytes vprot mem (sys_pmap s) = Some (res, mem', pm')"
    "res = Inr () \<Longrightarrow> pages_inv pm' (xs @ m # ys)"
    "\<And>mem. \<exists>pm''. pmap_unmap_range_noflush virt bytes mem pm' = Some (Inr (), mem, pm'') \<and> pages_inv pm'' (xs @ ys)"
    by (rule pages_map [OF pages wf xym leaf, of mem, unfolded msimps]) blast
  have "serves m (handle_of (virt + (phys - page)) phys len vprot)"
    using rp(3, 4) req' by (simp add: serves_def handle_of_def msimps unat_gt_0)
  from handles_insert [OF handles wfl [unfolded xy(1)] wf(1) msimps(5) xym this H]
  have hi: "handles_inv ms' (handle_of (virt + (phys - page)) phys len vprot # H) P" unfolding ms' .
  have ti: "types_inv ms'"
    unfolding ms' using types xy(1) by (intro types_insert [OF types_inv wfl [unfolded xy(1)] wf(1)]) (simp add: msimps)
  have "virt \<notin> m_virt ` set xs"
  proof
    assume "virt \<in> m_virt ` set xs"
    then obtain x where x: "x \<in> set xs" "m_virt x = virt" by auto
    have "below x m" "wf_mapping x" using x(1) xym(1) wfl unfolding xy(1) by (auto simp: wf_list_def)
    then show False using x(2) by (simp add: below_def msimps wf_mapping_def)
  qed
  then have ul: "unlink_nolock virt ms' = xs @ ys" unfolding ms' using unlink_inserted [of virt xs m ys] msimps by simp
  show ?thesis
  proof (rule that [OF mp(1)])
    show "res = Inr () \<Longrightarrow> mmio_inv \<lparr>mmio_list = ms', sys_pmap = pm'\<rparr> (handle_of (virt + (phys - page)) phys len vprot # H) P"
      using mp(2) hi ti unfolding mmio_inv_def ms' by simp
    show "\<exists>pm''. pmap_unmap_range_noflush virt bytes mem' pm' = Some (Inr (), mem', pm'') \<and> mmio_inv \<lparr>mmio_list = unlink_nolock virt ms', sys_pmap = pm''\<rparr> H P"
      using mp(3) [of mem'] handles types_inv unfolding mmio_inv_def ul by auto
  qed
qed

lemma mmio_map_keeps:
  assumes inv: "mmio_inv s H P" and req: "valid_request phys len vprot" and H: "length H + 1 < 2 ^ 32" and leaf: "max_leaf \<le> 4"
  shows "\<exists>r mem' s'. mmio_map max_leaf alloc phys len vprot mem s = Some (r, mem', s') \<and> mmio_inv s' (held_after r phys len vprot H) P"
proof -
  let ?ms = "mmio_list s" and ?page = "page_align phys" and ?size = "page_align_up (phys + len) - page_align phys"
  let ?m0 = "\<lparr>m_virt = 0, m_phys = ?page, m_size = ?size, m_vprot = vprot, m_refcount = 1\<rparr>"
  have req': "len \<noteq> 0" "vprot AND VPROT_USER = 0" using req by (simp_all add: valid_request_def)
  note unfold = mmio_map_def [of max_leaf alloc phys len vprot mem s, unfolded Let_def]
  consider "\<not> alloc" | i where "alloc" "find_reusable_nolock ?page ?size vprot ?ms = Some i"
    | "alloc" "find_reusable_nolock ?page ?size vprot ?ms = None" "type_conflicts_nolock ?page ?size vprot ?ms \<or> insert_nolock ?m0 ?ms = None"
    | virt ms' where "alloc" "find_reusable_nolock ?page ?size vprot ?ms = None" "\<not> type_conflicts_nolock ?page ?size vprot ?ms"
        "insert_nolock ?m0 ?ms = Some (virt, ms')"
    by (cases "find_reusable_nolock ?page ?size vprot ?ms"; cases "insert_nolock ?m0 ?ms") auto
  then show ?thesis
  proof cases
    case 1
    then show ?thesis unfolding unfold using inv req' by (simp add: held_after_def)
  next
    case 2
    then show ?thesis unfolding unfold using mmio_reuse [OF inv req H 2(2)] req' by (simp add: held_after_def)
  next
    case 3
    then show ?thesis unfolding unfold using inv req' by (auto simp: held_after_def)
  next
    case 4
    obtain res mem' pm' where r: "pmap_map_range max_leaf virt ?page ?size vprot mem (sys_pmap s) = Some (res, mem', pm')"
      "res = Inr () \<Longrightarrow> mmio_inv \<lparr>mmio_list = ms', sys_pmap = pm'\<rparr> (handle_of (virt + (phys - ?page)) phys len vprot # H) P"
      "\<exists>pm''. pmap_unmap_range_noflush virt ?size mem' pm' = Some (Inr (), mem', pm'') \<and> mmio_inv \<lparr>mmio_list = unlink_nolock virt ms', sys_pmap = pm''\<rparr> H P"
      by (rule mmio_insert [OF inv req H leaf 4(4, 3), of mem]) blast
    then show ?thesis
      unfolding unfold using 4 req' by (cases res) (auto simp: held_after_def)
  qed
qed

lemma unmap_finds:
  assumes wf: "wf_list ms" and m: "m \<in> set ms" "serves m h"
  obtains i where "position (\<lambda>it. m_virt it \<le> h_ptr h \<and> h_ptr h < m_virt it + m_size it) ms = Some i" "i < length ms" "ms ! i = m"
proof -
  have wm: "wf_mapping x" "unat (m_virt x + m_size x) = unat (m_virt x) + unat (m_size x)" if "x \<in> set ms" for x
  proof -
    show "wf_mapping x" using that wf by (auto simp: wf_list_def)
    then show "unat (m_virt x + m_size x) = unat (m_virt x) + unat (m_size x)"
      using unat_add_small [of "m_virt x" "unat (m_size x)"] by (simp add: wf_mapping_def region_bounds)
  qed
  define o1 where "o1 = unat (h_phys h) - unat (m_phys m)"
  have "0 < unat (h_len h)" using m(2) by (simp add: serves_def)
  then have o1: "h_ptr h = m_virt m + of_nat o1" "o1 < unat (m_size m)" using serves_offset(1, 2) [OF wm(1) [OF m(1)] m(2), of 0] unfolding o1_def by simp_all
  then have up: "unat (h_ptr h) = unat (m_virt m) + o1"
    using unat_add_small [of "m_virt m" o1] wm(1) [OF m(1)] by (simp add: wf_mapping_def region_bounds)
  have "m_virt m \<le> h_ptr h \<and> h_ptr h < m_virt m + m_size m"
    unfolding word_le_nat_alt word_less_nat_alt wm(2) [OF m(1)] up using o1(2) by simp
  then obtain i where i: "position (\<lambda>it. m_virt it \<le> h_ptr h \<and> h_ptr h < m_virt it + m_size it) ms = Some i"
    using position_None [of "\<lambda>it. m_virt it \<le> h_ptr h \<and> h_ptr h < m_virt it + m_size it" ms m] m(1) by fastforce
  have il: "i < length ms" "m_virt (ms ! i) \<le> h_ptr h" "h_ptr h < m_virt (ms ! i) + m_size (ms ! i)" using position_Some [OF i] by simp_all
  let ?x = "ms ! i"
  have x: "?x \<in> set ms" using il(1) by simp
  have d: "unat (m_virt ?x) \<le> unat (h_ptr h)" "unat (h_ptr h) - unat (m_virt ?x) < unat (m_size ?x)"
    using il(2, 3) wm(2) [OF x] unfolding word_le_nat_alt word_less_nat_alt by linarith+
  have "h_ptr h = m_virt ?x + of_nat (unat (h_ptr h) - unat (m_virt ?x))" using d(1) by (simp add: of_nat_diff)
  then have "covers ?x (h_ptr h)" using pos_offset(2) [OF wm(1) [OF x] d(2)] by simp
  then have "?x = m" using covers_unique [OF wf x m(1)] serves_covers [OF wm(1) [OF m(1)] m(2)] by blast
  then show ?thesis using that i il(1) by blast
qed

lemma holders_remove1: "h \<in> set H \<Longrightarrow> holders x (remove1 h H) = (if covers x (h_ptr h) then holders x H - 1 else holders x H)"
  by (simp add: holders_def filter_remove1 length_remove1 remove1_idem)

definition pending_after :: "u64 option \<Rightarrow> u64 list \<Rightarrow> u64 list" where
  "pending_after r P = (case r of None \<Rightarrow> P | Some virt \<Rightarrow> virt # P)"

lemma mmio_unmap_keeps:
  assumes inv: "mmio_inv s H P" and h: "h \<in> set H"
  shows "\<exists>r s'. mmio_unmap (h_ptr h) mem s = Some (r, mem, s') \<and> mmio_inv s' (remove1 h H) (pending_after r P)"
proof -
  let ?ms = "mmio_list s"
  have pages: "pages_inv (sys_pmap s) ?ms" and handles: "handles_inv ?ms H P" and types: "types_inv ?ms" and wf: "wf_list ?ms"
    using inv by (simp_all add: mmio_inv_def pages_inv_def)
  obtain m where m: "m \<in> set ?ms" "live m" "serves m h" using handles h unfolding handles_inv_def by blast
  obtain i where i: "position (\<lambda>it. m_virt it \<le> h_ptr h \<and> h_ptr h < m_virt it + m_size it) ?ms = Some i" "i < length ?ms" "?ms ! i = m"
    by (rule unmap_finds [OF wf m(1, 3)])
  have cov: "covers m (h_ptr h)" using serves_covers m wf by (auto simp: wf_list_def)
  define r where "r = m_refcount m - 1"
  have "unat (m_refcount m) = holders m H" using handles m(1) unfolding handles_inv_def by blast
  moreover have "unat r = unat (m_refcount m) - 1" unfolding r_def using m(2) by (simp add: live_def unat_minus_one)
  ultimately have count: "unat r = holders m (remove1 h H)" using cov h by (simp add: holders_remove1)
  have other: "holders x (remove1 h H) = holders x H" if "x \<in> set ?ms" "x \<noteq> m" for x
    using covers_unique [OF wf that(1) m(1)] cov that(2) h by (auto simp: holders_remove1)
  have len: "length (remove1 h H) < 2 ^ 32" using handles by (auto simp: handles_inv_def length_remove1)
  have hi: "handles_inv (?ms[i := m\<lparr>m_refcount := r\<rparr>]) (remove1 h H) (if r = 0 then m_virt m # P else P)"
    by (rule handles_update [OF handles wf i(2), unfolded i(3), OF m(2) count other _ len]) (use set_remove1_subset [of h H] in blast)+
  have ti: "types_inv (?ms[i := m\<lparr>m_refcount := r\<rparr>])" using types_update [OF types wf i(2), of r] i(3) by simp
  note unfold = mmio_unmap_def [of "h_ptr h" mem s, unfolded Let_def i(1) option.case i(3) r_def [symmetric]]
  show ?thesis
  proof (cases "r = 0")
    case False
    have "pages_inv (sys_pmap s) (?ms[i := m\<lparr>m_refcount := r\<rparr>])" using pages_refcount [OF pages i(2), of r] i(3) m(2) False by simp
    then show ?thesis using hi ti False unfolding unfold by (simp add: mmio_inv_def pending_after_def word_gt_0)
  next
    case True
    obtain pm' where u: "pmap_unmap_range_noflush (m_virt m) (m_size m) mem (sys_pmap s) = Some (Inr (), mem, pm')"
        "pages_inv pm' (?ms[i := m\<lparr>m_refcount := 0\<rparr>])"
      using pages_unmap [OF pages i(2), of mem] i(3) m(2) by auto
    then show ?thesis using hi ti True unfolding unfold by (simp add: mmio_inv_def pending_after_def)
  qed
qed

lemma mmio_unlink_keeps:
  assumes inv: "mmio_inv s H P" and v: "virt \<in> set P"
  shows "mmio_inv (mmio_unlink virt s) H (remove1 virt P)"
proof -
  let ?ms = "mmio_list s"
  have wf: "wf_list ?ms" using inv by (simp add: mmio_inv_def pages_inv_def)
  have handles: "handles_inv ?ms H P" using inv by (simp add: mmio_inv_def)
  obtain m where m: "m \<in> set ?ms" "\<not> live m" "m_virt m = virt" using handles v unfolding handles_inv_def by auto
  have ms: "set (unlink_nolock virt ?ms) = set ?ms - {m}" using set_unlink [OF wf m(1)] m(3) by simp
  have "m_virt ` {x \<in> set ?ms - {m}. \<not> live x} = m_virt ` {x \<in> set ?ms. \<not> live x} - {virt}"
    using virt_unique [OF wf _ m(1)] m(2, 3) by auto
  then have "handles_inv (unlink_nolock virt ?ms) H (remove1 virt P)"
    using handles m(2) unfolding handles_inv_def ms by (auto simp: set_remove1_eq)
  moreover have "types_inv (unlink_nolock virt ?ms)" using inv unfolding mmio_inv_def types_inv_def ms by auto
  moreover have "pages_inv (sys_pmap s) (unlink_nolock virt ?ms)" using pages_unlink [OF _ m(1, 2)] inv m(3) by (simp add: mmio_inv_def)
  ultimately show ?thesis by (simp add: mmio_unlink_def mmio_inv_def)
qed

lemma mmio_other_keeps:
  assumes inv: "mmio_inv s H P" and pm: "wf_pmap pm" "num_levels pm = num_levels (sys_pmap s)"
    "\<And>v. in_region v \<Longrightarrow> leaf_of pm v = leaf_of (sys_pmap s) v"
  shows "mmio_inv (s\<lparr>sys_pmap := pm\<rparr>) H P"
proof -
  let ?ms = "mmio_list s"
  have pages: "pages_inv (sys_pmap s) ?ms" using inv by (simp add: mmio_inv_def)
  have "provides pm m" if m: "m \<in> set ?ms" "live m" for m
  proof (rule provides_cong [of "sys_pmap s"])
    show w: "wf_mapping m" "provides (sys_pmap s) m" "num_levels (sys_pmap s) = 4" "num_levels pm = 4"
      using m pages pm(2) by (auto simp: pages_inv_def wf_list_def)
    show "covers m v \<Longrightarrow> leaf_of pm v = leaf_of (sys_pmap s) v" for v using pm(3) covers_region [OF w(1)] by blast
  qed
  then have "pages_inv pm ?ms" using pages pm unfolding pages_inv_def by auto
  then show ?thesis using inv by (simp add: mmio_inv_def)
qed

subsection \<open>Runs\<close>

text \<open>
  What drivers do: map, unmap what they hold and, once the shootdown is over, unlink; and what the rest of the kernel does to
  its page tables outside the region. A state lists who holds what, and what is still to be unlinked.
\<close>

type_synonym mmio_run = "mmio \<times> handle list \<times> u64 list"

inductive mmio_step :: "mmio_run \<Rightarrow> mmio_run \<Rightarrow> bool" where
  map: "mmio_step (s, H, P) (s', held_after r phys len vprot H, P)"
    if "valid_request phys len vprot" "length H + 1 < 2 ^ 32" "max_leaf \<le> 4" "mmio_map max_leaf alloc phys len vprot mem s = Some (r, mem', s')"
| unmap: "mmio_step (s, H, P) (s', remove1 h H, pending_after r P)"
    if "h \<in> set H" "mmio_unmap (h_ptr h) mem s = Some (r, mem', s')"
| unlink: "mmio_step (s, H, P) (mmio_unlink virt s, H, remove1 virt P)" if "virt \<in> set P"
| other: "mmio_step (s, H, P) (s\<lparr>sys_pmap := pm\<rparr>, H, P)"
    if "wf_pmap pm" "num_levels pm = num_levels (sys_pmap s)" "\<forall>v. in_region v \<longrightarrow> leaf_of pm v = leaf_of (sys_pmap s) v"

inductive_cases mmio_stepE: "mmio_step (s, H, P) t"

text \<open>
  The state at boot, for tables of four levels. Five levels are left out: the lemmas on ranges ask that a step over a missing table
  of the top level does not wrap around, which holds for the region only when there are four levels, and with five only
  as long as the top table for the upper half is there.
\<close>

definition mmio_boot :: "mmio_run \<Rightarrow> bool" where
  "mmio_boot t \<longleftrightarrow> (case t of (s, H, P) \<Rightarrow> mmio_list s = [] \<and> H = [] \<and> P = [] \<and> wf_pmap (sys_pmap s) \<and> num_levels (sys_pmap s) = 4 \<and>
     (\<forall>v. in_region v \<longrightarrow> pmap_view (sys_pmap s) v = None))"

inductive mmio_reachable :: "mmio_run \<Rightarrow> bool" where
  boot: "mmio_boot t \<Longrightarrow> mmio_reachable t"
| step: "mmio_reachable t \<Longrightarrow> mmio_step t t' \<Longrightarrow> mmio_reachable t'"

lemma step_keeps: "mmio_step t t' \<Longrightarrow> (case t of (s, H, P) \<Rightarrow> mmio_inv s H P) \<Longrightarrow> (case t' of (s, H, P) \<Rightarrow> mmio_inv s H P)"
proof (induction rule: mmio_step.induct)
  case (map phys len vprot H max_leaf alloc mem s r mem' s' P)
  then show ?case using mmio_map_keeps [of s H P phys len vprot max_leaf alloc mem] by auto
next
  case (unmap h H mem s r mem' s' P)
  then show ?case using mmio_unmap_keeps [of s H P h mem] by auto
next
  case (unlink virt P s H)
  then show ?case using mmio_unlink_keeps by simp
next
  case (other pm s H P)
  then show ?case using mmio_other_keeps by simp
qed

lemma reachable_inv: "mmio_reachable (s, H, P) \<Longrightarrow> mmio_inv s H P"
proof -
  have "mmio_reachable t \<Longrightarrow> (case t of (s, H, P) \<Rightarrow> mmio_inv s H P)" for t
  proof (induction rule: mmio_reachable.induct)
    case (boot t)
    then show ?case
      by (auto simp: mmio_boot_def mmio_inv_def pages_inv_def handles_inv_def types_inv_def wf_list_def view_none)
  next
    case (step t t')
    then show ?case using step_keeps by blast
  qed
  then show "mmio_reachable (s, H, P) \<Longrightarrow> mmio_inv s H P" by fastforce
qed

lemma handle_view:
  assumes "mmio_inv s H P" "h \<in> set H" "i < unat (h_len h)"
  shows "pmap_view (sys_pmap s) (h_ptr h + of_nat i) = Some (h_phys h + of_nat i, vprot_seen (h_vprot h))"
proof -
  obtain m where m: "m \<in> set (mmio_list s)" "live m" "serves m h" using assms(1, 2) unfolding mmio_inv_def handles_inv_def by blast
  have w: "wf_mapping m" "provides (sys_pmap s) m" using m assms(1) by (auto simp: mmio_inv_def pages_inv_def wf_list_def)
  note o1 = serves_offset [OF w(1) m(3) assms(3)]
  note p = pos_offset [OF w(1) o1(2)]
  have "h_vprot h = m_vprot m" using m(3) by (simp add: serves_def)
  then show ?thesis using w(2) p unfolding provides_def o1(1) by (simp add: o1(3) [symmetric])
qed

text \<open>One free page can be mapped when there is memory for the tables.\<close>

lemma map_range_page:
  assumes "wf_pmap pm" "leaf_of pm virt = None" "num_levels pm - 1 \<le> mem" "page_offset virt = 0" "page_offset phys = 0"
  shows "\<exists>mem' pm'. pmap_map_range 1 virt phys 0x1000 vprot mem pm = Some (Inr (), mem', pm')"
proof -
  let ?n = "num_levels pm"
  have n: "0 < ?n" using assms(1) by (simp add: wf_pmap_def)
  obtain found mem1 t where a: "walk_allocate virt 1 ?n mem (root pm) = (found, mem1, t)" by (metis prod_cases3)
  define pm1 where "pm1 = pm\<lparr>root := t\<rparr>"
  have "1 \<le> ?n" using n by simp
  note al = allocate_leaf [OF assms(1) _ this a, folded pm1_def, simplified]
  have "found" using al(5) assms(3) by simp
  then obtain e at where w: "pmentry_walk virt 1 ?n t = (Some e, at)" using al(4) by (cases "pmentry_walk virt 1 ?n t") auto
  have "look (num_levels pm1) (root pm1) virt = None" using al(3) [of virt] assms(2) by (simp add: leaf_of_def)
  from walk_not_found [OF al(1) this] have "\<not> pte_valid e" using w al(2) by (simp add: pm1_def)
  moreover have "pick_leaf_level 1 virt phys 0x1000 vprot = 1" by (simp add: pick_leaf_level_def pick_from.simps)
  moreover have "pmentry_level_size 1 = 0x1000" by (simp add: pmentry_level_size_def level_shift push_bit_eq_mult)
  moreover have "map_range_from 1 v p 0 vprot m q = Some (Inr (), m, q)" for v p m q by (simp add: map_range_from.simps)
  ultimately have "\<exists>mem' pm'. map_range_from 1 virt phys 0x1000 vprot mem pm = Some (Inr (), mem', pm')"
    using \<open>found\<close> a w by (subst map_range_from.simps) (simp add: Let_def)
  moreover have "(virt OR phys OR 0x1000) AND (PAGE_SIZE - 1) = 0"
    using assms(4, 5) by (simp add: word_ao_dist page_offset_def PAGE_SIZE_def)
  ultimately show ?thesis by (simp add: pmap_map_range_def)
qed

definition mmio_empty :: mmio where
  "mmio_empty = \<lparr>mmio_list = [], sys_pmap = empty_pmap\<rparr>"

lemma boot_empty: "mmio_boot (mmio_empty, [], [])"
  using wf_empty_pmap by (simp add: mmio_boot_def mmio_empty_def empty_pmap_def pmap_view_def)

lemma map_first:
  obtains p mem' s' where "mmio_map 1 True 0xFEE00000 0x400 VPROT_WRITE 6 mmio_empty = Some (Some p, mem', s')"
    "\<exists>q t. mmio_map 1 True 0xFEE00800 0x400 VPROT_WRITE mem' s' = Some (Some q, mem', t)"
proof -
  have free: "leaf_of empty_pmap v = None" for v by (simp add: leaf_of_def empty_pmap_def)
  have p: "page_offset 0xFFFFFE0000000000 = 0" "page_offset 0xFEE00000 = 0" "num_levels empty_pmap - 1 \<le> 6"
    by (simp_all add: page_offset_def PAGE_SIZE_def empty_pmap_def)
  obtain mem' pm' where m: "pmap_map_range 1 0xFFFFFE0000000000 0xFEE00000 0x1000 VPROT_WRITE 6 empty_pmap = Some (Inr (), mem', pm')"
    using map_range_page [OF wf_empty_pmap free p(3, 1, 2), of VPROT_WRITE] by blast
  have a: "page_align 0xFEE00000 = 0xFEE00000" "page_align_up (0xFEE00000 + 0x400) - 0xFEE00000 = 0x1000"
    by (simp_all add: page_align_def page_align_up_def align_floor_def align_ceil_def PAGE_SIZE_def)
  define s' where "s' = \<lparr>mmio_list = [\<lparr>m_virt = 0xFFFFFE0000000000, m_phys = 0xFEE00000, m_size = 0x1000, m_vprot = VPROT_WRITE, m_refcount = 1\<rparr>], sys_pmap = pm'\<rparr>"
  have "mmio_map 1 True 0xFEE00000 0x400 VPROT_WRITE 6 mmio_empty = Some (Some 0xFFFFFE0000000000, mem', s')"
    unfolding mmio_map_def Let_def a using m
    by (simp add: mmio_empty_def find_reusable_nolock_def type_conflicts_nolock_def insert_nolock_def insert_gap_from.simps place_virt_def
        MMIO_REGION_BASE_def MMIO_REGION_SIZE_def LARGE_ALIGN_def vprot_defs push_bit_eq_mult s'_def)
  moreover have "\<exists>q t. mmio_map 1 True 0xFEE00800 0x400 VPROT_WRITE mem' s' = Some (Some q, mem', t)"
    by (simp add: mmio_map_def Let_def s'_def find_reusable_nolock_def page_align_def page_align_up_def align_floor_def align_ceil_def PAGE_SIZE_def vprot_defs)
  ultimately show ?thesis using that by blast
qed

text \<open>
  C1: With page tables of four levels, whatever sequence of mapping, unmapping, unlinking and page table changes elsewhere led to the present state, with
  shootdowns pending in any order, every byte that somebody holds a pointer to is mapped: it translates to its own byte of
  the physical range asked for, with the protection and the memory type asked for.
\<close>

theorem mmio_safety:
  assumes "mmio_reachable (s, H, P)" and "h \<in> set H" and "i < unat (h_len h)"
  shows "pmap_view (sys_pmap s) (h_ptr h + of_nat i) = Some (h_phys h + of_nat i, vprot_seen (h_vprot h))"
  by (rule handle_view [OF reachable_inv [OF assms(1)] assms(2, 3)])

theorem mmio_safety_witness:
  "\<exists>p s mem. mmio_map 1 True 0xFEE00000 0x400 VPROT_WRITE 6 mmio_empty = Some (Some p, mem, s) \<and>
     pmap_view (sys_pmap s) (p + of_nat 0x3F0) = Some (0xFEE003F0, vprot_seen VPROT_WRITE)"
proof -
  obtain p mem s where m: "mmio_map 1 True 0xFEE00000 0x400 VPROT_WRITE 6 mmio_empty = Some (Some p, mem, s)" by (rule map_first) blast
  have "mmio_step (mmio_empty, [], []) (s, [handle_of p 0xFEE00000 0x400 VPROT_WRITE], [])"
    using mmio_step.map [where H = "[]" and P = "[]", OF _ _ _ m] by (simp add: valid_request_def vprot_defs held_after_def)
  from mmio_reachable.step [OF mmio_reachable.boot [OF boot_empty] this]
  have "mmio_reachable (s, [handle_of p 0xFEE00000 0x400 VPROT_WRITE], [])" .
  from mmio_safety [OF this, of "handle_of p 0xFEE00000 0x400 VPROT_WRITE" "0x3F0"] show ?thesis
    using m by (simp add: handle_of_def)
qed

text \<open>
  C13: With page tables of four levels no assertion fails and no call panics: in every state that can come about, a request that is within physical memory
  returns, however much memory there is, and who holds a pointer can give it back, which takes no memory for page tables,
  as no large page has to be split.
\<close>

theorem mmio_no_panic:
  assumes "mmio_reachable (s, H, P)" and "length H + 1 < 2 ^ 32" and "max_leaf \<le> 4"
  shows "(valid_request phys len vprot \<longrightarrow> mmio_map max_leaf alloc phys len vprot mem s \<noteq> None) \<and>
    (\<forall>h \<in> set H. \<exists>r s'. mmio_unmap (h_ptr h) mem s = Some (r, mem, s'))"
  using mmio_map_keeps [OF reachable_inv [OF assms(1)] _ assms(2, 3)] mmio_unmap_keeps [OF reachable_inv [OF assms(1)]] by blast

theorem mmio_no_panic_witness:
  "mmio_map 2 True 0xE0000000 0x300000 VPROT_WRITE 0 mmio_empty \<noteq> None"
  using mmio_no_panic [OF mmio_reachable.boot [OF boot_empty], of 2 "0xE0000000" "0x300000" VPROT_WRITE True 0]
  by (simp add: valid_request_def vprot_defs)

text \<open>
  C25: With page tables of four levels, two pointers that are held at the same time and reach one physical page agree on the memory type.
\<close>

theorem mmio_types_agree:
  assumes "mmio_reachable (s, H, P)" and "a \<in> set H" and "b \<in> set H"
    and "i < unat (h_len a)" and "j < unat (h_len b)" and "page_align (h_phys a + of_nat i) = page_align (h_phys b + of_nat j)"
  shows "h_vprot a AND VPROT_CACHE_MASK = h_vprot b AND VPROT_CACHE_MASK"
proof -
  have inv: "mmio_inv s H P" by (rule reachable_inv [OF assms(1)])
  obtain x where x: "x \<in> set (mmio_list s)" "serves x a" using inv assms(2) unfolding mmio_inv_def handles_inv_def by blast
  obtain y where y: "y \<in> set (mmio_list s)" "serves y b" using inv assms(3) unfolding mmio_inv_def handles_inv_def by blast
  have in_mapping: "unat (m_phys m) \<le> unat (page_align (h_phys h + of_nat k)) \<and> unat (page_align (h_phys h + of_nat k)) < unat (m_phys m) + unat (m_size m)"
    if "m \<in> set (mmio_list s)" "serves m h" "k < unat (h_len h)" for m h k
  proof -
    have wf: "wf_mapping m" using that(1) inv by (auto simp: mmio_inv_def pages_inv_def wf_list_def)
    have u: "unat (h_phys h + of_nat k) = unat (h_phys h) + k"
      using that(2, 3) wf by (intro unat_add_small) (simp add: serves_def wf_mapping_def)
    have m12: "unat (m_phys m) = unat (m_phys m) div 4096 * 4096" using wf by (simp add: wf_mapping_def) (metis dvd_imp_mod_0 dvd_div_mult_self mod_0_imp_dvd)
    have "unat (m_phys m) div 4096 \<le> (unat (h_phys h) + k) div 4096" using that(2) by (intro div_le_mono) (simp add: serves_def)
    then have "unat (m_phys m) \<le> unat (page_align (h_phys h + of_nat k))" unfolding unat_page_align u using m12 by linarith
    moreover have "unat (page_align (h_phys h + of_nat k)) \<le> unat (h_phys h) + k" unfolding unat_page_align u by simp
    ultimately show ?thesis using that(2, 3) unfolding serves_def by linarith
  qed
  have "types_inv (mmio_list s)" using inv by (simp add: mmio_inv_def)
  moreover have "unat (m_phys x) < unat (m_phys y) + unat (m_size y)" "unat (m_phys y) < unat (m_phys x) + unat (m_size x)"
    using in_mapping [OF x assms(4)] in_mapping [OF y assms(5)] assms(6) by simp_all
  ultimately have "m_vprot x AND VPROT_CACHE_MASK = m_vprot y AND VPROT_CACHE_MASK" using x(1) y(1) unfolding types_inv_def by blast
  then show ?thesis using x(2) y(2) by (simp add: serves_def)
qed

theorem mmio_types_agree_witness:
  "\<exists>p mem s q mem' t. mmio_map 1 True 0xFEE00000 0x400 VPROT_WRITE 6 mmio_empty = Some (Some p, mem, s) \<and>
     mmio_map 1 True 0xFEE00800 0x400 VPROT_WRITE mem s = Some (Some q, mem', t) \<and>
     h_vprot (handle_of p 0xFEE00000 0x400 VPROT_WRITE) AND VPROT_CACHE_MASK = h_vprot (handle_of q 0xFEE00800 0x400 VPROT_WRITE) AND VPROT_CACHE_MASK"
proof -
  obtain p mem s q t where m: "mmio_map 1 True 0xFEE00000 0x400 VPROT_WRITE 6 mmio_empty = Some (Some p, mem, s)"
    and n: "mmio_map 1 True 0xFEE00800 0x400 VPROT_WRITE mem s = Some (Some q, mem, t)" by (rule map_first) blast
  let ?g = "handle_of p 0xFEE00000 0x400 VPROT_WRITE" and ?h = "handle_of q 0xFEE00800 0x400 VPROT_WRITE"
  have "mmio_step (mmio_empty, [], []) (s, [?g], [])"
    using mmio_step.map [where H = "[]" and P = "[]", OF _ _ _ m] by (simp add: valid_request_def vprot_defs held_after_def)
  note r = mmio_reachable.step [OF mmio_reachable.boot [OF boot_empty] this]
  have "mmio_step (s, [?g], []) (t, [?h, ?g], [])"
    using mmio_step.map [where H = "[?g]" and P = "[]", OF _ _ _ n] by (simp add: valid_request_def vprot_defs held_after_def)
  from mmio_types_agree [OF mmio_reachable.step [OF r this], of ?g ?h 0 0]
  show ?thesis using m n by (simp add: handle_of_def page_align_def align_floor_def PAGE_SIZE_def)
qed

end
