(* ===== verification/Spec2Isabelle.thy ===== *)
theory Spec2Isabelle
  imports Pdma Radix Signal_Safety Strtol Fat_Time Crc32 Tty_Typing Pmap_Limits Mmio_Safety
begin

text \<open>
  Verification of the Vex kernel, a Unix-like kernel in C.

  \<^bold>\<open>The program.\<close> The sources are under \<^verbatim>\<open>src/kernel\<close>. \<^verbatim>\<open>libk\<close> holds the library of the kernel (strings, bit
  arrays, sorting, radix trees, number parsing and printing), \<^verbatim>\<open>mm\<close> the memory management, \<^verbatim>\<open>proc\<close> processes,
  threads, credentials, signals and the system calls, \<^verbatim>\<open>fs\<close> the virtual file system and the file systems,
  \<^verbatim>\<open>dev\<close> the interfaces of devices, among them terminals, \<^verbatim>\<open>device\<close>, \<^verbatim>\<open>bus\<close>, \<^verbatim>\<open>drivers\<close> and \<^verbatim>\<open>firmware\<close> the
  device tree and the drivers, \<^verbatim>\<open>time\<close> clocks and the calendar, \<^verbatim>\<open>crypto\<close> checksums, \<^verbatim>\<open>arch\<close> the code of the
  machine. The parts meet through small interfaces: a process holds a descriptor table of counted files
  and credentials; signals work on the threads of a process and end it through its exit; a driver hands
  bytes to the terminal core, whose worker runs them through the line discipline, which sends
  signals to a foreground group and output back to the driver; a driver gets the registers of its device as a mapping
  of device memory, which the kernel's page tables translate.

  \<^bold>\<open>How the code is modelled.\<close> A C structure is a record, an enumeration a datatype, a fixed-width
  integer a word of that width where it can wrap around, and a function of the code a function of
  the same name on the state it works on. Code that runs under one hold of a lock is one
  function; where a function of the code takes a lock more than once and others can come in between, its parts are functions of their own, and
  histories interleave them (\<open>Fd_Table\<close>, \<open>Mmio_Safety\<close>). \<^verbatim>\<open>signal_deliver\<close> is one function
  although it takes the lock twice: between the parts only the thread itself could change the mask that the second part extends. An error code is
  the left side of \<open>'a result\<close>. Whether an allocation succeeds, what a driver or another component
  answers and what other threads do while a thread sleeps are arguments. A pointer into a buffer is
  the list of what is left of the buffer, and reading past the end has no value. A loop is a total
  function with its termination proved, except four that are partial functions: the loop of the terminal's worker (\<open>process_flip\<close>), the walk
  to a page that splits large pages on its way (\<open>pmentry_walk_page_nolock\<close>), and the loops that map and unmap a range
  (\<open>map_range_from\<close>, \<open>unmap_range_from\<close>). These are proved to return: the worker always, the others on well-formed tables
  and ranges within the bounds below. An assertion that fails is a call that does not return, and for device memory it is proved that none fails.

  \<^bold>\<open>The theories.\<close>

  \<^item> \<open>Vex_Prelude\<close>: error codes, widths, page arithmetic (\<^verbatim>\<open>include/vex/page.h\<close>) and lemmas on words and lists that
    several theories share, some in the collection \<open>bit_word\<close>.
  \<^item> \<open>Bitmap\<close>, \<^verbatim>\<open>libk/bitmap.c\<close>: the range operations, a chunk at a time with edge masks, do what a loop over
    single bits does. The locale \<open>range_bits\<close> is what \<open>Pdma\<close> builds on.
  \<^item> \<open>Pdma\<close>, \<^verbatim>\<open>mm/pdma.c\<close>: the allocator of contiguous pages. Allocation is sound and complete, and over any
    history no page is given out twice and none is lost.
  \<^item> \<open>Radix\<close>, \<^verbatim>\<open>libk/radix.c\<close>: the radix tree with allocation failures refines a partial map
    (locales \<open>index_map\<close> and \<open>reliable_index_map\<close>, interpreted by the tree).
  \<^item> \<open>Sort\<close>, \<^verbatim>\<open>libk/sort.c\<close>: the heap sort sorts for every total comparator (locale \<open>comparator\<close>).
  \<^item> \<open>Ctype\<close>, \<open>Cstring\<close>, \<open>Strtol\<close>, \<^verbatim>\<open>libk/ctype.c\<close>, \<^verbatim>\<open>libk/string.c\<close>, \<^verbatim>\<open>libk/strings.c\<close>, \<^verbatim>\<open>libk/stdlib.c\<close>: the C library functions
    against reference definitions, with their accesses outside buffers.
  \<^item> \<open>Gregorian\<close>, \<open>Calendar\<close>, \<open>Fat_Time\<close>, \<^verbatim>\<open>time/calendar.c\<close> and \<^verbatim>\<open>fs/fat/fat_time.c\<close>: the calendar is the Gregorian
    one, and the conversions between times, dates and FAT stamps are inverse to each other. The calendar is computed with integers and
    with the signed 64-bit arithmetic of the code, and it is shown exactly where that overflows.
  \<^item> \<open>Crc32\<close>, \<^verbatim>\<open>crypto/crc32.c\<close>: the table-driven checksum is that of the bit-serial register.
  \<^item> \<open>Cred\<close>, \<^verbatim>\<open>proc/cred.c\<close>: what a process can gain and lose by changing its ids and capabilities and by
    executing a file; group membership by binary search.
  \<^item> \<open>Refcount\<close>, \<open>Fd_Table\<close>, \<^verbatim>\<open>proc/process.c\<close> and \<^verbatim>\<open>fs/file.c\<close>: reference counting as a locale (\<open>refcounted\<close>), and the
    descriptor tables of all processes as its client: over any history, with forks and system calls interleaved between their locks, the
    32-bit count of a file is the number of references to it, as long as no file gets 2^32 of them.
  \<^item> \<open>Process\<close>, \<open>Signal\<close>, \<open>Signal_Safety\<close>, \<^verbatim>\<open>proc/process.c\<close> and \<^verbatim>\<open>proc/signal.c\<close>: threads, exit, and every operation on
    signals, with the invariant of the pending sets, where a signal ends up and who is told of it.
  \<^item> \<open>Tty_Ring\<close>, \<open>Tty_Discipline\<close>, \<open>Tty_Core\<close>, \<^verbatim>\<open>include/vex/tty_interface.h\<close>, \<^verbatim>\<open>dev/tty_discipline.c\<close> and
    \<^verbatim>\<open>dev/tty_interface.c\<close>: the rings (locale \<open>byte_queue\<close>), the whole line discipline and the core around it. \<open>Tty_Lines\<close> defines
    an abstract line editor on two lists and proves that the discipline refines it; \<open>Tty_Frame\<close> shows what the
    discipline leaves alone; \<open>Tty_Safety\<close> has the invariant over all operations, the worker (locale \<open>worker\<close>) and the output;
    \<open>Tty_Typing\<close> what a user sees.

  \<^item> \<open>Pmentry\<close>, \<open>Pmap\<close>, \<^verbatim>\<open>arch/amd64/include/arch/pmap.h\<close> and \<^verbatim>\<open>mm/pmap.c\<close>: entries of page tables with their memory types, and
    the tables with large pages that are split on demand. \<open>Pmap_Spec\<close> shows that they refine a map of pages (locale
    \<open>fallible_refinement\<close>), \<open>Pmap_Range\<close> that mapping and unmapping a range are inverse and keep the shape of the
    tables, \<open>Pmap_Limits\<close> two things the tables do not do.
  \<^item> \<open>Mmio\<close>, \<open>Mmio_Safety\<close>, \<^verbatim>\<open>mm/mmio.c\<close>: the shared and counted mappings of device memory. Over any interleaving of drivers,
    every held pointer reaches its physical memory, no assertion fails and memory types agree.

  \<^bold>\<open>Bounds.\<close> Ring positions are 32-bit words that wrap around; a ring holds at most 4096 bytes, and the distance of two
  positions in it is below that, so the wrap-around is harmless, which is proved. Sizes and page numbers are natural numbers
  where a guard of the code keeps them in range. Page tables have at most five levels, and a range of pages
  is at most half of what the tables span and leaves room for one table of the top level before the end of the addresses; device memory is only treated with four levels, because with five its region does not leave
  that room: the address the loop steps to behind a missing table of the top level would wrap around. A reference count is a 32-bit word, and its
  theorem has the hypothesis that no file gets 2^32 references. No definition takes fuel. A read or write that sleeps takes
  the list of what happens during its sleeps and has no value if it is still asleep at the end of the list.

  \<^bold>\<open>Not modelled.\<close> Of page tables the set-up of the kernel's tables at boot, the upper half that all address
  spaces share and the release of tables: the tables are trees, and their theorems are about one tree. Flushing translations,
  interrupt handling, context switches and the rest of \<^verbatim>\<open>arch\<close> are machine code or machine access. Drivers, buses and
  firmware (\<^verbatim>\<open>drivers\<close>, \<^verbatim>\<open>bus\<close>, \<^verbatim>\<open>firmware\<close>, \<^verbatim>\<open>irq\<close> and the clocks of \<^verbatim>\<open>time\<close>) are register accesses. The allocators
  of page frames, slabs and stacks appear only as the success or failure of an allocation. The address spaces of
  processes (\<^verbatim>\<open>mm/vms.c\<close>, \<^verbatim>\<open>mm/rmap.c\<close>), the virtual file system and the file systems, the scheduler and its
  queues, process groups, the process table, program loading, block devices, the device tree, formatted printing, job control and the status line of
  terminals and the copying of system call arguments are not modelled yet. \<^verbatim>\<open>contrib\<close> is
  third-party code and \<^verbatim>\<open>ktest\<close> holds tests.
\<close>

end
